(* ===== verification/Prelude.thy ===== *)
theory Prelude
  imports
    Complex_Main
    "HOL-Library.AList"
    "HOL-Library.Multiset"
    "HOL-Library.Word"
    "HOL-Library.List_Lexorder"
    "HOL-Library.Char_ord"
begin

text \<open>
  What every component shares: the names of the Go types the model keeps (64-bit integers with
  their wrap-around, instants, durations, strings ordered by bytes), Go maps that the code
  iterates over as association lists with an explicit iteration order, and a small interface for
  state machines.  Two collections of facts carry the component proofs: \<open>gomap\<close> for maps and
  \<open>frame\<close> for the fields an operation leaves alone.
\<close>

named_theorems gomap \<open>lookups, keys and sizes of Go maps\<close>
named_theorems frame \<open>fields an operation leaves unchanged\<close>

section \<open>Integers and time\<close>

text \<open>
  An \<open>int64\<close> is an \<open>int\<close> whose arithmetic is wrapped to the range of the type where the code
  computes; \<open>uint64\<close> counters are words.  A \<open>time.Time\<close> is the number of nanoseconds since Go's
  zero time, so that \<open>IsZero\<close> is equality with 0 and \<open>Before\<close>, \<open>After\<close>, \<open>Equal\<close> are the order on
  integers; a \<open>time.Duration\<close> is a number of nanoseconds.
\<close>

type_synonym int64 = int
type_synonym uint64 = "64 word"
type_synonym time = int
type_synonym duration = int
type_synonym executor_id = string

definition max_int64 :: int where "max_int64 = 2 ^ 63 - 1"
definition min_int64 :: int where "min_int64 = - (2 ^ 63)"

definition wrap64 :: "int \<Rightarrow> int64" where
  "wrap64 x = (x + 2 ^ 63) mod 2 ^ 64 - 2 ^ 63"

abbreviation (input) zero_time :: time where "zero_time \<equiv> 0"

abbreviation (input) millisecond :: duration where "millisecond \<equiv> 1000000"
abbreviation (input) second :: duration where "second \<equiv> 1000000000"

lemma wrap64_id [simp]: "min_int64 \<le> x \<Longrightarrow> x \<le> max_int64 \<Longrightarrow> wrap64 x = x"
  by (simp add: wrap64_def min_int64_def max_int64_def)

lemma wrap64_range: "min_int64 \<le> wrap64 x \<and> wrap64 x \<le> max_int64"
proof -
  have "0 \<le> (x + 2 ^ 63) mod 2 ^ 64" and "(x + 2 ^ 63) mod 2 ^ 64 < 2 ^ 64"
    by simp_all
  then show ?thesis by (simp add: wrap64_def min_int64_def max_int64_def)
qed

lemma wrap64_max: "wrap64 (max_int64 + 1) = min_int64"
  by (simp add: wrap64_def min_int64_def max_int64_def)

lemma wrap64_succ [simp]: "min_int64 \<le> x \<Longrightarrow> x < max_int64 \<Longrightarrow> wrap64 (x + 1) = x + 1"
  by simp

lemma wrap64_succ_nonneg: "0 \<le> x \<Longrightarrow> x < max_int64 \<Longrightarrow> wrap64 (x + 1) = x + 1"
  by (simp add: min_int64_def)

lemma max_int64_pos [simp]: "0 < max_int64" "0 \<le> max_int64" "min_int64 < 0" "min_int64 \<le> 0"
  by (simp_all add: max_int64_def min_int64_def)

lemma word_succ_greater: "v < w \<Longrightarrow> v < v + 1" for v w :: "'a::len word"
  by (metis inc_less_eq_self_iff_eq linorder_not_less word_order.extremum_strict)

section \<open>Go maps\<close>

text \<open>
  A map the code only looks up is a HOL map.  A map it also ranges over or takes the length of is
  an association list with distinct keys.  Go visits such a map in an unspecified order, so an
  operation that ranges over it takes the order as an argument: a list of the keys, each once.
\<close>

type_synonym ('k, 'v) gomap = "('k \<times> 'v) list"

definition gkeys :: "('k, 'v) gomap \<Rightarrow> 'k list" where
  "gkeys m = map fst m"

abbreviation gget :: "('k, 'v) gomap \<Rightarrow> 'k \<Rightarrow> 'v option" where
  "gget m k \<equiv> map_of m k"

abbreviation gput :: "'k \<Rightarrow> 'v \<Rightarrow> ('k, 'v) gomap \<Rightarrow> ('k, 'v) gomap" where
  "gput k v m \<equiv> AList.update k v m"

abbreviation gdel :: "'k \<Rightarrow> ('k, 'v) gomap \<Rightarrow> ('k, 'v) gomap" where
  "gdel k m \<equiv> AList.delete k m"

definition gwf :: "('k, 'v) gomap \<Rightarrow> bool" where
  "gwf m \<longleftrightarrow> distinct (gkeys m)"

definition range_order :: "('k, 'v) gomap \<Rightarrow> 'k list \<Rightarrow> bool" where
  "range_order m ks \<longleftrightarrow> mset ks = mset (gkeys m)"

lemma gget_gput [gomap, simp]: "gget (gput k v m) k' = (if k' = k then Some v else gget m k')"
  by (simp add: update_conv')

lemma gget_gdel [gomap, simp]: "gget (gdel k m) k' = (if k' = k then None else gget m k')"
  by (simp add: delete_conv')

lemma gwf_empty [gomap, simp]: "gwf []"
  by (simp add: gwf_def gkeys_def)

lemma gwf_gput [gomap, simp]: "gwf m \<Longrightarrow> gwf (gput k v m)"
  by (simp add: gwf_def gkeys_def distinct_update)

lemma gwf_gdel [gomap, simp]: "gwf m \<Longrightarrow> gwf (gdel k m)"
  by (simp add: gwf_def gkeys_def distinct_delete)

lemma set_gkeys [gomap]: "set (gkeys m) = dom (map_of m)"
  by (simp add: gkeys_def dom_map_of_conv_image_fst)

lemma gkeys_iff [gomap]: "k \<in> set (gkeys m) \<longleftrightarrow> gget m k \<noteq> None"
  by (auto simp: set_gkeys)

lemma length_gput [gomap]:
  "length (gput k v m) = (if gget m k = None then Suc (length m) else length m)"
  by (induction m) auto

lemma length_gdel [gomap]:
  "gwf m \<Longrightarrow> length (gdel k m) = (if gget m k = None then length m else length m - 1)"
proof (induction m)
  case Nil
  then show ?case by simp
next
  case (Cons p m)
  then have wf: "gwf m" and nin: "fst p \<notin> set (gkeys m)"
    by (simp_all add: gwf_def gkeys_def)
  show ?case
  proof (cases "fst p = k")
    case True
    with nin have "gdel k m = m"
      by (auto simp: gkeys_def delete_idem)
    with True show ?thesis by (cases p) (simp add: AList.delete_eq)
  next
    case False
    moreover have "m \<noteq> []" if "gget m k \<noteq> None"
      using that by auto
    ultimately show ?thesis
      using Cons.IH [OF wf] by (cases p) (auto simp: AList.delete_eq Suc_diff_1)
  qed
qed

lemma range_order_set: "range_order m ks \<Longrightarrow> set ks = dom (map_of m)"
  by (metis range_order_def set_gkeys set_mset_mset)

lemma range_order_iff: "range_order m ks \<Longrightarrow> k \<in> set ks \<longleftrightarrow> gget m k \<noteq> None"
  by (auto simp: range_order_set)

lemma range_order_distinct: "gwf m \<Longrightarrow> range_order m ks \<Longrightarrow> distinct ks"
  by (metis gwf_def range_order_def mset_eq_imp_distinct_iff)

lemma range_order_length: "range_order m ks \<Longrightarrow> length ks = length m"
  by (metis gkeys_def length_map mset_eq_length range_order_def)

lemma range_order_refl [simp]: "range_order m (gkeys m)"
  by (simp add: range_order_def)

text \<open>The key-value pairs that ranging over a map visits, in the order \<open>ks\<close>.\<close>

definition grange :: "('k, 'v) gomap \<Rightarrow> 'k list \<Rightarrow> ('k \<times> 'v) list" where
  "grange m ks = List.map_filter (\<lambda>k. map_option (Pair k) (gget m k)) ks"

lemma grange_Nil [simp]: "grange m [] = []"
  by (simp add: grange_def List.map_filter_simps)

lemma grange_Cons [simp]:
  "grange m (k # ks) = (case gget m k of None \<Rightarrow> grange m ks | Some v \<Rightarrow> (k, v) # grange m ks)"
  by (simp add: grange_def List.map_filter_simps split: option.split)

lemma set_grange: "set (grange m ks) = {(k, v). k \<in> set ks \<and> gget m k = Some v}"
  by (induction ks) (auto split: option.splits)

lemma grange_notin: "k \<notin> set ks \<Longrightarrow> grange ((k, v) # m) ks = grange m ks"
  by (induction ks) (auto split: option.splits)

lemma grange_gkeys: "gwf m \<Longrightarrow> grange m (gkeys m) = m"
proof (induction m)
  case (Cons p m)
  obtain k v where p: "p = (k, v)" by fastforce
  with Cons.prems have "gwf m" "k \<notin> set (gkeys m)" by (auto simp: gwf_def gkeys_def)
  with Cons.IH grange_notin [of k "gkeys m" v m] show ?case by (simp add: p gkeys_def)
qed (simp add: gkeys_def)

lemma mset_grange:
  assumes "gwf m" and "range_order m ks"
  shows "mset (grange m ks) = mset m"
proof -
  have "mset (grange m ks) = mset (grange m (gkeys m))"
    using assms(2) by (simp add: grange_def List.map_filter_def range_order_def)
  then show ?thesis by (simp add: grange_gkeys [OF assms(1)])
qed

lemma fst_grange: "map fst (grange m ks) = filter (\<lambda>k. gget m k \<noteq> None) ks"
  by (induction ks) (auto split: option.splits)

section \<open>State machines\<close>

text \<open>
  The interface of a component that moves in atomic steps: its initial states and its step
  relation.  An inductive invariant holds in every state reached after any number of steps; the
  count of steps is kept, because the bounds of the code's 64-bit counters are bounds on it.
\<close>

inductive run_of :: "('s \<Rightarrow> bool) \<Rightarrow> ('s \<Rightarrow> 's \<Rightarrow> bool) \<Rightarrow> nat \<Rightarrow> 's \<Rightarrow> bool"
  for init :: "'s \<Rightarrow> bool" and step :: "'s \<Rightarrow> 's \<Rightarrow> bool" where
  run_init: "init s \<Longrightarrow> run_of init step 0 s"
| run_step: "run_of init step n s \<Longrightarrow> step s t \<Longrightarrow> run_of init step (Suc n) t"

locale state_machine =
  fixes init :: "'s \<Rightarrow> bool"
    and step :: "'s \<Rightarrow> 's \<Rightarrow> bool"
    and inv :: "nat \<Rightarrow> 's \<Rightarrow> bool"
    and bound :: nat
  assumes init_inv: "init s \<Longrightarrow> inv 0 s"
    and step_inv: "inv n s \<Longrightarrow> step s t \<Longrightarrow> n < bound \<Longrightarrow> inv (Suc n) t"
begin

lemma run_inv: "run_of init step n s \<Longrightarrow> n \<le> bound \<Longrightarrow> inv n s"
  by (induction rule: run_of.induct) (auto intro: init_inv step_inv)

end

section \<open>Lists\<close>

lemma sorted_wrt_snocI:
  "sorted_wrt P xs \<Longrightarrow> (\<And>y. y \<in> set xs \<Longrightarrow> P y x) \<Longrightarrow> sorted_wrt P (xs @ [x])"
  by (simp add: sorted_wrt_append)

lemma find_SomeD: "find P xs = Some x \<Longrightarrow> x \<in> set xs \<and> P x"
  by (induction xs) (auto split: if_splits)

lemma find_None_iff2: "find P xs = None \<longleftrightarrow> (\<forall>x \<in> set xs. \<not> P x)"
  by (induction xs) auto

text \<open>The elements of a list around its \<open>k\<close>-th.\<close>

lemma nth_others:
  assumes u: "u \<in> set (take k xs) \<union> set (drop (Suc k) xs)" and "k < length xs"
  shows "\<exists>j < length xs. j \<noteq> k \<and> u = xs ! j"
proof (cases "u \<in> set (take k xs)")
  case True
  then obtain j where "j < k" "u = xs ! j" using assms(2) by (auto simp: in_set_conv_nth)
  then show ?thesis using assms(2) by (intro exI [of _ j]) simp
next
  case False
  then obtain j where "j < length xs - Suc k" "u = xs ! (Suc k + j)"
    using u by (auto simp: in_set_conv_nth)
  then show ?thesis using assms(2) by (intro exI [of _ "Suc k + j"]) simp
qed

end
