(* ===== verification/Model.thy ===== *)
theory Model
  imports Prelude
begin

text \<open>
  The domain types of \<open>internal/model\<close> (tasks, execution instances, leases, schedule windows) and
  the errors of all packages.  Fresh uuids and the current time are arguments of the constructors
  that ask for them.
\<close>

section \<open>Lifecycle states\<close>

text \<open>
  The three state types are Go integers with named constants; their \<open>String\<close> methods are defined
  on every integer, so the model keeps the constants' values and renders integers.
\<close>

datatype task_state =
  TaskPending | TaskDue | TaskDispatched | TaskRunning | TaskDone | TaskRemoved

datatype instance_state =
  InstanceQueued | InstanceRunning | InstanceFailed | InstanceSucceeded

datatype lease_state = LeaseIdle | LeaseLeased | LeaseRenewing | LeaseEvicted

fun task_state_iota :: "task_state \<Rightarrow> int" where
  "task_state_iota TaskPending = 0"
| "task_state_iota TaskDue = 1"
| "task_state_iota TaskDispatched = 2"
| "task_state_iota TaskRunning = 3"
| "task_state_iota TaskDone = 4"
| "task_state_iota TaskRemoved = 5"

fun instance_state_iota :: "instance_state \<Rightarrow> int" where
  "instance_state_iota InstanceQueued = 0"
| "instance_state_iota InstanceRunning = 1"
| "instance_state_iota InstanceFailed = 2"
| "instance_state_iota InstanceSucceeded = 3"

fun lease_state_iota :: "lease_state \<Rightarrow> int" where
  "lease_state_iota LeaseIdle = 0"
| "lease_state_iota LeaseLeased = 1"
| "lease_state_iota LeaseRenewing = 2"
| "lease_state_iota LeaseEvicted = 3"

definition TaskState_String :: "int \<Rightarrow> string" where
  "TaskState_String s =
     (if s = task_state_iota TaskPending then ''pending''
      else if s = task_state_iota TaskDue then ''due''
      else if s = task_state_iota TaskDispatched then ''dispatched''
      else if s = task_state_iota TaskRunning then ''running''
      else if s = task_state_iota TaskDone then ''done''
      else if s = task_state_iota TaskRemoved then ''removed''
      else ''unknown'')"

definition InstanceState_String :: "int \<Rightarrow> string" where
  "InstanceState_String s =
     (if s = instance_state_iota InstanceQueued then ''queued''
      else if s = instance_state_iota InstanceRunning then ''running''
      else if s = instance_state_iota InstanceFailed then ''failed''
      else if s = instance_state_iota InstanceSucceeded then ''succeeded''
      else ''unknown'')"

definition LeaseState_String :: "int \<Rightarrow> string" where
  "LeaseState_String s =
     (if s = lease_state_iota LeaseIdle then ''idle''
      else if s = lease_state_iota LeaseLeased then ''leased''
      else if s = lease_state_iota LeaseRenewing then ''renewing''
      else if s = lease_state_iota LeaseEvicted then ''evicted''
      else ''unknown'')"

text \<open>The constants are ordered by their values, as the code's integers are.\<close>

lemma task_state_iota_inj: "task_state_iota s = task_state_iota t \<longleftrightarrow> s = t"
  by (cases s; cases t) simp_all

instantiation task_state :: linorder
begin

definition less_eq_task_state :: "task_state \<Rightarrow> task_state \<Rightarrow> bool" where
  "s \<le> t \<longleftrightarrow> task_state_iota s \<le> task_state_iota t"

definition less_task_state :: "task_state \<Rightarrow> task_state \<Rightarrow> bool" where
  "s < t \<longleftrightarrow> task_state_iota s < task_state_iota t"

instance
  by standard (auto simp: less_eq_task_state_def less_task_state_def task_state_iota_inj)

end

section \<open>Tasks, instances, leases, windows\<close>

record task =
  task_ID :: string
  task_Sequence :: int64
  task_Group :: string
  task_Payload :: "8 word list"
  task_DedupeKey :: string
  task_DueAt :: time
  task_State :: task_state
  task_CreatedAt :: time

record inst =
  inst_ID :: string
  inst_TaskID :: string
  inst_DedupeKey :: string
  inst_State :: instance_state
  inst_Attempt :: int
  inst_StartedAt :: time
  inst_EndedAt :: time

record lease =
  lease_Executor :: string
  lease_Slot :: int
  lease_State :: lease_state
  lease_Expires :: time

record schedule_window =
  sw_ID :: string
  sw_OpenedAt :: time
  sw_TaskCount :: int

definition zero_task :: task where
  "zero_task = \<lparr>task_ID = [], task_Sequence = 0, task_Group = [], task_Payload = [],
     task_DedupeKey = [], task_DueAt = zero_time, task_State = TaskPending,
     task_CreatedAt = zero_time\<rparr>"

definition NewTask ::
  "string \<Rightarrow> string \<Rightarrow> time \<Rightarrow> string \<Rightarrow> 8 word list \<Rightarrow> time \<Rightarrow> task" where
  "NewTask id_uuid key_uuid now grp payload dueAt =
     \<lparr>task_ID = id_uuid, task_Sequence = 0, task_Group = grp, task_Payload = payload,
      task_DedupeKey = key_uuid, task_DueAt = dueAt, task_State = TaskPending,
      task_CreatedAt = now\<rparr>"

definition Task_Key :: "task \<Rightarrow> string" where
  "Task_Key t = task_ID t @ ''|'' @ task_Group t"

definition NewInstance :: "string \<Rightarrow> time \<Rightarrow> task \<Rightarrow> int \<Rightarrow> inst" where
  "NewInstance uuid now t attempt =
     \<lparr>inst_ID = uuid, inst_TaskID = task_ID t, inst_DedupeKey = task_DedupeKey t,
      inst_State = InstanceQueued, inst_Attempt = attempt, inst_StartedAt = now,
      inst_EndedAt = zero_time\<rparr>"

definition OpenWindow :: "string \<Rightarrow> time \<Rightarrow> int \<Rightarrow> schedule_window" where
  "OpenWindow uuid now cnt = \<lparr>sw_ID = uuid, sw_OpenedAt = now, sw_TaskCount = cnt\<rparr>"

section \<open>Errors\<close>

text \<open>The error values of all packages; \<open>DispatchError\<close> wraps the first cause of a failed batch.\<close>

datatype go_error =
  StoreErrFull
| ErrInvalidSequence
| QueueErrFull
| ErrNoLease
| ErrNoExecutor
| ErrClosed
| ErrDuplicate
| RunnerErrFull
| ErrLimited
| ErrOutOfOrder
| ErrAlreadyReplaying
| ErrTooManyRetries
| ErrEmptyTaskID
| ErrEmptyDedupeKey
| DispatchError int go_error

lemma NewInstance_simps [simp]:
  "inst_TaskID (NewInstance u now t a) = task_ID t"
  "inst_DedupeKey (NewInstance u now t a) = task_DedupeKey t"
  "inst_State (NewInstance u now t a) = InstanceQueued"
  "inst_Attempt (NewInstance u now t a) = a"
  "inst_ID (NewInstance u now t a) = u"
  by (simp_all add: NewInstance_def)

lemma TaskState_String_unknown: "TaskState_String s = ''unknown'' \<longleftrightarrow> s < 0 \<or> 5 < s"
  by (simp add: TaskState_String_def) linarith

lemma TaskState_String_inj:
  "TaskState_String (task_state_iota s) = TaskState_String (task_state_iota t) \<longleftrightarrow> s = t"
  by (cases s; cases t) (simp_all add: TaskState_String_def)

end
