(* ===== verification/Retry.thy ===== *)
theory Retry
  imports Model
begin

text \<open>
  The retry planner of \<open>internal/retry\<close>: the attempts used per task id and the budget.  A missing
  entry of the map reads as 0, as in Go.
\<close>

section \<open>The planner\<close>

record planner =
  pl_attempts :: "string \<rightharpoonup> int"
  pl_max :: int

definition Retry_New :: "int \<Rightarrow> planner" where
  "Retry_New maxAttempts = \<lparr>pl_attempts = Map.empty, pl_max = maxAttempts\<rparr>"

definition Planner_Validate :: "task \<Rightarrow> go_error option" where
  "Planner_Validate t =
     (if task_ID t = [] then Some ErrEmptyTaskID
      else if task_DedupeKey t = [] then Some ErrEmptyDedupeKey
      else None)"

definition Attempts :: "planner \<Rightarrow> string \<Rightarrow> int" where
  "Attempts p tid = (case pl_attempts p tid of None \<Rightarrow> 0 | Some n \<Rightarrow> n)"

definition Plan :: "planner \<Rightarrow> string \<Rightarrow> time \<Rightarrow> task \<Rightarrow> (go_error + inst) \<times> planner" where
  "Plan p uuid now t =
     (case Planner_Validate t of
        Some err \<Rightarrow> (Inl err, p)
      | None \<Rightarrow>
          let attempt = wrap64 (Attempts p (task_ID t) + 1)
          in if attempt > pl_max p then (Inl ErrTooManyRetries, p)
             else (Inr ((NewInstance uuid now t attempt)\<lparr>inst_DedupeKey := task_DedupeKey t\<rparr>),
                   p\<lparr>pl_attempts := (pl_attempts p)(task_ID t \<mapsto> attempt)\<rparr>))"

definition Retry_Reset :: "planner \<Rightarrow> string \<Rightarrow> planner" where
  "Retry_Reset p tid = p\<lparr>pl_attempts := (pl_attempts p)(tid := None)\<rparr>"

definition Requeueable :: "planner \<Rightarrow> task \<Rightarrow> bool" where
  "Requeueable p t \<longleftrightarrow> Attempts p (task_ID t) < pl_max p"

definition NextDue :: "planner \<Rightarrow> task \<Rightarrow> schedule_window \<Rightarrow> task" where
  "NextDue p t windowEnd = t\<lparr>task_State := TaskPending\<rparr>"

section \<open>Runs of planner calls\<close>

datatype planner_call = CallPlan string time task | CallReset string

fun planner_step :: "planner \<Rightarrow> planner_call \<Rightarrow> planner" where
  "planner_step p (CallPlan uuid now t) = snd (Plan p uuid now t)"
| "planner_step p (CallReset tid) = Retry_Reset p tid"

fun plan_ok :: "planner \<Rightarrow> planner_call \<Rightarrow> string \<Rightarrow> bool" where
  "plan_ok p (CallPlan uuid now t) tid \<longleftrightarrow> task_ID t = tid \<and> (\<exists>i. fst (Plan p uuid now t) = Inr i)"
| "plan_ok p (CallReset _) tid \<longleftrightarrow> False"

text \<open>The plans of a task since its last reset, counted along a run.\<close>

fun plans_since_reset :: "planner \<Rightarrow> planner_call list \<Rightarrow> string \<Rightarrow> nat \<Rightarrow> nat" where
  "plans_since_reset p [] tid n = n"
| "plans_since_reset p (c # cs) tid n =
     plans_since_reset (planner_step p c) cs tid
       (if c = CallReset tid then 0 else if plan_ok p c tid then Suc n else n)"

definition planner_inv :: "planner \<Rightarrow> bool" where
  "planner_inv p \<longleftrightarrow> (\<forall>tid. 0 \<le> Attempts p tid \<and> Attempts p tid \<le> max 0 (pl_max p))"

lemma Plan_cases:
  assumes "planner_inv p" and "pl_max p < max_int64"
  shows "Plan p uuid now t =
     (if task_ID t = [] then (Inl ErrEmptyTaskID, p)
      else if task_DedupeKey t = [] then (Inl ErrEmptyDedupeKey, p)
      else if Requeueable p t then
        (Inr (NewInstance uuid now t (Attempts p (task_ID t) + 1)),
         p\<lparr>pl_attempts := (pl_attempts p)(task_ID t \<mapsto> Attempts p (task_ID t) + 1)\<rparr>)
      else (Inl ErrTooManyRetries, p))"
proof -
  have "0 \<le> Attempts p (task_ID t)" "Attempts p (task_ID t) < max_int64"
    using assms max_int64_pos(1) unfolding planner_inv_def
    by (simp, smt (verit) max_def)
  then have w: "wrap64 (Attempts p (task_ID t) + 1) = Attempts p (task_ID t) + 1"
    by (rule wrap64_succ_nonneg)
  show ?thesis
    by (simp add: Plan_def w Planner_Validate_def Requeueable_def Let_def NewInstance_def)
qed

lemma Attempts_upd [simp]:
  "Attempts (p\<lparr>pl_attempts := (pl_attempts p)(tid := v)\<rparr>) tid' =
     (if tid' = tid then case v of None \<Rightarrow> 0 | Some n \<Rightarrow> n else Attempts p tid')"
  by (simp add: Attempts_def)

lemma planner_step_inv:
  assumes "planner_inv p" and "pl_max p < max_int64"
  shows "planner_inv (planner_step p c) \<and> pl_max (planner_step p c) = pl_max p \<and>
    Attempts (planner_step p c) tid =
      (if c = CallReset tid then 0 else if plan_ok p c tid then Attempts p tid + 1 else Attempts p tid)"
proof (cases c)
  case (CallPlan uuid now t)
  have "0 \<le> Attempts p i" "Attempts p i \<le> max 0 (pl_max p)" for i
    using assms(1) by (simp_all add: planner_inv_def)
  then show ?thesis
    by (auto simp: CallPlan Plan_cases [OF assms] planner_inv_def Requeueable_def)
next
  case (CallReset t)
  with assms show ?thesis by (auto simp: planner_inv_def Retry_Reset_def)
qed

lemma planner_run:
  "planner_inv p \<Longrightarrow> pl_max p < max_int64 \<Longrightarrow> Attempts p tid = int n \<Longrightarrow>
   planner_inv (foldl planner_step p cs) \<and> pl_max (foldl planner_step p cs) = pl_max p \<and>
   Attempts (foldl planner_step p cs) tid = int (plans_since_reset p cs tid n)"
proof (induction cs arbitrary: p n)
  case (Cons c cs)
  let ?n = "if c = CallReset tid then 0 else if plan_ok p c tid then Suc n else n"
  have "Attempts (planner_step p c) tid = int ?n"
    using planner_step_inv [OF Cons.prems(1,2), of c tid] Cons.prems(3) by simp
  with Cons.IH [of "planner_step p c" ?n] planner_step_inv [OF Cons.prems(1,2), of c tid] Cons.prems(2)
  show ?case by simp
qed simp

section \<open>Properties\<close>

text \<open>
  C36: a task is retried at most its budget.  After any calls, the attempts recorded for a task are
  the plans that succeeded since its last reset, never more than the budget; the next plan of a
  valid task succeeds exactly while the budget is not used up, as the code's \<open>Requeueable\<close> says,
  and then carries the next attempt number and the task's own dedupe key; a plan that fails changes
  nothing.
\<close>

theorem retry_budget:
  assumes "0 \<le> maxAttempts" and "maxAttempts < max_int64"
    and "p = foldl planner_step (Retry_New maxAttempts) calls"
    and "task_ID t \<noteq> []" and "task_DedupeKey t \<noteq> []"
  shows "Attempts p (task_ID t) = int (plans_since_reset (Retry_New maxAttempts) calls (task_ID t) 0)
    \<and> Attempts p (task_ID t) \<le> maxAttempts
    \<and> (if Requeueable p t
       then Attempts p (task_ID t) < maxAttempts \<and>
         (\<exists>i p'. Plan p uuid now t = (Inr i, p') \<and> inst_Attempt i = Attempts p (task_ID t) + 1
           \<and> inst_TaskID i = task_ID t \<and> inst_DedupeKey i = task_DedupeKey t
           \<and> Attempts p' (task_ID t) = Attempts p (task_ID t) + 1)
       else Attempts p (task_ID t) = maxAttempts \<and> Plan p uuid now t = (Inl ErrTooManyRetries, p))"
proof -
  have new: "planner_inv (Retry_New maxAttempts)" "pl_max (Retry_New maxAttempts) = maxAttempts"
    "Attempts (Retry_New maxAttempts) (task_ID t) = int 0"
    by (simp_all add: planner_inv_def Retry_New_def Attempts_def)
  from planner_run [OF new(1) _ new(3)] new(2) assms(2,3)
  have p: "planner_inv p" "pl_max p = maxAttempts"
    "Attempts p (task_ID t) = int (plans_since_reset (Retry_New maxAttempts) calls (task_ID t) 0)"
    by simp_all
  have "Attempts p (task_ID t) \<le> maxAttempts" using p(1,2) assms(1) by (auto simp: planner_inv_def max_def)
  with p assms(2,4,5) show ?thesis
    by (auto simp: Plan_cases Requeueable_def)
qed

theorem retry_budget_witness:
  "let t = zero_task\<lparr>task_ID := ''t'', task_DedupeKey := ''k''\<rparr>;
       p = foldl planner_step (Retry_New 2) [CallPlan ''u'' 1 t, CallReset ''t'', CallPlan ''v'' 2 t, CallPlan ''w'' 3 t]
   in Attempts p ''t'' = 2 \<and> Plan p ''x'' 4 t = (Inl ErrTooManyRetries, p)"
proof -
  let ?t = "zero_task\<lparr>task_ID := ''t'', task_DedupeKey := ''k''\<rparr>"
  let ?cs = "[CallPlan ''u'' 1 ?t, CallReset ''t'', CallPlan ''v'' 2 ?t, CallPlan ''w'' 3 ?t]"
  let ?p = "foldl planner_step (Retry_New 2) ?cs"
  have "\<not> Requeueable ?p ?t" by code_simp
  then show ?thesis
    using retry_budget [of 2 ?p ?cs ?t "''x''" 4] by (simp add: max_int64_def Let_def)
qed

end
