(* ===== verification/Runner.thy ===== *)
theory Runner
  imports Model
begin

text \<open>
  The runner of one executor slot, \<open>internal/exec/runner.go\<close>: its shared state, the critical
  sections of its methods as functions, and its goroutines as a step relation.  A step is one
  critical section, one channel operation or one return; the mutex is explicit, because a replayed
  send blocks while it holds it.  The channel \<open>in\<close> is the list of the instances it buffers (its
  capacity is positive; the configuration uses 64), the channels \<open>stop\<close> and \<open>done\<close> are the flags
  that say they are closed.
\<close>

section \<open>Shared state and critical sections\<close>

record runner =
  rn_in :: "inst list"
  rn_cap :: nat
  rn_inflight :: "string set"
  rn_replay :: bool
  rn_buffer :: "inst list"
  rn_closed :: bool
  rn_wg :: nat
  rn_stop :: bool
  rn_done :: bool

definition NewRunner :: "nat \<Rightarrow> runner" where
  "NewRunner queueSize =
     \<lparr>rn_in = [], rn_cap = queueSize, rn_inflight = {}, rn_replay = False, rn_buffer = [],
      rn_closed = False, rn_wg = 0, rn_stop = False, rn_done = False\<rparr>"

text \<open>Sending on the channel succeeds at once exactly if its buffer has room.\<close>

definition chan_send :: "runner \<Rightarrow> inst \<Rightarrow> runner option" where
  "chan_send r i = (if length (rn_in r) < rn_cap r then Some (r\<lparr>rn_in := rn_in r @ [i]\<rparr>) else None)"

definition reserve :: "runner \<Rightarrow> inst \<Rightarrow> runner" where
  "reserve r i = r\<lparr>rn_inflight := insert (inst_DedupeKey i) (rn_inflight r)\<rparr>"

definition release :: "runner \<Rightarrow> inst \<Rightarrow> runner" where
  "release r i = r\<lparr>rn_inflight := rn_inflight r - {inst_DedupeKey i}\<rparr>"

text \<open>
  The locked part of \<open>Enqueue\<close>: \<open>Some res\<close> when the call returns \<open>res\<close> from there, \<open>None\<close> when it
  goes on to the slow path.
\<close>

definition Enqueue_try :: "runner \<Rightarrow> inst \<Rightarrow> go_error option option \<times> runner" where
  "Enqueue_try r i =
     (if rn_closed r then (Some (Some ErrClosed), r)
      else if inst_DedupeKey i \<in> rn_inflight r then (Some (Some ErrDuplicate), r)
      else if rn_replay r then (Some None, r\<lparr>rn_buffer := rn_buffer r @ [i]\<rparr>)
      else (case chan_send (reserve r i) i of
              Some r' \<Rightarrow> (Some None, r')
            | None \<Rightarrow> (None, release (reserve r i) i)))"

definition BeginReplay :: "runner \<Rightarrow> bool \<times> runner" where
  "BeginReplay r =
     (if rn_closed r \<or> rn_replay r then (False, r)
      else (True, r\<lparr>rn_replay := True, rn_buffer := []\<rparr>))"

definition EndReplay_take :: "runner \<Rightarrow> inst list \<times> runner" where
  "EndReplay_take r = (rn_buffer r, r\<lparr>rn_replay := False, rn_buffer := []\<rparr>)"

definition InReplay :: "runner \<Rightarrow> bool" where "InReplay r = rn_replay r"

definition IsClosed :: "runner \<Rightarrow> bool" where "IsClosed r = rn_closed r"

definition QueueDepth :: "runner \<Rightarrow> nat" where "QueueDepth r = length (rn_in r)"

section \<open>The methods, between the waits of one caller\<close>

text \<open>
  A caller that waits in a \<open>select\<close> sees the other goroutines change the runner meanwhile: a wait
  is a function from the state when it begins to the state when it ends and what ended it.
\<close>

datatype wait_end = Room | Timer | Stopped

type_synonym wait = "runner \<Rightarrow> wait_end \<times> runner"

definition Runner_Enqueue :: "wait \<Rightarrow> runner \<Rightarrow> inst \<Rightarrow> go_error option \<times> runner" where
  "Runner_Enqueue w r i =
     (case Enqueue_try r i of
        (Some res, r') \<Rightarrow> (res, r')
      | (None, r') \<Rightarrow>
          (case w r' of
             (Room, r2) \<Rightarrow> (case chan_send r2 i of
                 Some r3 \<Rightarrow> (None, reserve r3 i)
               | None \<Rightarrow> (Some RunnerErrFull, r2))
           | (Timer, r2) \<Rightarrow> (Some RunnerErrFull, r2)
           | (Stopped, r2) \<Rightarrow> (Some ErrClosed, r2)))"

definition sendLocked :: "wait \<Rightarrow> runner \<Rightarrow> inst \<Rightarrow> go_error option \<times> runner" where
  "sendLocked w r i =
     (let r1 = reserve r i
      in case chan_send r1 i of
           Some r2 \<Rightarrow> (None, r2)
         | None \<Rightarrow>
             (case w r1 of
                (Room, r2) \<Rightarrow> (case chan_send r2 i of
                    Some r3 \<Rightarrow> (None, r3)
                  | None \<Rightarrow> (Some RunnerErrFull, release r2 i))
              | (_, r2) \<Rightarrow> (Some RunnerErrFull, release r2 i)))"

definition ReplayWrite :: "wait \<Rightarrow> runner \<Rightarrow> inst \<Rightarrow> go_error option \<times> runner" where
  "ReplayWrite w r i = (if rn_closed r then (Some ErrClosed, r) else sendLocked w r i)"

definition EndReplay :: "wait \<Rightarrow> runner \<Rightarrow> runner" where
  "EndReplay w r = (let (flush, r) = EndReplay_take r in foldl (\<lambda>r i. snd (sendLocked w r i)) r flush)"

text \<open>\<open>Shutdown\<close> with what the worker does until the wait group is empty.\<close>

definition Shutdown :: "(runner \<Rightarrow> runner) \<Rightarrow> runner \<Rightarrow> runner" where
  "Shutdown drained r =
     (if rn_closed r then r
      else (drained (r\<lparr>rn_closed := True\<rparr>))\<lparr>rn_stop := True, rn_done := True\<rparr>)"

text \<open>\<open>Wait\<close> returns true if the slot is released before the timer fires.\<close>

definition Runner_Wait :: "(runner \<Rightarrow> runner) \<Rightarrow> runner \<Rightarrow> bool \<times> runner" where
  "Runner_Wait elapse r = (let r = elapse r in (rn_done r, r))"

section \<open>Goroutines\<close>

text \<open>
  The worker (the method \<open>run\<close>): waiting in its \<open>select\<close>, holding a received instance, running the
  handler on it, back from the handler, about to leave the wait group, or returned (with the
  instance it dropped, if it found the runner closed).
\<close>

datatype worker_pc =
  WIdle
| WGot inst
| WRunning inst
| WFinish inst
| WWgDone inst
| WExited "inst list"

text \<open>
  A caller: idle with the result of its last call; in the slow path of \<open>Enqueue\<close> before and after
  the send; in \<open>sendLocked\<close>, with the rest of the flush when \<open>EndReplay\<close> called it; between two
  sends of a flush; in \<open>Shutdown\<close> before and after the wait.
\<close>

datatype caller_pc =
  CIdle "go_error option"
| CSlow inst
| CSlowSent inst
| CSend inst "inst list option"
| CFlush "inst list"
| CShutWait
| CShutStop

datatype origin = Live | LiveSlow | Replayed | Flushed

record runner_sys =
  y_r :: runner
  y_lock :: "nat option"
  y_worker :: worker_pc
  y_thr :: "nat \<Rightarrow> caller_pc"
  y_sent :: "(origin \<times> inst) list"
  y_started :: "inst list"
  y_accepted :: "(origin \<times> inst) list"
  y_mark :: nat
  y_plain :: bool

text \<open>
  The last five fields record history: every instance sent, in order and by which path; the
  instances the handler was started on; the ones for which \<open>Enqueue\<close> returned success, in order and
  from its locked part (\<open>Live\<close>) or from its slow path (\<open>LiveSlow\<close>); how many were sent when the replay
  window opened; and whether only the fast path has been used so far.
\<close>

definition runner_start :: "nat \<Rightarrow> runner_sys" where
  "runner_start cap = \<lparr>y_r = NewRunner cap, y_lock = None, y_worker = WIdle,
     y_thr = (\<lambda>t. CIdle None), y_sent = [], y_started = [], y_accepted = [], y_mark = 0, y_plain = True\<rparr>"

definition runner_init :: "runner_sys \<Rightarrow> bool" where
  "runner_init s \<longleftrightarrow> (\<exists>cap > 0. s = runner_start cap)"

fun after_send :: "inst list option \<Rightarrow> go_error option \<Rightarrow> caller_pc" where
  "after_send None res = CIdle res"
| "after_send (Some rest) res = CFlush rest"

definition send_origin :: "inst list option \<Rightarrow> origin" where
  "send_origin k = (case k of None \<Rightarrow> Replayed | Some _ \<Rightarrow> Flushed)"

datatype action =
  Enq nat inst | SlowSend nat | SlowMark nat | SlowTimeout nat | SlowStop nat
| ReplaySend nat inst | SendOk nat | SendTimeout nat
| OpenReplay nat | CloseReplay nat | FlushNext nat | FlushEnd nat
| ShutBegin nat | ShutStop nat | ShutDone nat
| Recv | WorkerStop | StartInst | HandlerReturn | FinishInst | LeaveGroup

abbreviation goes :: "runner_sys \<Rightarrow> nat \<Rightarrow> caller_pc \<Rightarrow> (nat \<Rightarrow> caller_pc)" where
  "goes s t pc \<equiv> (y_thr s)(t := pc)"

inductive runner_step :: "runner_sys \<Rightarrow> action \<Rightarrow> runner_sys \<Rightarrow> bool" where
  enq: "y_lock s = None \<Longrightarrow> y_thr s t = CIdle x \<Longrightarrow> Enqueue_try (y_r s) i = (Some res, r') \<Longrightarrow>
    runner_step s (Enq t i) (s\<lparr>y_r := r', y_thr := goes s t (CIdle res),
      y_sent := (if res = None \<and> \<not> rn_replay (y_r s) then y_sent s @ [(Live, i)] else y_sent s),
      y_accepted := (if res = None then y_accepted s @ [(Live, i)] else y_accepted s)\<rparr>)"
| enq_block: "y_lock s = None \<Longrightarrow> y_thr s t = CIdle x \<Longrightarrow> Enqueue_try (y_r s) i = (None, r') \<Longrightarrow>
    runner_step s (Enq t i) (s\<lparr>y_r := r', y_thr := goes s t (CSlow i)\<rparr>)"
| slow_send: "y_thr s t = CSlow i \<Longrightarrow> chan_send (y_r s) i = Some r' \<Longrightarrow>
    runner_step s (SlowSend t) (s\<lparr>y_r := r', y_thr := goes s t (CSlowSent i),
      y_sent := y_sent s @ [(LiveSlow, i)], y_plain := False\<rparr>)"
| slow_mark: "y_lock s = None \<Longrightarrow> y_thr s t = CSlowSent i \<Longrightarrow>
    runner_step s (SlowMark t) (s\<lparr>y_r := reserve (y_r s) i, y_thr := goes s t (CIdle None),
      y_accepted := y_accepted s @ [(LiveSlow, i)]\<rparr>)"
| slow_timeout: "y_thr s t = CSlow i \<Longrightarrow>
    runner_step s (SlowTimeout t) (s\<lparr>y_thr := goes s t (CIdle (Some RunnerErrFull))\<rparr>)"
| slow_stop: "y_thr s t = CSlow i \<Longrightarrow> rn_stop (y_r s) \<Longrightarrow>
    runner_step s (SlowStop t) (s\<lparr>y_thr := goes s t (CIdle (Some ErrClosed))\<rparr>)"
| replay_closed: "y_lock s = None \<Longrightarrow> y_thr s t = CIdle x \<Longrightarrow> rn_closed (y_r s) \<Longrightarrow>
    runner_step s (ReplaySend t i) (s\<lparr>y_thr := goes s t (CIdle (Some ErrClosed))\<rparr>)"
| replay_send: "y_lock s = None \<Longrightarrow> y_thr s t = CIdle x \<Longrightarrow> \<not> rn_closed (y_r s) \<Longrightarrow>
    runner_step s (ReplaySend t i) (s\<lparr>y_r := reserve (y_r s) i, y_lock := Some t,
      y_thr := goes s t (CSend i None), y_plain := False\<rparr>)"
| send_ok: "y_thr s t = CSend i k \<Longrightarrow> chan_send (y_r s) i = Some r' \<Longrightarrow>
    runner_step s (SendOk t) (s\<lparr>y_r := r', y_lock := None, y_thr := goes s t (after_send k None),
      y_sent := y_sent s @ [(send_origin k, i)]\<rparr>)"
| send_timeout: "y_thr s t = CSend i k \<Longrightarrow>
    runner_step s (SendTimeout t) (s\<lparr>y_r := release (y_r s) i, y_lock := None,
      y_thr := goes s t (after_send k (Some RunnerErrFull))\<rparr>)"
| open_replay: "y_lock s = None \<Longrightarrow> y_thr s t = CIdle x \<Longrightarrow>
    runner_step s (OpenReplay t) (s\<lparr>y_r := snd (BeginReplay (y_r s)),
      y_thr := goes s t (CIdle (if fst (BeginReplay (y_r s)) then None else Some ErrAlreadyReplaying)),
      y_mark := (if fst (BeginReplay (y_r s)) then length (y_sent s) else y_mark s)\<rparr>)"
| close_replay: "y_lock s = None \<Longrightarrow> y_thr s t = CIdle x \<Longrightarrow> EndReplay_take (y_r s) = (flush, r') \<Longrightarrow>
    runner_step s (CloseReplay t) (s\<lparr>y_r := r', y_thr := goes s t (CFlush flush)\<rparr>)"
| flush_next: "y_lock s = None \<Longrightarrow> y_thr s t = CFlush (i # rest) \<Longrightarrow>
    runner_step s (FlushNext t) (s\<lparr>y_r := reserve (y_r s) i, y_lock := Some t,
      y_thr := goes s t (CSend i (Some rest)), y_plain := False\<rparr>)"
| flush_end: "y_thr s t = CFlush [] \<Longrightarrow>
    runner_step s (FlushEnd t) (s\<lparr>y_thr := goes s t (CIdle None)\<rparr>)"
| shut_again: "y_lock s = None \<Longrightarrow> y_thr s t = CIdle x \<Longrightarrow> rn_closed (y_r s) \<Longrightarrow>
    runner_step s (ShutBegin t) s"
| shut_begin: "y_lock s = None \<Longrightarrow> y_thr s t = CIdle x \<Longrightarrow> \<not> rn_closed (y_r s) \<Longrightarrow>
    runner_step s (ShutBegin t) (s\<lparr>y_r := (y_r s)\<lparr>rn_closed := True\<rparr>, y_thr := goes s t CShutWait\<rparr>)"
| shut_stop: "y_thr s t = CShutWait \<Longrightarrow> rn_wg (y_r s) = 0 \<Longrightarrow>
    runner_step s (ShutStop t) (s\<lparr>y_r := (y_r s)\<lparr>rn_stop := True\<rparr>, y_thr := goes s t CShutStop\<rparr>)"
| shut_done: "y_thr s t = CShutStop \<Longrightarrow>
    runner_step s (ShutDone t) (s\<lparr>y_r := (y_r s)\<lparr>rn_done := True\<rparr>, y_thr := goes s t (CIdle None)\<rparr>)"
| w_recv: "y_worker s = WIdle \<Longrightarrow> rn_in (y_r s) = i # rest \<Longrightarrow>
    runner_step s Recv (s\<lparr>y_r := (y_r s)\<lparr>rn_in := rest\<rparr>, y_worker := WGot i\<rparr>)"
| w_stop: "y_worker s = WIdle \<Longrightarrow> rn_stop (y_r s) \<Longrightarrow>
    runner_step s WorkerStop (s\<lparr>y_worker := WExited []\<rparr>)"
| w_closed: "y_lock s = None \<Longrightarrow> y_worker s = WGot i \<Longrightarrow> rn_closed (y_r s) \<Longrightarrow>
    runner_step s StartInst (s\<lparr>y_worker := WExited [i]\<rparr>)"
| w_start: "y_lock s = None \<Longrightarrow> y_worker s = WGot i \<Longrightarrow> \<not> rn_closed (y_r s) \<Longrightarrow>
    runner_step s StartInst (s\<lparr>y_r := (y_r s)\<lparr>rn_wg := rn_wg (y_r s) + 1\<rparr>, y_worker := WRunning i,
      y_started := y_started s @ [i]\<rparr>)"
| w_handler: "y_worker s = WRunning i \<Longrightarrow>
    runner_step s HandlerReturn (s\<lparr>y_worker := WFinish i\<rparr>)"
| w_finish: "y_lock s = None \<Longrightarrow> y_worker s = WFinish i \<Longrightarrow>
    runner_step s FinishInst (s\<lparr>y_r := release (y_r s) i, y_worker := WWgDone i\<rparr>)"
| w_leave: "y_worker s = WWgDone i \<Longrightarrow>
    runner_step s LeaveGroup (s\<lparr>y_r := (y_r s)\<lparr>rn_wg := rn_wg (y_r s) - 1\<rparr>, y_worker := WIdle\<rparr>)"

inductive_simps runner_step_simps:
  "runner_step s (Enq t i) s'" "runner_step s (SlowSend t) s'" "runner_step s (SlowMark t) s'"
  "runner_step s (SlowTimeout t) s'" "runner_step s (SlowStop t) s'" "runner_step s (ReplaySend t i) s'"
  "runner_step s (SendOk t) s'" "runner_step s (SendTimeout t) s'" "runner_step s (OpenReplay t) s'"
  "runner_step s (CloseReplay t) s'" "runner_step s (FlushNext t) s'" "runner_step s (FlushEnd t) s'"
  "runner_step s (ShutBegin t) s'" "runner_step s (ShutStop t) s'" "runner_step s (ShutDone t) s'"
  "runner_step s Recv s'" "runner_step s WorkerStop s'" "runner_step s StartInst s'"
  "runner_step s HandlerReturn s'" "runner_step s FinishInst s'" "runner_step s LeaveGroup s'"

inductive runner_run :: "runner_sys \<Rightarrow> action list \<Rightarrow> runner_sys \<Rightarrow> bool" where
  run_nil: "runner_run s [] s"
| run_cons: "runner_step s a s1 \<Longrightarrow> runner_run s1 as s2 \<Longrightarrow> runner_run s (a # as) s2"

inductive_simps runner_run_simps [simp]:
  "runner_run s [] s'" "runner_run s (a # as) s'"

section \<open>The invariant\<close>

fun active :: "worker_pc \<Rightarrow> inst list" where
  "active (WRunning i) = [i]"
| "active (WFinish i) = [i]"
| "active _ = []"

fun in_hand :: "worker_pc \<Rightarrow> inst list" where
  "in_hand (WGot i) = [i]"
| "in_hand (WExited dropped) = dropped"
| "in_hand _ = []"

fun in_group :: "worker_pc \<Rightarrow> bool" where
  "in_group (WRunning i) \<longleftrightarrow> True"
| "in_group (WFinish i) \<longleftrightarrow> True"
| "in_group (WWgDone i) \<longleftrightarrow> True"
| "in_group _ \<longleftrightarrow> False"

fun sending :: "caller_pc \<Rightarrow> bool" where
  "sending (CSend i k) \<longleftrightarrow> True"
| "sending _ \<longleftrightarrow> False"

fun shutting :: "caller_pc \<Rightarrow> bool" where
  "shutting CShutWait \<longleftrightarrow> True"
| "shutting CShutStop \<longleftrightarrow> True"
| "shutting _ \<longleftrightarrow> False"

fun marking :: "caller_pc \<Rightarrow> bool" where
  "marking (CSlowSent i) \<longleftrightarrow> True"
| "marking (CSend i k) \<longleftrightarrow> True"
| "marking _ \<longleftrightarrow> False"

text \<open>The instances that are queued, held or executed.\<close>

definition pending :: "runner_sys \<Rightarrow> inst list" where
  "pending s = active (y_worker s) @ in_hand (y_worker s) @ rn_in (y_r s)"

definition lock_inv :: "runner_sys \<Rightarrow> bool" where
  "lock_inv s \<longleftrightarrow> (\<forall>t. sending (y_thr s t) \<longleftrightarrow> y_lock s = Some t)"

definition group_inv :: "runner_sys \<Rightarrow> bool" where
  "group_inv s \<longleftrightarrow> rn_wg (y_r s) = (if in_group (y_worker s) then 1 else 0)"

definition close_inv :: "runner_sys \<Rightarrow> bool" where
  "close_inv s \<longleftrightarrow> (\<forall>t. shutting (y_thr s t) \<longrightarrow> rn_closed (y_r s))
     \<and> (rn_stop (y_r s) \<longrightarrow> rn_closed (y_r s) \<and> \<not> in_group (y_worker s))
     \<and> (\<forall>t. y_thr s t = CShutStop \<longrightarrow> rn_stop (y_r s))
     \<and> (rn_done (y_r s) \<longrightarrow> rn_stop (y_r s))"

definition fifo_inv :: "runner_sys \<Rightarrow> bool" where
  "fifo_inv s \<longleftrightarrow> map snd (y_sent s) = y_started s @ in_hand (y_worker s) @ rn_in (y_r s)
     \<and> length (rn_in (y_r s)) \<le> rn_cap (y_r s)
     \<and> (\<forall>i \<in> set (active (y_worker s)). y_started s \<noteq> [] \<and> last (y_started s) = i)"

definition replay_inv :: "runner_sys \<Rightarrow> bool" where
  "replay_inv s \<longleftrightarrow> (rn_replay (y_r s) \<longrightarrow> y_mark s \<le> length (y_sent s) \<and>
     (\<forall>p \<in> set (drop (y_mark s) (y_sent s)). fst p \<noteq> Live))"

definition dedupe_inv :: "runner_sys \<Rightarrow> bool" where
  "dedupe_inv s \<longleftrightarrow> (y_plain s \<longrightarrow>
     distinct (map inst_DedupeKey (pending s)) \<and> set (map inst_DedupeKey (pending s)) = rn_inflight (y_r s)
     \<and> (\<forall>t. \<not> marking (y_thr s t)))"

definition runner_inv :: "runner_sys \<Rightarrow> bool" where
  "runner_inv s \<longleftrightarrow> lock_inv s \<and> group_inv s \<and> close_inv s \<and> fifo_inv s \<and> replay_inv s \<and> dedupe_inv s"

lemma Enqueue_try_cases:
  "Enqueue_try r i =
     (if rn_closed r then (Some (Some ErrClosed), r)
      else if inst_DedupeKey i \<in> rn_inflight r then (Some (Some ErrDuplicate), r)
      else if rn_replay r then (Some None, r\<lparr>rn_buffer := rn_buffer r @ [i]\<rparr>)
      else if length (rn_in r) < rn_cap r
      then (Some None, r\<lparr>rn_inflight := insert (inst_DedupeKey i) (rn_inflight r), rn_in := rn_in r @ [i]\<rparr>)
      else (None, r))"
  by (auto simp: Enqueue_try_def chan_send_def reserve_def release_def)

lemmas runner_ops = Enqueue_try_cases BeginReplay_def EndReplay_take_def chan_send_def reserve_def release_def

lemma after_send_simps [simp]:
  "\<not> sending (after_send k res)" "\<not> marking (after_send k res)" "\<not> shutting (after_send k res)"
  "after_send k res \<noteq> CShutStop" "send_origin k \<noteq> Live" "Live \<noteq> send_origin k"
  by (cases k; simp add: send_origin_def)+

lemma lock_step: "runner_step s a s' \<Longrightarrow> lock_inv s \<Longrightarrow> lock_inv s'"
  by (induction rule: runner_step.induct) (force simp: lock_inv_def split: if_splits)+

lemma group_step: "runner_step s a s' \<Longrightarrow> group_inv s \<Longrightarrow> group_inv s'"
  by (induction rule: runner_step.induct) (auto simp: group_inv_def runner_ops split: if_splits)

lemma close_step: "runner_step s a s' \<Longrightarrow> group_inv s \<Longrightarrow> close_inv s \<Longrightarrow> close_inv s'"
proof (induction rule: runner_step.induct)
  case (shut_stop s t)
  then have "rn_closed (y_r s)" by (auto simp: close_inv_def dest!: spec [of _ t])
  with shut_stop show ?case by (auto simp: close_inv_def group_inv_def split: if_splits)
qed (auto simp: close_inv_def group_inv_def runner_ops split: if_splits)

lemma fifo_step: "runner_step s a s' \<Longrightarrow> fifo_inv s \<Longrightarrow> fifo_inv s'"
  by (induction rule: runner_step.induct) (auto simp: fifo_inv_def runner_ops split: if_splits)

lemma replay_step: "runner_step s a s' \<Longrightarrow> replay_inv s \<Longrightarrow> replay_inv s'"
  by (induction rule: runner_step.induct) (auto simp: replay_inv_def runner_ops split: if_splits)

lemma dedupe_step: "runner_step s a s' \<Longrightarrow> dedupe_inv s \<Longrightarrow> dedupe_inv s'"
proof (induction rule: runner_step.induct)
  case (slow_mark s t i)
  then have "\<not> y_plain s" by (auto simp: dedupe_inv_def dest!: spec [of _ t])
  then show ?case by (simp add: dedupe_inv_def)
next
  case (send_ok s t i k r')
  then have "\<not> y_plain s" by (auto simp: dedupe_inv_def dest!: spec [of _ t])
  then show ?case by (simp add: dedupe_inv_def)
next
  case (send_timeout s t i k)
  then have "\<not> y_plain s" by (auto simp: dedupe_inv_def dest!: spec [of _ t])
  then show ?case by (simp add: dedupe_inv_def)
next
  case (w_finish s i)
  then have "y_plain s \<Longrightarrow> inst_DedupeKey i \<notin> inst_DedupeKey ` set (rn_in (y_r s))"
    by (simp add: dedupe_inv_def pending_def)
  then have "y_plain s \<Longrightarrow> inst_DedupeKey ` set (rn_in (y_r s)) - {inst_DedupeKey i} = inst_DedupeKey ` set (rn_in (y_r s))"
    by (simp add: Diff_triv)
  with w_finish show ?case by (clarsimp simp: dedupe_inv_def pending_def runner_ops) blast
qed (auto simp: dedupe_inv_def pending_def runner_ops split: if_splits)

lemma runner_step_inv: "runner_inv s \<Longrightarrow> runner_step s a s' \<Longrightarrow> runner_inv s'"
  by (simp add: runner_inv_def lock_step group_step close_step fifo_step replay_step dedupe_step)

lemma runner_init_inv: "runner_init s \<Longrightarrow> runner_inv s"
  by (auto simp: runner_init_def runner_start_def NewRunner_def runner_inv_def lock_inv_def group_inv_def
      close_inv_def fifo_inv_def replay_inv_def dedupe_inv_def pending_def)

interpretation rs: state_machine runner_init "\<lambda>s s'. \<exists>a. runner_step s a s'" "\<lambda>n. runner_inv" bound
  for bound :: nat
  by unfold_locales (auto intro: runner_init_inv runner_step_inv)

lemma run_of_run:
  "runner_run s as s' \<Longrightarrow> run_of runner_init (\<lambda>s s'. \<exists>a. runner_step s a s') n s \<Longrightarrow>
   run_of runner_init (\<lambda>s s'. \<exists>a. runner_step s a s') (n + length as) s'"
proof (induction s as s' arbitrary: n rule: runner_run.induct)
  case (run_cons s a s1 as s2)
  from run_cons.IH [of "Suc n"] run_cons.hyps(1) run_cons.prems show ?case
    by (auto intro: run_of.run_step)
qed simp

lemma run_start_inv:
  assumes "runner_run (runner_start cap) as s" and "0 < cap"
  shows "runner_inv s"
proof -
  have "runner_init (runner_start cap)" using assms(2) by (auto simp: runner_init_def)
  then have "run_of runner_init (\<lambda>s s'. \<exists>a. runner_step s a s') 0 (runner_start cap)"
    by (rule run_of.run_init)
  from run_of_run [OF assms(1) this] show ?thesis
    by (simp add: rs.run_inv [OF _ order_refl])
qed

lemma runner_run_append: "runner_run s as s1 \<Longrightarrow> runner_run s1 bs s2 \<Longrightarrow> runner_run s (as @ bs) s2"
  by (induction rule: runner_run.induct) auto

section \<open>What closing keeps\<close>

lemma closed_step:
  "runner_step s a s' \<Longrightarrow> rn_closed (y_r s) \<Longrightarrow> rn_closed (y_r s') \<and> y_started s' = y_started s"
  by (induction rule: runner_step.induct) (auto simp: runner_ops split: if_splits)

lemma closed_run:
  "runner_run s as s' \<Longrightarrow> rn_closed (y_r s) \<Longrightarrow> rn_closed (y_r s') \<and> y_started s' = y_started s"
  by (induction rule: runner_run.induct) (auto dest: closed_step)

text \<open>
  While a replay window stays open, what is sent is not live, except that a caller that waits for room
  in the slow path may send its instance, once; what the locked part of \<open>Enqueue\<close> accepts is buffered,
  in order; and no caller enters the slow path.
\<close>

definition by_path :: "origin \<Rightarrow> (origin \<times> inst) list \<Rightarrow> inst list" where
  "by_path p ps = map snd (filter (\<lambda>x. fst x = p) ps)"

lemma by_path_simps [simp]:
  "by_path p [] = []" "by_path p (ps @ qs) = by_path p ps @ by_path p qs"
  "by_path p ((q, i) # ps) = (if q = p then i # by_path p ps else by_path p ps)"
  by (simp_all add: by_path_def)

definition slow_senders :: "runner_sys \<Rightarrow> inst list \<Rightarrow> runner_sys \<Rightarrow> bool" where
  "slow_senders s insts s' \<longleftrightarrow>
     (\<exists>ts. distinct ts \<and> list_all2 (\<lambda>t i. y_thr s t = CSlow i) ts insts \<and> (\<forall>t \<in> set ts. \<forall>i. y_thr s' t \<noteq> CSlow i))"

definition slow_stays :: "runner_sys \<Rightarrow> runner_sys \<Rightarrow> bool" where
  "slow_stays s s' \<longleftrightarrow> (\<forall>t i. y_thr s' t = CSlow i \<longrightarrow> y_thr s t = CSlow i)
     \<and> (\<forall>t i. y_thr s' t = CSlowSent i \<longrightarrow> y_thr s t \<in> {CSlow i, CSlowSent i})"

definition slow_accepts :: "runner_sys \<Rightarrow> (origin \<times> inst) list \<Rightarrow> bool" where
  "slow_accepts s acc \<longleftrightarrow> (\<forall>p \<in> set acc. fst p = Live \<or> (\<exists>t. y_thr s t \<in> {CSlow (snd p), CSlowSent (snd p)}))"

definition window_grows :: "runner_sys \<Rightarrow> runner_sys \<Rightarrow> bool" where
  "window_grows s s' \<longleftrightarrow> rn_replay (y_r s') \<and> slow_stays s s' \<and>
     (\<exists>later. y_sent s' = y_sent s @ later \<and> by_path Live later = [] \<and> slow_senders s (by_path LiveSlow later) s') \<and>
     (\<exists>acc. y_accepted s' = y_accepted s @ acc \<and> rn_buffer (y_r s') = rn_buffer (y_r s) @ by_path Live acc
        \<and> slow_accepts s acc)"

lemma slow_stays_step: "runner_step s a s' \<Longrightarrow> rn_replay (y_r s) \<Longrightarrow> slow_stays s s'"
proof (induction rule: runner_step.induct)
  case (send_ok s t i k r')
  then show ?case by (cases k) (auto simp: slow_stays_def)
next
  case (send_timeout s t i k)
  then show ?case by (cases k) (auto simp: slow_stays_def)
qed (auto simp: slow_stays_def runner_ops split: if_splits)

lemma slow_senders_none: "slow_senders s [] s'"
  by (simp add: slow_senders_def)

lemma send_origin_live [simp]: "send_origin k \<noteq> LiveSlow"
  by (simp add: send_origin_def split: option.split)

lemma window_step:
  assumes "runner_step s a s'" and "rn_replay (y_r s)" and "\<forall>t. a \<noteq> CloseReplay t"
  shows "window_grows s s'"
proof -
  have "rn_replay (y_r s')
    \<and> (\<exists>later. y_sent s' = y_sent s @ later \<and> by_path Live later = [] \<and> slow_senders s (by_path LiveSlow later) s')
    \<and> (\<exists>acc. y_accepted s' = y_accepted s @ acc \<and> rn_buffer (y_r s') = rn_buffer (y_r s) @ by_path Live acc
        \<and> slow_accepts s acc)"
    using assms
  proof (induction rule: runner_step.induct)
    case (slow_send s t i r')
    then have "slow_senders s [i] (s\<lparr>y_r := r', y_thr := goes s t (CSlowSent i),
      y_sent := y_sent s @ [(LiveSlow, i)], y_plain := False\<rparr>)"
      unfolding slow_senders_def by (intro exI [of _ "[t]"]) simp
    with slow_send show ?case by (auto simp: runner_ops slow_accepts_def split: if_splits)
  next
    case (slow_mark s t i)
    then have "slow_accepts s [(LiveSlow, i)]" by (auto simp: slow_accepts_def intro: exI [of _ t])
    with slow_mark show ?case by (auto simp: runner_ops slow_senders_none)
  qed (auto simp: runner_ops slow_accepts_def slow_senders_none split: if_splits)
  then show ?thesis using slow_stays_step [OF assms(1,2)] by (simp add: window_grows_def)
qed

lemma slow_senders_trans:
  assumes "slow_senders s i1 s1" and "slow_senders s1 i2 s2" and "slow_stays s s1" and "slow_stays s1 s2"
  shows "slow_senders s (i1 @ i2) s2"
proof -
  obtain ts us where ts: "distinct ts" "list_all2 (\<lambda>t i. y_thr s t = CSlow i) ts i1"
      "\<forall>t \<in> set ts. \<forall>i. y_thr s1 t \<noteq> CSlow i"
    and us: "distinct us" "list_all2 (\<lambda>t i. y_thr s1 t = CSlow i) us i2" "\<forall>t \<in> set us. \<forall>i. y_thr s2 t \<noteq> CSlow i"
    using assms(1,2) unfolding slow_senders_def by blast
  have "\<exists>i. y_thr s1 u = CSlow i" if "u \<in> set us" for u
    using us(2) that by (auto simp: list_all2_conv_all_nth in_set_conv_nth)
  then have "set ts \<inter> set us = {}" using ts(3) by blast
  moreover have "list_all2 (\<lambda>t i. y_thr s t = CSlow i) us i2"
    using us(2) assms(3) by (auto simp: slow_stays_def elim: list_all2_mono)
  moreover have "\<forall>t \<in> set ts. \<forall>i. y_thr s2 t \<noteq> CSlow i" using ts(3) assms(4) by (auto simp: slow_stays_def)
  ultimately show ?thesis
    unfolding slow_senders_def using ts us
    by (intro exI [of _ "ts @ us"]) (auto intro: list_all2_appendI)
qed

lemma slow_stays_trans: "slow_stays s s1 \<Longrightarrow> slow_stays s1 s2 \<Longrightarrow> slow_stays s s2"
  unfolding slow_stays_def by (metis (no_types, lifting) insert_iff singletonD)

lemma slow_accepts_trans:
  assumes "slow_accepts s a1" and "slow_accepts s1 a2" and "slow_stays s s1"
  shows "slow_accepts s (a1 @ a2)"
proof -
  have "y_thr s t \<in> {CSlow i, CSlowSent i}" if "y_thr s1 t \<in> {CSlow i, CSlowSent i}" for t i
    using that assms(3) by (auto simp: slow_stays_def)
  then show ?thesis using assms(1,2) unfolding slow_accepts_def by (metis Un_iff set_append)
qed

lemma window_trans:
  assumes "window_grows s s1" and "window_grows s1 s2"
  shows "window_grows s s2"
proof -
  obtain l1 a1 l2 a2 where *:
    "y_sent s1 = y_sent s @ l1" "by_path Live l1 = []" "slow_senders s (by_path LiveSlow l1) s1"
    "y_accepted s1 = y_accepted s @ a1" "rn_buffer (y_r s1) = rn_buffer (y_r s) @ by_path Live a1" "slow_accepts s a1"
    "y_sent s2 = y_sent s1 @ l2" "by_path Live l2 = []" "slow_senders s1 (by_path LiveSlow l2) s2"
    "y_accepted s2 = y_accepted s1 @ a2" "rn_buffer (y_r s2) = rn_buffer (y_r s1) @ by_path Live a2" "slow_accepts s1 a2"
    "slow_stays s s1" "slow_stays s1 s2" "rn_replay (y_r s2)"
    using assms unfolding window_grows_def by blast
  have "slow_stays s s2" using slow_stays_trans [OF *(13,14)] .
  with * slow_senders_trans [OF *(3,9,13,14)] slow_accepts_trans [OF *(6,12,13)] show ?thesis
    by (auto simp: window_grows_def)
qed

lemma window_run:
  "runner_run s as s' \<Longrightarrow> rn_replay (y_r s) \<Longrightarrow> \<forall>t. CloseReplay t \<notin> set as \<Longrightarrow> window_grows s s'"
proof (induction rule: runner_run.induct)
  case (run_cons s a s1 as s2)
  then have w: "window_grows s s1" by (auto intro: window_step)
  then have "rn_replay (y_r s1)" by (simp add: window_grows_def)
  with run_cons have "window_grows s1 s2" by simp
  with w show ?case by (rule window_trans)
qed (simp add: window_grows_def slow_stays_def slow_senders_none slow_accepts_def)

text \<open>A replayed send into a full queue while the worker is on its way to the mutex.\<close>

definition stuck_send :: "runner_sys \<Rightarrow> nat \<Rightarrow> inst \<Rightarrow> bool" where
  "stuck_send s t i \<longleftrightarrow> lock_inv s \<and> (\<exists>k. y_thr s t = CSend i k) \<and> length (rn_in (y_r s)) = rn_cap (y_r s)
     \<and> (\<exists>j. y_worker s = WGot j \<or> y_worker s = WRunning j \<or> y_worker s = WFinish j)"

lemma stuck_step:
  assumes step: "runner_step s a s'" and stuck: "stuck_send s t i" and a: "a \<noteq> SendTimeout t"
  shows "stuck_send s' t i \<and> a \<noteq> SendOk t \<and> a \<noteq> FinishInst"
proof -
  obtain k where k: "y_thr s t = CSend i k" using stuck by (auto simp: stuck_send_def)
  then have lock: "y_lock s = Some t" using stuck by (auto simp: stuck_send_def lock_inv_def dest!: spec [of _ t])
  have inv: "lock_inv s'" using lock_step [OF step] stuck by (simp add: stuck_send_def)
  have shape: "length (rn_in (y_r s)) = rn_cap (y_r s)"
    "\<exists>j. y_worker s = WGot j \<or> y_worker s = WRunning j \<or> y_worker s = WFinish j"
    using stuck by (simp_all add: stuck_send_def)
  show ?thesis
  proof (cases "\<exists>t'. a = SendTimeout t'")
    case True
    then obtain t' i' k' where "a = SendTimeout t'" "y_thr s t' = CSend i' k'"
      using step by (auto simp: runner_step_simps)
    with lock a stuck show ?thesis by (auto simp: stuck_send_def lock_inv_def dest!: spec [of _ t'])
  next
    case False
    with step have "(\<exists>k. y_thr s' t = CSend i k) \<and> length (rn_in (y_r s')) = rn_cap (y_r s') \<and>
      (\<exists>j. y_worker s' = WGot j \<or> y_worker s' = WRunning j \<or> y_worker s' = WFinish j) \<and>
      a \<noteq> SendOk t \<and> a \<noteq> FinishInst"
      using k lock shape by (induction rule: runner_step.induct) (auto simp: runner_ops split: if_splits)
    with inv show ?thesis by (simp add: stuck_send_def)
  qed
qed

lemma stuck_run:
  "runner_run s as s' \<Longrightarrow> stuck_send s t i \<Longrightarrow> SendTimeout t \<notin> set as \<Longrightarrow>
   stuck_send s' t i \<and> SendOk t \<notin> set as \<and> FinishInst \<notin> set as"
  by (induction rule: runner_run.induct) (auto dest: stuck_step)

text \<open>A dedupe key that stays reserved although no instance with it is anywhere in the runner.\<close>

definition has_key :: "string \<Rightarrow> inst list \<Rightarrow> bool" where
  "has_key k is \<longleftrightarrow> k \<in> inst_DedupeKey ` set is"

fun caller_insts :: "caller_pc \<Rightarrow> inst list" where
  "caller_insts (CSlow i) = [i]"
| "caller_insts (CSlowSent i) = [i]"
| "caller_insts (CSend i None) = [i]"
| "caller_insts (CSend i (Some rest)) = i # rest"
| "caller_insts (CFlush is) = is"
| "caller_insts _ = []"

definition key_leaked :: "string \<Rightarrow> runner_sys \<Rightarrow> bool" where
  "key_leaked k s \<longleftrightarrow> k \<in> rn_inflight (y_r s) \<and> \<not> has_key k (pending s) \<and> \<not> has_key k (rn_buffer (y_r s))
     \<and> (\<forall>t. \<not> has_key k (caller_insts (y_thr s t)))"

lemma has_key_simps [simp]:
  "\<not> has_key k []" "has_key k (i # is) \<longleftrightarrow> inst_DedupeKey i = k \<or> has_key k is"
  "has_key k (is @ js) \<longleftrightarrow> has_key k is \<or> has_key k js"
  by (auto simp: has_key_def)

lemma caller_insts_after: "caller_insts (after_send k res) = (case k of None \<Rightarrow> [] | Some rest \<Rightarrow> rest)"
  by (cases k) simp_all

lemma caller_insts_send: "caller_insts (CSend i k) = i # (case k of None \<Rightarrow> [] | Some rest \<Rightarrow> rest)"
  by (cases k) simp_all

lemma leaked_caller: "key_leaked k s \<Longrightarrow> y_thr s t = pc \<Longrightarrow> \<not> has_key k (caller_insts pc)"
  by (auto simp: key_leaked_def)

lemmas leak_simps = key_leaked_def pending_def runner_ops caller_insts_after caller_insts_send

lemma leaked_step:
  "runner_step s a s' \<Longrightarrow> key_leaked k s \<Longrightarrow> \<forall>t i. a = ReplaySend t i \<longrightarrow> inst_DedupeKey i \<noteq> k \<Longrightarrow>
   key_leaked k s'"
proof (induction rule: runner_step.induct)
  case (slow_send s t i r')
  with leaked_caller [OF slow_send.prems(1) slow_send.hyps(1)] show ?case
    by (auto simp: leak_simps split: option.splits if_splits)
next
  case (send_ok s t i c r')
  with leaked_caller [OF send_ok.prems(1) send_ok.hyps(1)] show ?case
    by (auto simp: leak_simps split: option.splits if_splits)
next
  case (send_timeout s t i c)
  with leaked_caller [OF send_timeout.prems(1) send_timeout.hyps(1)] show ?case
    by (auto simp: leak_simps split: option.splits if_splits)
next
  case (flush_next s t i rest)
  with leaked_caller [OF flush_next.prems(1) flush_next.hyps(2)] show ?case
    by (auto simp: leak_simps split: option.splits if_splits)
qed (auto simp: leak_simps split: if_splits)

lemma leaked_run:
  "runner_run s as s' \<Longrightarrow> key_leaked k s \<Longrightarrow> \<forall>t i. ReplaySend t i \<in> set as \<longrightarrow> inst_DedupeKey i \<noteq> k \<Longrightarrow>
   key_leaked k s'"
proof (induction rule: runner_run.induct)
  case (run_cons s a s1 as s2)
  then have "key_leaked k s1" by (auto intro: leaked_step)
  with run_cons show ?case by simp
qed

definition sample_inst :: "string \<Rightarrow> string \<Rightarrow> inst" where
  "sample_inst iid key = \<lparr>inst_ID = iid, inst_TaskID = iid, inst_DedupeKey = key,
     inst_State = InstanceQueued, inst_Attempt = 1, inst_StartedAt = 0, inst_EndedAt = 0\<rparr>"

lemma sample_inst_simps [simp]:
  "inst_DedupeKey (sample_inst a k) = k" "inst_ID (sample_inst a k) = a"
  "sample_inst a k = sample_inst b l \<longleftrightarrow> a = b \<and> k = l"
  by (auto simp: sample_inst_def)

lemmas run_eval = runner_step_simps runner_ops runner_start_def NewRunner_def send_origin_def

lemma leak_run:
  "\<exists>s. runner_run (runner_start 1)
     [Enq 0 (sample_inst ''a'' ''ka''), Enq 1 (sample_inst ''b'' ''kb''), Recv, StartInst,
      SlowSend 1, HandlerReturn, FinishInst, LeaveGroup, Recv, StartInst, HandlerReturn, FinishInst,
      LeaveGroup, SlowMark 1] s
   \<and> key_leaked ''kb'' s \<and> \<not> rn_closed (y_r s) \<and> y_worker s = WIdle \<and> (\<forall>t. y_thr s t = CIdle None)
   \<and> pending s = []"
  by (simp add: run_eval key_leaked_def pending_def)

section \<open>Properties\<close>

text \<open>
  C9: shutdown is safe.  In every state the goroutines of a runner can reach, at most one instance
  is in the wait group; once the slot is released, the runner is closed, the wait group is empty and
  no handler runs; and from the moment the runner is closed no handler is ever started again.
\<close>

theorem shutdown_releases_idle_slot:
  assumes "0 < cap" and "runner_run (runner_start cap) as s"
  shows "rn_wg (y_r s) \<le> 1
    \<and> (rn_done (y_r s) \<longrightarrow> rn_closed (y_r s) \<and> rn_wg (y_r s) = 0 \<and> active (y_worker s) = [])
    \<and> (\<forall>bs s'. rn_closed (y_r s) \<longrightarrow> runner_run s bs s' \<longrightarrow>
          rn_closed (y_r s') \<and> y_started s' = y_started s)"
proof -
  have "runner_inv s" using run_start_inv [OF assms(2,1)] .
  then have "rn_wg (y_r s) = (if in_group (y_worker s) then 1 else 0)"
    "rn_done (y_r s) \<longrightarrow> rn_closed (y_r s) \<and> \<not> in_group (y_worker s)"
    by (auto simp: runner_inv_def group_inv_def close_inv_def)
  moreover have "\<not> in_group w \<Longrightarrow> active w = []" for w by (cases w) auto
  ultimately show ?thesis using closed_run by auto
qed

theorem shutdown_releases_idle_slot_witness:
  "\<exists>s. runner_run (runner_start 1)
      [Enq 0 (sample_inst ''a'' ''k''), Recv, StartInst, ShutBegin 1, HandlerReturn, FinishInst,
       LeaveGroup, ShutStop 1, ShutDone 1] s
    \<and> rn_done (y_r s) \<and> rn_wg (y_r s) = 0 \<and> y_started s = [sample_inst ''a'' ''k'']"
proof -
  let ?as = "[Enq 0 (sample_inst ''a'' ''k''), Recv, StartInst, ShutBegin 1, HandlerReturn, FinishInst,
       LeaveGroup, ShutStop 1, ShutDone 1]"
  obtain s where "runner_run (runner_start 1) ?as s" "rn_done (y_r s)" "y_started s = [sample_inst ''a'' ''k'']"
    by (simp add: run_eval)
  with shutdown_releases_idle_slot [of 1 ?as s] show ?thesis by (intro exI [of _ s]) simp
qed

text \<open>What the worker and the holder of the mutex do until a shutdown is through.\<close>

definition drain_actions :: "nat \<Rightarrow> runner_sys \<Rightarrow> action list" where
  "drain_actions t s =
     (case y_lock s of None \<Rightarrow> [] | Some h \<Rightarrow> [SendTimeout h]) @
     (case y_worker s of
        WRunning i \<Rightarrow> [HandlerReturn, FinishInst, LeaveGroup]
      | WFinish i \<Rightarrow> [FinishInst, LeaveGroup]
      | WWgDone i \<Rightarrow> [LeaveGroup]
      | _ \<Rightarrow> []) @ [ShutStop t, ShutDone t]"

lemma unlock_run:
  assumes "lock_inv s"
  shows "\<exists>s1. runner_run s (case y_lock s of None \<Rightarrow> [] | Some h \<Rightarrow> [SendTimeout h]) s1
    \<and> y_lock s1 = None \<and> y_worker s1 = y_worker s \<and> rn_wg (y_r s1) = rn_wg (y_r s)
    \<and> (\<forall>t. y_thr s t = CShutWait \<longrightarrow> y_thr s1 t = CShutWait)"
proof (cases "y_lock s")
  case (Some h)
  then have "sending (y_thr s h)" using assms by (simp add: lock_inv_def)
  then obtain i k where "y_thr s h = CSend i k" by (cases "y_thr s h") auto
  with Some show ?thesis by (auto simp: runner_step_simps release_def)
qed auto

lemma drain_run:
  assumes "y_lock s = None" and "group_inv s" and "y_thr s t = CShutWait"
  shows "\<exists>s'. runner_run s ((case y_worker s of
        WRunning i \<Rightarrow> [HandlerReturn, FinishInst, LeaveGroup]
      | WFinish i \<Rightarrow> [FinishInst, LeaveGroup]
      | WWgDone i \<Rightarrow> [LeaveGroup]
      | _ \<Rightarrow> []) @ [ShutStop t, ShutDone t]) s' \<and> rn_done (y_r s')"
  using assms
  by (cases "y_worker s") (auto simp: runner_step_simps release_def group_inv_def)

text \<open>
  A shutdown always can finish.  From every reachable state in which a caller waits in
  \<open>Shutdown\<close>, the slot is released within six steps of the worker, of that caller and of the timer
  of a send that holds the mutex; no other call has to make progress.
\<close>

theorem shutdown_can_finish:
  assumes "0 < cap" and "runner_run (runner_start cap) as s" and "y_thr s t = CShutWait"
  shows "\<exists>s'. runner_run s (drain_actions t s) s' \<and> rn_done (y_r s') \<and> length (drain_actions t s) \<le> 6"
proof -
  have inv: "lock_inv s" "group_inv s"
    using run_start_inv [OF assms(2,1)] by (simp_all add: runner_inv_def)
  obtain s1 where s1: "runner_run s (case y_lock s of None \<Rightarrow> [] | Some h \<Rightarrow> [SendTimeout h]) s1"
    "y_lock s1 = None" "y_worker s1 = y_worker s" "rn_wg (y_r s1) = rn_wg (y_r s)" "y_thr s1 t = CShutWait"
    using unlock_run [OF inv(1)] assms(3) by blast
  then have "group_inv s1" using inv(2) by (simp add: group_inv_def)
  from drain_run [OF s1(2) this s1(5)] s1(1,3) runner_run_append
  have "\<exists>s'. runner_run s (drain_actions t s) s' \<and> rn_done (y_r s')"
    unfolding drain_actions_def by fastforce
  moreover have "length (drain_actions t s) \<le> 6"
    by (simp add: drain_actions_def split: option.split worker_pc.split)
  ultimately show ?thesis by blast
qed

theorem shutdown_can_finish_witness:
  "\<exists>s s'. runner_run (runner_start 1)
      [Enq 0 (sample_inst ''a'' ''k''), Recv, StartInst, ShutBegin 1] s
    \<and> runner_run s [HandlerReturn, FinishInst, LeaveGroup, ShutStop 1, ShutDone 1] s' \<and> rn_done (y_r s')"
proof -
  let ?as = "[Enq 0 (sample_inst ''a'' ''k''), Recv, StartInst, ShutBegin 1]"
  obtain s where s: "runner_run (runner_start 1) ?as s" "y_thr s 1 = CShutWait"
    "drain_actions 1 s = [HandlerReturn, FinishInst, LeaveGroup, ShutStop 1, ShutDone 1]"
    by (simp add: run_eval drain_actions_def)
  with shutdown_can_finish [of 1 ?as s 1] show ?thesis by force
qed

text \<open>
  C10: instances are executed in the order they were sent, each at most once.  In every reachable
  state the handler was started on a prefix of the instances sent on the channel, what follows is
  the one the worker holds and then the queue, which never exceeds its capacity; and a handler that
  runs was started last.
\<close>

theorem runner_executes_in_order:
  assumes "0 < cap" and "runner_run (runner_start cap) as s"
  shows "map snd (y_sent s) = y_started s @ in_hand (y_worker s) @ rn_in (y_r s)
    \<and> length (rn_in (y_r s)) \<le> rn_cap (y_r s)
    \<and> (\<forall>i. active (y_worker s) = [i] \<longrightarrow> y_started s \<noteq> [] \<and> last (y_started s) = i)"
  using run_start_inv [OF assms(2,1)] by (auto simp: runner_inv_def fifo_inv_def)

theorem runner_executes_in_order_witness:
  "\<exists>s. runner_run (runner_start 2)
      [Enq 0 (sample_inst ''a'' ''k''), Enq 1 (sample_inst ''b'' ''l''), Recv, StartInst] s
    \<and> map snd (y_sent s) = y_started s @ [sample_inst ''b'' ''l'']"
proof -
  let ?as = "[Enq 0 (sample_inst ''a'' ''k''), Enq 1 (sample_inst ''b'' ''l''), Recv, StartInst]"
  obtain s where "runner_run (runner_start 2) ?as s" "in_hand (y_worker s) @ rn_in (y_r s) = [sample_inst ''b'' ''l'']"
    by (simp add: run_eval)
  with runner_executes_in_order [of 2 ?as s] show ?thesis by (intro exI [of _ s]) simp
qed

text \<open>
  C26: on the fast path no dedupe key is in flight twice.  As long as no instance was replayed,
  flushed or sent by the slow path, the keys of the instances queued, held and executed are
  distinct, they are exactly the reserved ones, and an enqueue is refused as a duplicate exactly if
  the runner is open and its key is one of them; a closed runner refuses every enqueue as closed.
\<close>

theorem fast_path_dedupes:
  assumes "0 < cap" and "runner_run (runner_start cap) as s" and "y_plain s"
  shows "distinct (map inst_DedupeKey (pending s))
    \<and> rn_inflight (y_r s) = inst_DedupeKey ` set (pending s)
    \<and> (fst (Enqueue_try (y_r s) i) = Some (Some ErrDuplicate) \<longleftrightarrow>
        \<not> rn_closed (y_r s) \<and> (\<exists>j \<in> set (pending s). inst_DedupeKey j = inst_DedupeKey i))
    \<and> (fst (Enqueue_try (y_r s) i) = Some (Some ErrClosed) \<longleftrightarrow> rn_closed (y_r s))"
proof -
  have *: "distinct (map inst_DedupeKey (pending s))" "rn_inflight (y_r s) = inst_DedupeKey ` set (pending s)"
    using run_start_inv [OF assms(2,1)] assms(3) by (simp_all add: runner_inv_def dedupe_inv_def)
  then show ?thesis by (auto simp: Enqueue_try_cases intro: rev_image_eqI)
qed

theorem fast_path_dedupes_witness:
  "\<exists>s. runner_run (runner_start 2) [Enq 0 (sample_inst ''a'' ''k''), Recv, StartInst] s
    \<and> fst (Enqueue_try (y_r s) (sample_inst ''b'' ''k'')) = Some (Some ErrDuplicate)
    \<and> fst (Enqueue_try (y_r s) (sample_inst ''b'' ''l'')) \<noteq> Some (Some ErrDuplicate)"
proof -
  let ?as = "[Enq 0 (sample_inst ''a'' ''k''), Recv, StartInst]"
  obtain s where "runner_run (runner_start 2) ?as s" "y_plain s" "\<not> rn_closed (y_r s)"
    "pending s = [sample_inst ''a'' ''k'']"
    by (simp add: run_eval pending_def)
  with fast_path_dedupes [of 2 ?as s "sample_inst ''b'' ''k''"] fast_path_dedupes [of 2 ?as s "sample_inst ''b'' ''l''"]
  show ?thesis by (intro exI [of _ s]) simp
qed

text \<open>
  C27: live instances go behind the replayed ones, except those that were already waiting for room.
  From the step that opens a replay window until one closes it, whatever the callers and the worker
  do: the fast path of \<open>Enqueue\<close> sends nothing; the slow path sends at most what callers were waiting
  with when the window opened, each of them once; the buffer is exactly the list of the instances
  that \<open>Enqueue\<close> has accepted since, in the order it accepted them, but for the ones of such callers
  (or of callers that had just sent), which are not buffered; so when no caller was in the slow path,
  it is all of them, and nothing but replayed instances and the flush of an earlier window is sent.
  Closing the window sends nothing and leaves the closing caller with the buffer to flush.
\<close>

theorem replay_precedes_live:
  assumes "runner_step s (OpenReplay t) s1" and "y_thr s1 t = CIdle None"
    and "runner_run s1 as s2" and "\<forall>t. CloseReplay t \<notin> set as"
  shows "(\<exists>sent acc ts. y_sent s2 = y_sent s @ sent \<and> y_accepted s2 = y_accepted s @ acc
      \<and> by_path Live sent = []
      \<and> distinct ts \<and> list_all2 (\<lambda>t i. y_thr s1 t = CSlow i) ts (by_path LiveSlow sent)
      \<and> rn_buffer (y_r s2) = by_path Live acc
      \<and> (\<forall>p \<in> set acc. fst p = Live \<or> (\<exists>t. y_thr s1 t \<in> {CSlow (snd p), CSlowSent (snd p)}))
      \<and> ((\<forall>t i. y_thr s1 t \<noteq> CSlow i \<and> y_thr s1 t \<noteq> CSlowSent i) \<longrightarrow>
            rn_buffer (y_r s2) = map snd acc \<and> fst ` set sent \<subseteq> {Replayed, Flushed}))
    \<and> (\<forall>t' s3. runner_step s2 (CloseReplay t') s3 \<longrightarrow>
          y_thr s3 t' = CFlush (rn_buffer (y_r s2)) \<and> \<not> rn_replay (y_r s3) \<and> y_sent s3 = y_sent s2)"
proof -
  have open1: "rn_replay (y_r s1)" "rn_buffer (y_r s1) = []" "y_sent s1 = y_sent s" "y_accepted s1 = y_accepted s"
    using assms(1,2) by (auto simp: runner_step_simps BeginReplay_def split: if_splits)
  have "window_grows s1 s2" using assms(3,4) open1(1) by (intro window_run)
  then obtain sent acc ts where *: "y_sent s2 = y_sent s @ sent" "by_path Live sent = []"
      "distinct ts" "list_all2 (\<lambda>t i. y_thr s1 t = CSlow i) ts (by_path LiveSlow sent)"
      "y_accepted s2 = y_accepted s @ acc" "rn_buffer (y_r s2) = by_path Live acc" "slow_accepts s1 acc"
    using open1 by (auto simp: window_grows_def slow_senders_def)
  have "rn_buffer (y_r s2) = map snd acc \<and> fst ` set sent \<subseteq> {Replayed, Flushed}"
    if none: "\<forall>t i. y_thr s1 t \<noteq> CSlow i \<and> y_thr s1 t \<noteq> CSlowSent i"
  proof
    have "\<forall>p \<in> set acc. fst p = Live" using *(7) none by (auto simp: slow_accepts_def)
    then show "rn_buffer (y_r s2) = map snd acc" by (simp add: *(6) by_path_def)
    have "ts = []" using *(4) none by (cases ts) (auto simp: list_all2_Cons1)
    then have "by_path LiveSlow sent = []" using *(4) by simp
    then have "\<forall>p \<in> set sent. fst p \<notin> {Live, LiveSlow}"
      using *(2) by (auto simp: by_path_def filter_empty_conv)
    moreover have "p \<in> {Replayed, Flushed}" if "p \<notin> {Live, LiveSlow}" for p using that by (cases p) auto
    ultimately show "fst ` set sent \<subseteq> {Replayed, Flushed}" by blast
  qed
  moreover have "\<forall>t' s3. runner_step s2 (CloseReplay t') s3 \<longrightarrow>
          y_thr s3 t' = CFlush (rn_buffer (y_r s2)) \<and> \<not> rn_replay (y_r s3) \<and> y_sent s3 = y_sent s2"
    by (auto simp: runner_step_simps EndReplay_take_def)
  ultimately show ?thesis using * unfolding slow_accepts_def by blast
qed

theorem replay_precedes_live_witness:
  "\<exists>s1 s2. runner_step (runner_start 2) (OpenReplay 0) s1
    \<and> runner_run s1 [Enq 1 (sample_inst ''live'' ''l''), ReplaySend 0 (sample_inst ''missed'' ''m''), SendOk 0] s2
    \<and> y_sent s2 = [(Replayed, sample_inst ''missed'' ''m'')] \<and> rn_buffer (y_r s2) = [sample_inst ''live'' ''l'']"
proof -
  let ?as = "[Enq 1 (sample_inst ''live'' ''l''), ReplaySend 0 (sample_inst ''missed'' ''m''), SendOk 0]"
  let ?s1 = "(runner_start 2)\<lparr>y_r := (NewRunner 2)\<lparr>rn_replay := True\<rparr>,
      y_thr := goes (runner_start 2) 0 (CIdle None)\<rparr>"
  have open1: "runner_step (runner_start 2) (OpenReplay 0) ?s1" "y_thr ?s1 0 = CIdle None"
    by (simp_all add: run_eval)
  obtain s2 where *: "runner_run ?s1 ?as s2" "y_sent s2 = [(Replayed, sample_inst ''missed'' ''m'')]"
    "y_accepted s2 = [(Live, sample_inst ''live'' ''l'')]" "y_accepted (runner_start 2) = []"
    by (simp add: run_eval)
  have "\<forall>t. CloseReplay t \<notin> set ?as" by simp
  from replay_precedes_live [OF open1 *(1) this] obtain acc where
    "y_accepted s2 = y_accepted (runner_start 2) @ acc" "rn_buffer (y_r s2) = by_path Live acc" by blast
  moreover from this have "acc = [(Live, sample_inst ''live'' ''l'')]" using *(3,4) by simp
  ultimately have "rn_buffer (y_r s2) = [sample_inst ''live'' ''l'']" by simp
  with * open1(1) show ?thesis by blast
qed

text \<open>
  The slow path can reserve a dedupe key for ever.  A sender that waited for room marks its key
  only after the send; if the worker has executed the instance by then, the key stays reserved in
  an empty runner, and whatever happens afterwards, short of replaying an instance with that very
  key, every later enqueue of the key is refused (as a duplicate, or because the runner is closed).
\<close>

theorem slow_path_leaks_key:
  "\<exists>as s k. runner_run (runner_start 1) as s \<and> pending s = [] \<and> \<not> rn_closed (y_r s)
    \<and> (\<forall>t. y_thr s t = CIdle None)
    \<and> (\<forall>bs s' i. runner_run s bs s' \<longrightarrow> (\<forall>t j. ReplaySend t j \<in> set bs \<longrightarrow> inst_DedupeKey j \<noteq> k) \<longrightarrow>
        inst_DedupeKey i = k \<longrightarrow>
        Enqueue_try (y_r s') i = (Some (Some (if rn_closed (y_r s') then ErrClosed else ErrDuplicate)), y_r s'))"
proof -
  obtain as s where s: "runner_run (runner_start 1) as s" "key_leaked ''kb'' s" "\<not> rn_closed (y_r s)"
    "y_worker s = WIdle" "\<forall>t. y_thr s t = CIdle None" "pending s = []"
    using leak_run by blast
  have "Enqueue_try (y_r s') i = (Some (Some (if rn_closed (y_r s') then ErrClosed else ErrDuplicate)), y_r s')"
    if "runner_run s bs s'" "\<forall>t j. ReplaySend t j \<in> set bs \<longrightarrow> inst_DedupeKey j \<noteq> ''kb''"
      "inst_DedupeKey i = ''kb''" for bs s' i
    using leaked_run [OF that(1) s(2) that(2)] that(3) by (simp add: Enqueue_try_cases key_leaked_def)
  with s(1,3,5,6) show ?thesis by blast
qed

theorem slow_path_leaks_key_witness:
  "\<exists>s k. pending s = [] \<and> \<not> rn_closed (y_r s)
    \<and> fst (Enqueue_try (y_r s) (sample_inst ''again'' k)) = Some (Some ErrDuplicate)"
proof -
  from slow_path_leaks_key obtain s k where s: "pending s = []" "\<not> rn_closed (y_r s)"
    and all: "\<forall>bs s' i. runner_run s bs s' \<longrightarrow>
        (\<forall>t j. ReplaySend t j \<in> set bs \<longrightarrow> inst_DedupeKey j \<noteq> k) \<longrightarrow> inst_DedupeKey i = k \<longrightarrow>
        Enqueue_try (y_r s') i = (Some (Some (if rn_closed (y_r s') then ErrClosed else ErrDuplicate)), y_r s')"
    by auto
  from all [rule_format, of "[]" s "sample_inst ''again'' k"] s show ?thesis
    by (intro exI [of _ s] exI [of _ k]) simp
qed

text \<open>
  A replayed or flushed send into a full queue deadlocks with the worker until its timer fires.
  The sender keeps the mutex while it waits for room, and a worker that is anywhere between taking
  an instance and its end needs the mutex before it can take another one: in every run in which the
  timer does not fire, the send does not succeed and the worker does not finish its instance.
\<close>

theorem full_queue_blocks_replay:
  assumes "0 < cap" and "runner_run (runner_start cap) as s" and "y_thr s t = CSend i k"
    and "length (rn_in (y_r s)) = rn_cap (y_r s)"
    and "y_worker s \<in> {WGot j, WRunning j, WFinish j}"
    and "runner_run s bs s'" and "SendTimeout t \<notin> set bs"
  shows "SendOk t \<notin> set bs \<and> FinishInst \<notin> set bs
    \<and> length (rn_in (y_r s')) = rn_cap (y_r s') \<and> (\<exists>k. y_thr s' t = CSend i k)"
proof -
  have "lock_inv s" using run_start_inv [OF assms(2,1)] by (simp add: runner_inv_def)
  then have "stuck_send s t i" using assms(3-5) by (auto simp: stuck_send_def)
  from stuck_run [OF assms(6) this assms(7)] show ?thesis by (simp add: stuck_send_def)
qed

theorem full_queue_blocks_replay_witness:
  "\<exists>s s'. runner_run (runner_start 1)
      [Enq 0 (sample_inst ''a'' ''ka''), Recv, StartInst, Enq 1 (sample_inst ''b'' ''kb''),
       ReplaySend 2 (sample_inst ''c'' ''kc'')] s
    \<and> runner_run s [HandlerReturn] s' \<and> length (rn_in (y_r s')) = rn_cap (y_r s')"
proof -
  let ?as = "[Enq 0 (sample_inst ''a'' ''ka''), Recv, StartInst, Enq 1 (sample_inst ''b'' ''kb''),
       ReplaySend 2 (sample_inst ''c'' ''kc'')]"
  obtain s s' where "runner_run (runner_start 1) ?as s" "y_thr s 2 = CSend (sample_inst ''c'' ''kc'') None"
    "length (rn_in (y_r s)) = rn_cap (y_r s)" "y_worker s = WRunning (sample_inst ''a'' ''ka'')"
    "runner_run s [HandlerReturn] s'"
    by (simp add: run_eval)
  with full_queue_blocks_replay [of 1 ?as s 2 "sample_inst ''c'' ''kc''" None "sample_inst ''a'' ''ka''" "[HandlerReturn]" s']
  show ?thesis by (intro exI [of _ s] exI [of _ s']) simp
qed

text \<open>
  Outside the fast path the order and the dedupe of a runner can be lost.  In one run a live
  instance waiting in the slow path is sent into an open replay window before the replayed one; in
  another, two live instances with the same dedupe key are accepted while a window is open, and the
  handler is started on both; in a third, an enqueue that waited in the slow path returns success
  although the runner is already released, where (by the first property) it is never executed.
\<close>

theorem slow_and_replay_paths_weaker:
  "(\<exists>as s a b c. runner_run (runner_start 1) as s \<and> rn_replay (y_r s) \<and> y_mark s = 1
      \<and> y_sent s = [(Live, a), (LiveSlow, b), (Replayed, c)])
   \<and> (\<exists>as s a b. runner_run (runner_start 2) as s \<and> y_started s = [a, b] \<and> a \<noteq> b
      \<and> inst_DedupeKey a = inst_DedupeKey b \<and> y_accepted s = [(Live, a), (Live, b)] \<and> y_sent s = [(Flushed, a), (Flushed, b)])
   \<and> (\<exists>as s b. runner_run (runner_start 1) as s \<and> rn_done (y_r s) \<and> y_worker s = WExited []
      \<and> y_thr s 1 = CIdle None \<and> (LiveSlow, b) \<in> set (y_sent s) \<and> b \<notin> set (y_started s))"
proof (intro conjI)
  let ?a = "sample_inst ''a'' ''ka''" and ?b = "sample_inst ''b'' ''kb''" and ?c = "sample_inst ''c'' ''kc''"
  let ?as = "[Enq 0 ?a, Enq 1 ?b, OpenReplay 2, Recv, SlowSend 1, StartInst, HandlerReturn, FinishInst,
      LeaveGroup, Recv, ReplaySend 2 ?c, SendOk 2]"
  have "\<exists>s. runner_run (runner_start 1) ?as s \<and> rn_replay (y_r s) \<and> y_mark s = 1
      \<and> y_sent s = [(Live, ?a), (LiveSlow, ?b), (Replayed, ?c)]"
    by (simp add: run_eval)
  then show "\<exists>as s a b c. runner_run (runner_start 1) as s \<and> rn_replay (y_r s) \<and> y_mark s = 1
      \<and> y_sent s = [(Live, a), (LiveSlow, b), (Replayed, c)]"
    by blast
next
  let ?a = "sample_inst ''a'' ''k''" and ?b = "sample_inst ''b'' ''k''"
  let ?as = "[OpenReplay 0, Enq 1 ?a, Enq 2 ?b, CloseReplay 0, FlushNext 0, SendOk 0, FlushNext 0, SendOk 0,
      Recv, StartInst, HandlerReturn, FinishInst, LeaveGroup, Recv, StartInst]"
  have "\<exists>s. runner_run (runner_start 2) ?as s \<and> y_started s = [?a, ?b] \<and> y_accepted s = [(Live, ?a), (Live, ?b)]
      \<and> y_sent s = [(Flushed, ?a), (Flushed, ?b)]"
    by (simp add: run_eval)
  moreover have "?a \<noteq> ?b \<and> inst_DedupeKey ?a = inst_DedupeKey ?b" by simp
  ultimately show "\<exists>as s a b. runner_run (runner_start 2) as s \<and> y_started s = [a, b] \<and> a \<noteq> b
      \<and> inst_DedupeKey a = inst_DedupeKey b \<and> y_accepted s = [(Live, a), (Live, b)] \<and> y_sent s = [(Flushed, a), (Flushed, b)]"
    by blast
next
  let ?a = "sample_inst ''a'' ''ka''" and ?b = "sample_inst ''b'' ''kb''" and ?c = "sample_inst ''c'' ''kc''"
  let ?as = "[Enq 0 ?a, Enq 1 ?b, Recv, StartInst, ShutBegin 2, HandlerReturn, FinishInst, LeaveGroup,
      ShutStop 2, ShutDone 2, WorkerStop, SlowSend 1, SlowMark 1]"
  have "\<exists>s. runner_run (runner_start 1) ?as s \<and> rn_done (y_r s) \<and> y_worker s = WExited []
      \<and> y_thr s 1 = CIdle None \<and> y_sent s = [(Live, ?a), (LiveSlow, ?b)] \<and> y_started s = [?a]"
    by (simp add: run_eval)
  moreover have "(LiveSlow, ?b) \<in> set [(Live, ?a), (LiveSlow, ?b)] \<and> ?b \<notin> set [?a]" by simp
  ultimately show "\<exists>as s b. runner_run (runner_start 1) as s \<and> rn_done (y_r s) \<and> y_worker s = WExited []
      \<and> y_thr s 1 = CIdle None \<and> (LiveSlow, b) \<in> set (y_sent s) \<and> b \<notin> set (y_started s)"
    by metis
qed

end
