(* ===== verification/Runner_Progress.thy ===== *)
theory Runner_Progress
  imports Runner
begin

text \<open>
  The worker of a runner (\<open>run\<close> and \<open>execute\<close> in \<open>internal/exec/runner.go\<close>) is never stuck while the
  runner is open: what it holds and what is queued can always be executed by its own steps.
\<close>

section \<open>The worker of an open runner has not returned\<close>

fun exited :: "worker_pc \<Rightarrow> bool" where
  "exited (WExited dropped) \<longleftrightarrow> True"
| "exited _ \<longleftrightarrow> False"

definition exit_inv :: "runner_sys \<Rightarrow> bool" where
  "exit_inv s \<longleftrightarrow> (exited (y_worker s) \<longrightarrow> rn_closed (y_r s))"

lemma exit_step: "runner_step s a s' \<Longrightarrow> close_inv s \<Longrightarrow> exit_inv s \<Longrightarrow> exit_inv s'"
proof (induction rule: runner_step.induct)
  case (w_stop s)
  then show ?case by (simp add: exit_inv_def close_inv_def)
qed (auto simp: exit_inv_def runner_ops split: if_splits)

lemma exit_run: "runner_run s as s' \<Longrightarrow> runner_inv s \<Longrightarrow> exit_inv s \<Longrightarrow> exit_inv s'"
proof (induction rule: runner_run.induct)
  case (run_cons s a s1 as s2)
  have "runner_inv s1" using runner_step_inv [OF run_cons.prems(1) run_cons.hyps(1)] .
  moreover have "exit_inv s1"
    using exit_step [OF run_cons.hyps(1)] run_cons.prems by (simp add: runner_inv_def)
  ultimately show ?case by (rule run_cons.IH)
qed

lemma exit_start: "exit_inv (runner_start cap)"
  by (simp add: exit_inv_def runner_start_def)

section \<open>Steps of the worker\<close>

text \<open>From where the worker is to its next \<open>select\<close>, and one round from there.\<close>

fun finish_actions :: "worker_pc \<Rightarrow> action list" where
  "finish_actions (WGot i) = [StartInst, HandlerReturn, FinishInst, LeaveGroup]"
| "finish_actions (WRunning i) = [HandlerReturn, FinishInst, LeaveGroup]"
| "finish_actions (WFinish i) = [FinishInst, LeaveGroup]"
| "finish_actions (WWgDone i) = [LeaveGroup]"
| "finish_actions _ = []"

definition round_actions :: "action list" where
  "round_actions = [Recv, StartInst, HandlerReturn, FinishInst, LeaveGroup]"

definition work_actions :: "runner_sys \<Rightarrow> action list" where
  "work_actions s = (case y_lock s of None \<Rightarrow> [] | Some h \<Rightarrow> [SendTimeout h]) @
     finish_actions (y_worker s) @ concat (replicate (length (rn_in (y_r s))) round_actions)"

text \<open>The worker waits for the next instance of an open runner whose mutex is free.\<close>

definition at_rest :: "runner_sys \<Rightarrow> inst list \<Rightarrow> inst list \<Rightarrow> bool" where
  "at_rest s queued started \<longleftrightarrow> y_lock s = None \<and> y_worker s = WIdle \<and> \<not> rn_closed (y_r s) \<and>
     rn_in (y_r s) = queued \<and> y_started s = started"

lemma free_lock:
  assumes "lock_inv s"
  shows "\<exists>s1. runner_run s (case y_lock s of None \<Rightarrow> [] | Some h \<Rightarrow> [SendTimeout h]) s1 \<and> y_lock s1 = None
    \<and> y_worker s1 = y_worker s \<and> rn_closed (y_r s1) = rn_closed (y_r s) \<and> rn_in (y_r s1) = rn_in (y_r s)
    \<and> y_started s1 = y_started s"
proof (cases "y_lock s")
  case (Some h)
  then have "sending (y_thr s h)" using assms by (simp add: lock_inv_def)
  then obtain i k where "y_thr s h = CSend i k" by (cases "y_thr s h") auto
  with Some show ?thesis by (auto simp: runner_step_simps release_def)
qed auto

lemma finish_run:
  assumes "y_lock s = None" and "\<not> rn_closed (y_r s)" and "exit_inv s"
  shows "\<exists>s'. runner_run s (finish_actions (y_worker s)) s'
    \<and> at_rest s' (rn_in (y_r s)) (y_started s @ in_hand (y_worker s))"
  using assms
  by (cases "y_worker s") (auto simp: runner_step_simps release_def at_rest_def exit_inv_def)

lemma rounds_run:
  "at_rest s (is @ rest) started \<Longrightarrow>
   \<exists>s'. runner_run s (concat (replicate (length is) round_actions)) s' \<and> at_rest s' rest (started @ is)"
proof (induction "is" arbitrary: s started)
  case Nil
  then show ?case by auto
next
  case (Cons i "is")
  then have "\<exists>s1. runner_run s round_actions s1 \<and> at_rest s1 (is @ rest) (started @ [i])"
    by (auto simp: round_actions_def at_rest_def runner_step_simps release_def)
  then obtain s1 where s1: "runner_run s round_actions s1" "at_rest s1 (is @ rest) (started @ [i])" by blast
  from Cons.IH [OF s1(2)] obtain s' where "runner_run s1 (concat (replicate (length is) round_actions)) s'"
    "at_rest s' rest (started @ i # is)" by auto
  then show ?case using runner_run_append [OF s1(1)] by auto
qed

section \<open>Properties\<close>

text \<open>
  An open runner can always execute what it has accepted on the channel.  From every reachable
  state in which the runner is not closed, the timer of a send that holds the mutex (if one does)
  and then steps of the worker alone, at most five for each queued instance and five more, start
  the handler on the instance the worker holds and on all queued ones, in their order, and leave
  the queue empty and the worker waiting for the next instance.
\<close>

theorem queue_can_be_executed:
  assumes "0 < cap" and "runner_run (runner_start cap) as s" and "\<not> rn_closed (y_r s)"
  shows "\<exists>s'. runner_run s (work_actions s) s'
    \<and> y_started s' = y_started s @ in_hand (y_worker s) @ rn_in (y_r s)
    \<and> rn_in (y_r s') = [] \<and> y_worker s' = WIdle
    \<and> length (work_actions s) \<le> 5 * (length (rn_in (y_r s)) + 1)"
proof -
  have init: "runner_inv (runner_start cap)" by (rule run_start_inv [OF run_nil assms(1)])
  have inv: "lock_inv s" "exit_inv s"
    using run_start_inv [OF assms(2,1)] exit_run [OF assms(2) init exit_start] by (simp_all add: runner_inv_def)
  obtain s1 where s1: "runner_run s (case y_lock s of None \<Rightarrow> [] | Some h \<Rightarrow> [SendTimeout h]) s1"
    "y_lock s1 = None" "y_worker s1 = y_worker s" "\<not> rn_closed (y_r s1)" "rn_in (y_r s1) = rn_in (y_r s)"
    "y_started s1 = y_started s"
    using free_lock [OF inv(1)] assms(3) by auto
  then have "exit_inv s1" using inv(2) assms(3) by (simp add: exit_inv_def)
  from finish_run [OF s1(2,4) this] s1 obtain s2 where s2: "runner_run s1 (finish_actions (y_worker s)) s2"
    "at_rest s2 (rn_in (y_r s) @ []) (y_started s @ in_hand (y_worker s))" by auto
  from rounds_run [OF s2(2)] obtain s3 where
    s3: "runner_run s2 (concat (replicate (length (rn_in (y_r s))) round_actions)) s3"
    "at_rest s3 [] (y_started s @ in_hand (y_worker s) @ rn_in (y_r s))" by auto
  have "runner_run s (work_actions s) s3"
    unfolding work_actions_def using runner_run_append [OF s1(1) runner_run_append [OF s2(1) s3(1)]] by simp
  moreover have "length (concat (replicate n round_actions)) = 5 * n" for n
    by (induction n) (simp_all add: round_actions_def)
  then have "length (work_actions s) \<le> 5 * (length (rn_in (y_r s)) + 1)"
    by (cases "y_worker s") (simp_all add: work_actions_def split: option.split)
  ultimately show ?thesis using s3(2) by (auto simp: at_rest_def)
qed

theorem queue_can_be_executed_witness:
  "\<exists>s s'. runner_run (runner_start 2)
      [Enq 0 (sample_inst ''a'' ''k''), Enq 1 (sample_inst ''b'' ''l''), Recv] s
    \<and> runner_run s (work_actions s) s'
    \<and> y_started s' = [sample_inst ''a'' ''k'', sample_inst ''b'' ''l'']"
proof -
  let ?as = "[Enq 0 (sample_inst ''a'' ''k''), Enq 1 (sample_inst ''b'' ''l''), Recv]"
  obtain s where "runner_run (runner_start 2) ?as s" "\<not> rn_closed (y_r s)"
    "y_started s @ in_hand (y_worker s) @ rn_in (y_r s) = [sample_inst ''a'' ''k'', sample_inst ''b'' ''l'']"
    by (simp add: run_eval)
  with queue_can_be_executed [of 2 ?as s] show ?thesis by force
qed

end
