(* ===== verification/Runner_Calls.thy ===== *)
theory Runner_Calls
  imports Runner_Progress
begin

text \<open>
  The two readings of \<open>internal/exec/runner.go\<close> agree: what the functions of \<open>Runner\<close> compute for a
  whole call (\<open>Runner_Enqueue\<close>, \<open>ReplayWrite\<close>, \<open>Shutdown\<close>, and a turn of the worker), which the other
  theories use, is what a run of the goroutines does.
\<close>

section \<open>Calls and waits as runs\<close>

text \<open>The caller whose step an action is, and whether it is the first step of one of its calls.\<close>

fun caller_of :: "action \<Rightarrow> nat option" where
  "caller_of (Enq t i) = Some t"
| "caller_of (SlowSend t) = Some t"
| "caller_of (SlowMark t) = Some t"
| "caller_of (SlowTimeout t) = Some t"
| "caller_of (SlowStop t) = Some t"
| "caller_of (ReplaySend t i) = Some t"
| "caller_of (SendOk t) = Some t"
| "caller_of (SendTimeout t) = Some t"
| "caller_of (OpenReplay t) = Some t"
| "caller_of (CloseReplay t) = Some t"
| "caller_of (FlushNext t) = Some t"
| "caller_of (FlushEnd t) = Some t"
| "caller_of (ShutBegin t) = Some t"
| "caller_of (ShutStop t) = Some t"
| "caller_of (ShutDone t) = Some t"
| "caller_of _ = None"

fun starts_call :: "action \<Rightarrow> bool" where
  "starts_call (Enq t i) \<longleftrightarrow> True"
| "starts_call (ReplaySend t i) \<longleftrightarrow> True"
| "starts_call (OpenReplay t) \<longleftrightarrow> True"
| "starts_call (CloseReplay t) \<longleftrightarrow> True"
| "starts_call (ShutBegin t) \<longleftrightarrow> True"
| "starts_call _ \<longleftrightarrow> False"

text \<open>A run of the other goroutines, and a run in which \<open>t\<close> goes on with its call and starts no other.\<close>

definition others_run :: "nat \<Rightarrow> runner_sys \<Rightarrow> action list \<Rightarrow> runner_sys \<Rightarrow> bool" where
  "others_run t s as s' \<longleftrightarrow> runner_run s as s' \<and> (\<forall>a \<in> set as. caller_of a \<noteq> Some t)"

definition goes_on :: "nat \<Rightarrow> runner_sys \<Rightarrow> action list \<Rightarrow> runner_sys \<Rightarrow> bool" where
  "goes_on t s as s' \<longleftrightarrow> runner_run s as s' \<and> (\<forall>a \<in> set as. caller_of a = Some t \<longrightarrow> \<not> starts_call a)"

text \<open>The run of one call of \<open>t\<close>: its first step, then the others and the rest of the call.\<close>

definition call_run :: "nat \<Rightarrow> runner_sys \<Rightarrow> action \<Rightarrow> action list \<Rightarrow> runner_sys \<Rightarrow> bool" where
  "call_run t s a as s' \<longleftrightarrow> caller_of a = Some t \<and> starts_call a \<and> (\<exists>s1. runner_step s a s1 \<and> goes_on t s1 as s')"

lemma goes_on_append: "others_run t s as s1 \<Longrightarrow> goes_on t s1 bs s2 \<Longrightarrow> goes_on t s (as @ bs) s2"
  by (auto simp: others_run_def goes_on_def intro: runner_run_append)

lemma goes_on_nil: "goes_on t s [] s"
  by (simp add: goes_on_def)

lemma goes_on_one: "runner_step s a s' \<Longrightarrow> \<not> starts_call a \<Longrightarrow> goes_on t s [a] s'"
  by (simp add: goes_on_def)

text \<open>
  From \<open>s\<close>, while the caller \<open>t\<close> stays where it is, a run of the other goroutines leads to \<open>s2\<close> and
  ends the wait the way \<open>w\<close> says.
\<close>

definition waits_as :: "runner_sys \<Rightarrow> nat \<Rightarrow> wait \<Rightarrow> runner_sys \<Rightarrow> bool" where
  "waits_as s t w s2 \<longleftrightarrow> (\<exists>as. others_run t s as s2) \<and> y_thr s2 t = y_thr s t \<and> y_lock s2 = y_lock s \<and>
     snd (w (y_r s)) = y_r s2 \<and>
     (case fst (w (y_r s)) of
        Room \<Rightarrow> length (rn_in (y_r s2)) < rn_cap (y_r s2)
      | Stopped \<Rightarrow> rn_stop (y_r s2)
      | Timer \<Rightarrow> True)"

text \<open>A call of \<open>t\<close> has returned \<open>res\<close> and left the runner as \<open>r\<close>.\<close>

definition returned :: "runner_sys \<Rightarrow> nat \<Rightarrow> go_error option \<Rightarrow> runner \<Rightarrow> bool" where
  "returned s t res r \<longleftrightarrow> y_thr s t = CIdle res \<and> y_r s = r \<and> y_lock s = None"

section \<open>Enqueueing\<close>

text \<open>What the slow path of \<open>Enqueue\<close> returns and leaves, from how its wait ended.\<close>

fun slow_result :: "wait_end \<times> runner \<Rightarrow> inst \<Rightarrow> go_error option \<times> runner" where
  "slow_result (Room, r) i = (case chan_send r i of
     Some r' \<Rightarrow> (None, reserve r' i) | None \<Rightarrow> (Some RunnerErrFull, r))"
| "slow_result (Timer, r) i = (Some RunnerErrFull, r)"
| "slow_result (Stopped, r) i = (Some ErrClosed, r)"

lemma Runner_Enqueue_slow:
  "Enqueue_try r i = (None, r') \<Longrightarrow> Runner_Enqueue w r i = slow_result (w r') i"
  by (cases "w r'"; cases "fst (w r')") (simp_all add: Runner_Enqueue_def)

lemma waits_result: "waits_as s t w s2 \<Longrightarrow> w (y_r s) = (fst (w (y_r s)), y_r s2)"
  by (simp add: waits_as_def prod_eq_iff)

lemma slow_path_run:
  assumes "y_lock s1 = None" and "y_thr s1 t = CSlow i" and "waits_as s1 t w s2"
  shows "\<exists>as s'. goes_on t s1 as s'
    \<and> returned s' t (fst (slow_result (w (y_r s1)) i)) (snd (slow_result (w (y_r s1)) i))"
proof -
  obtain as where run: "others_run t s1 as s2" and at: "y_thr s2 t = CSlow i" "y_lock s2 = None"
    using assms by (auto simp: waits_as_def)
  have "\<exists>bs s'. goes_on t s2 bs s'
    \<and> returned s' t (fst (slow_result (w (y_r s1)) i)) (snd (slow_result (w (y_r s1)) i))"
  proof (cases "fst (w (y_r s1))")
    case Room
    then have w: "w (y_r s1) = (Room, y_r s2)" using waits_result [OF assms(3)] by simp
    have room: "length (rn_in (y_r s2)) < rn_cap (y_r s2)" using assms(3) Room by (simp add: waits_as_def)
    then have send: "chan_send (y_r s2) i = Some ((y_r s2)\<lparr>rn_in := rn_in (y_r s2) @ [i]\<rparr>)"
      by (simp add: chan_send_def)
    have "\<exists>s'. goes_on t s2 [SlowSend t, SlowMark t] s'
      \<and> returned s' t None (reserve ((y_r s2)\<lparr>rn_in := rn_in (y_r s2) @ [i]\<rparr>) i)"
      using at send by (auto simp: goes_on_def runner_step_simps returned_def)
    then show ?thesis by (auto simp: w send)
  next
    case Timer
    then have w: "w (y_r s1) = (Timer, y_r s2)" using waits_result [OF assms(3)] by simp
    show ?thesis using goes_on_one [OF slow_timeout [OF at(1)], of t] at by (fastforce simp: returned_def w)
  next
    case Stopped
    then have w: "w (y_r s1) = (Stopped, y_r s2)" using waits_result [OF assms(3)] by simp
    have "rn_stop (y_r s2)" using assms(3) Stopped by (simp add: waits_as_def)
    from goes_on_one [OF slow_stop [OF at(1) this], of t] show ?thesis
      using at by (fastforce simp: returned_def w)
  qed
  then show ?thesis using goes_on_append [OF run] by blast
qed

lemma enqueue_run:
  assumes "y_lock s = None" and "y_thr s t = CIdle x" and "runner_step s (Enq t i) s1"
    and "y_thr s1 t = CSlow i \<longrightarrow> waits_as s1 t w s2"
  shows "\<exists>as s'. call_run t s (Enq t i) as s'
    \<and> returned s' t (fst (Runner_Enqueue w (y_r s) i)) (snd (Runner_Enqueue w (y_r s) i))"
proof -
  have "\<exists>as s'. goes_on t s1 as s'
    \<and> returned s' t (fst (Runner_Enqueue w (y_r s) i)) (snd (Runner_Enqueue w (y_r s) i))"
  proof (cases "fst (Enqueue_try (y_r s) i)")
    case (Some res)
    then obtain r' where e: "Enqueue_try (y_r s) i = (Some res, r')" by (metis prod.collapse)
    then have "returned s1 t res r'"
      using assms(1-3) by (auto simp: runner_step_simps returned_def)
    moreover have "Runner_Enqueue w (y_r s) i = (res, r')" using e by (simp add: Runner_Enqueue_def)
    ultimately show ?thesis using goes_on_nil by (metis fst_conv snd_conv)
  next
    case None
    then obtain r' where e: "Enqueue_try (y_r s) i = (None, r')" by (metis prod.collapse)
    with assms(1-3) have s1: "y_thr s1 t = CSlow i" "y_r s1 = r'" "y_lock s1 = None"
      by (auto simp: runner_step_simps)
    have "waits_as s1 t w s2" using assms(4) s1(1) by simp
    from slow_path_run [OF s1(3,1) this] show ?thesis unfolding s1(2) Runner_Enqueue_slow [OF e] .
  qed
  then show ?thesis using assms(3) by (auto simp: call_run_def)
qed

section \<open>Replayed sends\<close>

lemma replay_write_run:
  assumes "y_lock s = None" and "y_thr s t = CIdle x" and "runner_step s (ReplaySend t i) s1"
    and "y_thr s1 t = CSend i None \<and> chan_send (y_r s1) i = None \<longrightarrow> waits_as s1 t w s2"
  shows "\<exists>as s'. call_run t s (ReplaySend t i) as s'
    \<and> returned s' t (fst (ReplayWrite w (y_r s) i)) (snd (ReplayWrite w (y_r s) i))"
proof -
  have "\<exists>as s'. goes_on t s1 as s'
    \<and> returned s' t (fst (ReplayWrite w (y_r s) i)) (snd (ReplayWrite w (y_r s) i))"
  proof (cases "rn_closed (y_r s)")
    case True
    then have "returned s1 t (Some ErrClosed) (y_r s)"
      using assms(1-3) by (auto simp: runner_step_simps returned_def)
    then show ?thesis using True goes_on_nil by (fastforce simp: ReplayWrite_def)
  next
    case False
    then have s1: "y_thr s1 t = CSend i None" "y_r s1 = reserve (y_r s) i" "y_lock s1 = Some t"
      using assms(1-3) by (auto simp: runner_step_simps)
    have "\<exists>bs s'. goes_on t s1 bs s' \<and> returned s' t (fst (sendLocked w (y_r s) i)) (snd (sendLocked w (y_r s) i))"
    proof (cases "chan_send (y_r s1) i")
      case (Some r')
      from goes_on_one [OF send_ok [OF s1(1) this], of t] Some s1(2) show ?thesis
        by (fastforce simp: returned_def sendLocked_def Let_def)
    next
      case None
      then have wait: "waits_as s1 t w s2" using assms(4) s1(1) by simp
      then obtain as where run: "others_run t s1 as s2" and at: "y_thr s2 t = CSend i None"
        using s1(1) by (auto simp: waits_as_def)
      have full: "chan_send (reserve (y_r s) i) i = None" using None s1(2) by simp
      have "\<exists>bs s'. goes_on t s2 bs s' \<and> returned s' t (fst (sendLocked w (y_r s) i)) (snd (sendLocked w (y_r s) i))"
      proof (cases "fst (w (y_r s1)) = Room")
        case True
        then have w: "w (reserve (y_r s) i) = (Room, y_r s2)" using waits_result [OF wait] s1(2) by simp
        have "length (rn_in (y_r s2)) < rn_cap (y_r s2)" using wait True by (simp add: waits_as_def)
        then have send: "chan_send (y_r s2) i = Some ((y_r s2)\<lparr>rn_in := rn_in (y_r s2) @ [i]\<rparr>)"
          by (simp add: chan_send_def)
        from goes_on_one [OF send_ok [OF at this], of t] show ?thesis
          by (fastforce simp: returned_def sendLocked_def full w send Let_def)
      next
        case False
        then obtain e where w: "w (reserve (y_r s) i) = (e, y_r s2)" "e \<noteq> Room"
          using waits_result [OF wait] s1(2) by metis
        then have "sendLocked w (y_r s) i = (Some RunnerErrFull, release (y_r s2) i)"
          by (cases e) (simp_all add: sendLocked_def full Let_def)
        with goes_on_one [OF send_timeout [OF at], of t] show ?thesis by (fastforce simp: returned_def)
      qed
      then show ?thesis using goes_on_append [OF run] by blast
    qed
    then show ?thesis using False unfolding ReplayWrite_def if_not_P [OF False] by blast
  qed
  then show ?thesis using assms(3) by (auto simp: call_run_def)
qed

section \<open>Shutdown and the turn of the worker\<close>

lemma shutdown_run:
  assumes "y_lock s = None" and "y_thr s t = CIdle None" and "runner_step s (ShutBegin t) s1"
    and "y_thr s1 t = CShutWait \<longrightarrow> (\<exists>as. others_run t s1 as s2) \<and> y_thr s2 t = CShutWait \<and> y_lock s2 = None
      \<and> rn_wg (y_r s2) = 0 \<and> y_r s2 = drained (y_r s1)"
  shows "\<exists>as s'. call_run t s (ShutBegin t) as s' \<and> returned s' t None (Shutdown drained (y_r s))"
proof -
  have "\<exists>as s'. goes_on t s1 as s' \<and> returned s' t None (Shutdown drained (y_r s))"
  proof (cases "rn_closed (y_r s)")
    case True
    then have "returned s1 t None (Shutdown drained (y_r s))"
      using assms(1-3) by (auto simp: runner_step_simps returned_def Shutdown_def)
    then show ?thesis using goes_on_nil by blast
  next
    case False
    then have s1: "y_thr s1 t = CShutWait" "y_r s1 = (y_r s)\<lparr>rn_closed := True\<rparr>"
      using assms(2,3) by (auto simp: runner_step_simps)
    then obtain as where s2: "others_run t s1 as s2" "y_thr s2 t = CShutWait" "y_lock s2 = None"
      "rn_wg (y_r s2) = 0" "y_r s2 = drained ((y_r s)\<lparr>rn_closed := True\<rparr>)"
      using assms(4) by auto
    have "\<exists>s'. goes_on t s2 [ShutStop t, ShutDone t] s' \<and> returned s' t None (Shutdown drained (y_r s))"
      using s2(2-5) False by (auto simp: goes_on_def runner_step_simps returned_def Shutdown_def)
    then show ?thesis using goes_on_append [OF s2(1)] by blast
  qed
  then show ?thesis using assms(3) by (auto simp: call_run_def)
qed

text \<open>
  The worker takes an instance, starts the handler on it, and is back in its \<open>select\<close> when the handler
  has returned and the key is released.
\<close>

lemma turn_run:
  assumes "y_lock s = None" and "y_worker s = WIdle" and "\<not> rn_closed (y_r s)" and "rn_in (y_r s) = i # rest"
    and "rn_wg (y_r s) = 0"
  shows "\<exists>s'. runner_run s [Recv, StartInst, HandlerReturn, FinishInst, LeaveGroup] s'
    \<and> y_r s' = release ((y_r s)\<lparr>rn_in := rest\<rparr>) i \<and> y_started s' = y_started s @ [i]
    \<and> y_worker s' = WIdle \<and> y_lock s' = None \<and> y_thr s' = y_thr s"
proof -
  have "r\<lparr>rn_wg := 0\<rparr> = r" if "rn_wg r = 0" for r :: runner using that by simp
  then show ?thesis
    using assms by (auto simp: runner_step_simps release_def)
qed

section \<open>Properties\<close>

text \<open>
  C28: the calls the rest of the program makes are runs of the goroutines.  For a caller that is idle
  while the mutex is free: what \<open>Enqueue\<close> and \<open>ReplayWrite\<close> return and leave, given how runs of the
  other goroutines end their waits, and what \<open>Shutdown\<close> leaves, given how such a run empties the wait
  group, are each the outcome of a run that starts with the call's first step and in which the caller
  starts no other call, with the mutex free again.  And when an idle worker takes the first queued
  instance of an open runner, its five steps start the handler on that instance and leave the runner
  as the turn of the worker does, with the worker idle again.
\<close>

theorem calls_are_runs:
  assumes "y_lock s = None" and "y_thr s t = CIdle None"
  shows "(\<forall>s1 s2 w i. runner_step s (Enq t i) s1 \<and> (y_thr s1 t = CSlow i \<longrightarrow> waits_as s1 t w s2) \<longrightarrow>
        (\<exists>as s'. call_run t s (Enq t i) as s'
          \<and> returned s' t (fst (Runner_Enqueue w (y_r s) i)) (snd (Runner_Enqueue w (y_r s) i))))
    \<and> (\<forall>s1 s2 w i. runner_step s (ReplaySend t i) s1
        \<and> (y_thr s1 t = CSend i None \<and> chan_send (y_r s1) i = None \<longrightarrow> waits_as s1 t w s2) \<longrightarrow>
        (\<exists>as s'. call_run t s (ReplaySend t i) as s'
          \<and> returned s' t (fst (ReplayWrite w (y_r s) i)) (snd (ReplayWrite w (y_r s) i))))
    \<and> (\<forall>s1 s2 as drained. runner_step s (ShutBegin t) s1
        \<and> (y_thr s1 t = CShutWait \<longrightarrow> others_run t s1 as s2 \<and> y_thr s2 t = CShutWait \<and> y_lock s2 = None
            \<and> rn_wg (y_r s2) = 0 \<and> y_r s2 = drained (y_r s1)) \<longrightarrow>
        (\<exists>as s'. call_run t s (ShutBegin t) as s' \<and> returned s' t None (Shutdown drained (y_r s))))
    \<and> (\<forall>i rest. y_worker s = WIdle \<and> \<not> rn_closed (y_r s) \<and> rn_in (y_r s) = i # rest \<and> rn_wg (y_r s) = 0 \<longrightarrow>
        (\<exists>s'. runner_run s [Recv, StartInst, HandlerReturn, FinishInst, LeaveGroup] s'
          \<and> y_r s' = release ((y_r s)\<lparr>rn_in := rest\<rparr>) i \<and> y_started s' = y_started s @ [i]
          \<and> y_worker s' = WIdle \<and> y_lock s' = None \<and> y_thr s' = y_thr s))"
proof -
  have "\<exists>as s'. call_run t s (ShutBegin t) as s' \<and> returned s' t None (Shutdown drained (y_r s))"
    if "runner_step s (ShutBegin t) s1" "y_thr s1 t = CShutWait \<longrightarrow> others_run t s1 as s2 \<and> y_thr s2 t = CShutWait
      \<and> y_lock s2 = None \<and> rn_wg (y_r s2) = 0 \<and> y_r s2 = drained (y_r s1)" for s1 s2 as drained
    by (rule shutdown_run [OF assms that(1), of s2]) (use that(2) in blast)
  then show ?thesis
    using enqueue_run [OF assms] replay_write_run [OF assms] turn_run [OF assms(1)] by blast
qed

theorem calls_are_runs_witness:
  "\<exists>s as s'. runner_run (runner_start 1) [Enq 1 (sample_inst ''a'' ''k'')] s
    \<and> call_run 0 s (Enq 0 (sample_inst ''b'' ''l'')) as s'
    \<and> returned s' 0 None (snd (Runner_Enqueue (\<lambda>r. (Room, r\<lparr>rn_in := []\<rparr>)) (y_r s) (sample_inst ''b'' ''l'')))
    \<and> rn_in (y_r s') = [sample_inst ''b'' ''l'']"
proof -
  let ?i = "sample_inst ''b'' ''l''" and ?w = "\<lambda>r. (Room, r\<lparr>rn_in := []\<rparr>)"
  obtain s where s: "runner_run (runner_start 1) [Enq 1 (sample_inst ''a'' ''k'')] s"
    "y_lock s = None" "y_thr s 0 = CIdle None" "y_worker s = WIdle"
    "y_r s = (NewRunner 1)\<lparr>rn_inflight := {''k''}, rn_in := [sample_inst ''a'' ''k'']\<rparr>"
    by (simp add: run_eval)
  then obtain s1 where s1: "runner_step s (Enq 0 ?i) s1" "y_thr s1 0 = CSlow ?i" "y_lock s1 = None"
    "y_worker s1 = WIdle" "y_r s1 = y_r s"
    by (auto simp: runner_step_simps runner_ops NewRunner_def)
  then obtain s2 where s2: "others_run 0 s1 [Recv] s2" "y_thr s2 0 = CSlow ?i" "y_lock s2 = None"
    "y_r s2 = (y_r s)\<lparr>rn_in := []\<rparr>"
    using s(5) by (auto simp: others_run_def runner_step_simps)
  then have "waits_as s1 0 ?w s2" using s1 s(5) exI [of "\<lambda>as. others_run 0 s1 as s2", OF s2(1)]
    unfolding waits_as_def by (simp add: NewRunner_def)
  then have "runner_step s (Enq 0 ?i) s1 \<and> (y_thr s1 0 = CSlow ?i \<longrightarrow> waits_as s1 0 ?w s2)" using s1(1) by blast
  then obtain as s' where s': "call_run 0 s (Enq 0 ?i) as s'"
    "returned s' 0 (fst (Runner_Enqueue ?w (y_r s) ?i)) (snd (Runner_Enqueue ?w (y_r s) ?i))"
    using conjunct1 [OF calls_are_runs [OF s(2,3)]] by blast
  have "Runner_Enqueue ?w (y_r s) ?i = (None, (NewRunner 1)\<lparr>rn_inflight := {''l'', ''k''}, rn_in := [?i]\<rparr>)"
    by (simp add: s(5) Runner_Enqueue_def runner_ops NewRunner_def)
  with s' s(1) show ?thesis by (intro exI [of _ s] exI [of _ as] exI [of _ s']) (simp add: returned_def)
qed

end
