(* ===== verification/Heap.thy ===== *)
theory Heap
  imports Prelude
begin

text \<open>
  The binary heap of Go's \<open>container/heap\<close>, as the waiting queue uses it: \<open>Push\<close> appends and sifts
  up, \<open>Pop\<close> swaps the root with the last element, sifts down below it and removes it.  The
  comparison is a parameter here; the interface it has to satisfy is the locale \<open>heap_order\<close>.
\<close>

section \<open>The operations\<close>

definition heap_swap :: "'a list \<Rightarrow> nat \<Rightarrow> nat \<Rightarrow> 'a list" where
  "heap_swap h i j = h[i := h ! j, j := h ! i]"

function heap_up :: "('a \<Rightarrow> 'a \<Rightarrow> bool) \<Rightarrow> 'a list \<Rightarrow> nat \<Rightarrow> 'a list" where
  "heap_up lt h j =
     (let i = (j - 1) div 2
      in if i = j \<or> \<not> lt (h ! j) (h ! i) then h
         else heap_up lt (heap_swap h i j) i)"
  by pat_completeness auto
termination
  by (relation "measure (\<lambda>(lt, h, j). j)") auto

definition heap_child :: "('a \<Rightarrow> 'a \<Rightarrow> bool) \<Rightarrow> 'a list \<Rightarrow> nat \<Rightarrow> nat \<Rightarrow> nat" where
  "heap_child lt h j1 n = (if j1 + 1 < n \<and> lt (h ! (j1 + 1)) (h ! j1) then j1 + 1 else j1)"

lemma heap_child_bounds:
  "j1 < n \<Longrightarrow> j1 \<le> heap_child lt h j1 n \<and> heap_child lt h j1 n < n"
  by (simp add: heap_child_def)

function heap_down :: "('a \<Rightarrow> 'a \<Rightarrow> bool) \<Rightarrow> 'a list \<Rightarrow> nat \<Rightarrow> nat \<Rightarrow> 'a list" where
  "heap_down lt h i n =
     (let j1 = 2 * i + 1
      in if n \<le> j1 then h
         else let j = heap_child lt h j1 n
              in if \<not> lt (h ! j) (h ! i) then h
                 else heap_down lt (heap_swap h i j) j n)"
  by pat_completeness auto
termination
  by (relation "measure (\<lambda>(lt, h, i, n). n - i)") (auto simp: heap_child_def)

declare heap_up.simps [simp del] heap_down.simps [simp del]

definition heap_push :: "('a \<Rightarrow> 'a \<Rightarrow> bool) \<Rightarrow> 'a list \<Rightarrow> 'a \<Rightarrow> 'a list" where
  "heap_push lt h x = heap_up lt (h @ [x]) (length (h @ [x]) - 1)"

definition heap_pop :: "('a \<Rightarrow> 'a \<Rightarrow> bool) \<Rightarrow> 'a list \<Rightarrow> 'a \<times> 'a list" where
  "heap_pop lt h =
     (let n = length h - 1;
          h' = heap_down lt (heap_swap h 0 n) 0 n
      in (last h', butlast h'))"

section \<open>Sizes and contents\<close>

lemma length_swap [simp]: "length (heap_swap h i j) = length h"
  by (simp add: heap_swap_def)

lemma nth_swap:
  "i < length h \<Longrightarrow> j < length h \<Longrightarrow> k < length h \<Longrightarrow>
   heap_swap h i j ! k = (if k = j then h ! i else if k = i then h ! j else h ! k)"
  by (simp add: heap_swap_def nth_list_update)

lemma mset_heap_swap [simp]:
  "i < length h \<Longrightarrow> j < length h \<Longrightarrow> mset (heap_swap h i j) = mset h"
  by (simp add: heap_swap_def mset_swap)

lemma length_heap_up [simp]: "length (heap_up lt h j) = length h"
  by (induction lt h j rule: heap_up.induct) (subst heap_up.simps, simp add: Let_def)

lemma mset_heap_up [simp]: "j < length h \<Longrightarrow> mset (heap_up lt h j) = mset h"
proof (induction lt h j rule: heap_up.induct)
  case (1 lt h j)
  have "(j - 1) div 2 < length h" using "1.prems" by linarith
  with 1 show ?case by (subst heap_up.simps) (simp add: Let_def)
qed

lemma length_heap_down [simp]: "length (heap_down lt h i n) = length h"
  by (induction lt h i n rule: heap_down.induct) (subst heap_down.simps, simp add: Let_def)

lemma mset_heap_down [simp]:
  "n \<le> length h \<Longrightarrow> i < length h \<Longrightarrow> mset (heap_down lt h i n) = mset h"
proof (induction lt h i n rule: heap_down.induct)
  case (1 lt h i n)
  then show ?case
    using heap_child_bounds [of "2 * i + 1" n lt h]
    by (subst heap_down.simps) (auto simp: Let_def)
qed

lemma heap_down_above:
  "n \<le> length h \<Longrightarrow> i < n \<Longrightarrow> n \<le> k \<Longrightarrow> k < length h \<Longrightarrow> heap_down lt h i n ! k = h ! k"
proof (induction lt h i n rule: heap_down.induct)
  case (1 lt h i n)
  then show ?case
    using heap_child_bounds [of "2 * i + 1" n lt h]
    by (subst heap_down.simps) (simp add: Let_def nth_swap)
qed

lemma length_heap_push [simp]: "length (heap_push lt h x) = Suc (length h)"
  by (simp add: heap_push_def)

lemma mset_heap_push [simp]: "mset (heap_push lt h x) = add_mset x (mset h)"
  by (simp add: heap_push_def)

lemma length_heap_pop [simp]: "length (snd (heap_pop lt h)) = length h - 1"
  by (simp add: heap_pop_def Let_def)

lemma mset_heap_pop:
  assumes "h \<noteq> []"
  shows "add_mset (fst (heap_pop lt h)) (mset (snd (heap_pop lt h))) = mset h"
proof -
  let ?h = "heap_down lt (heap_swap h 0 (length h - 1)) 0 (length h - 1)"
  have ne: "?h \<noteq> []" using assms by (metis length_0_conv length_heap_down length_swap)
  have "add_mset (last ?h) (mset (butlast ?h)) = mset ?h"
    using ne by (metis append_butlast_last_id mset_append mset.simps(1,2) union_mset_add_mset_right add.right_neutral)
  also have "\<dots> = mset h" using assms by simp
  finally show ?thesis by (simp add: heap_pop_def Let_def)
qed

section \<open>The interface of the comparison, and what a heap guarantees\<close>

text \<open>
  \<open>lt\<close> is a strict weak order; \<open>le a b\<close>, the negation of \<open>lt b a\<close>, is the total preorder it
  belongs to.
\<close>

locale heap_order =
  fixes lt :: "'a \<Rightarrow> 'a \<Rightarrow> bool"
  assumes asym: "lt a b \<Longrightarrow> \<not> lt b a"
    and neg_trans: "\<not> lt b a \<Longrightarrow> \<not> lt c b \<Longrightarrow> \<not> lt c a"
begin

definition le :: "'a \<Rightarrow> 'a \<Rightarrow> bool" where
  "le a b \<longleftrightarrow> \<not> lt b a"

lemma le_refl [simp]: "le a a"
  using asym by (auto simp: le_def)

lemma le_trans: "le a b \<Longrightarrow> le b c \<Longrightarrow> le a c"
  using neg_trans by (auto simp: le_def)

lemma lt_le: "lt a b \<Longrightarrow> le a b"
  using asym by (auto simp: le_def)

lemma not_lt_le: "\<not> lt a b \<longleftrightarrow> le b a"
  by (simp add: le_def)

text \<open>
  Every element but the root is at least its parent; \<open>heap_but h n i\<close> allows a defect at position
  \<open>i\<close> among the first \<open>n\<close>: upwards for sifting up, downwards for sifting down.
\<close>

definition heap_on :: "'a list \<Rightarrow> nat \<Rightarrow> bool" where
  "heap_on h n \<longleftrightarrow> (\<forall>k. 0 < k \<longrightarrow> k < n \<longrightarrow> le (h ! ((k - 1) div 2)) (h ! k))"

definition up_inv :: "'a list \<Rightarrow> nat \<Rightarrow> bool" where
  "up_inv h j \<longleftrightarrow>
     (\<forall>k. 0 < k \<longrightarrow> k < length h \<longrightarrow> k \<noteq> j \<longrightarrow> le (h ! ((k - 1) div 2)) (h ! k)) \<and>
     (\<forall>k. 0 < k \<longrightarrow> k < length h \<longrightarrow> 0 < j \<longrightarrow> (k - 1) div 2 = j \<longrightarrow> le (h ! ((j - 1) div 2)) (h ! k))"

definition down_inv :: "'a list \<Rightarrow> nat \<Rightarrow> nat \<Rightarrow> bool" where
  "down_inv h i n \<longleftrightarrow>
     (\<forall>k. 0 < k \<longrightarrow> k < n \<longrightarrow> (k - 1) div 2 \<noteq> i \<longrightarrow> le (h ! ((k - 1) div 2)) (h ! k)) \<and>
     (\<forall>k. 0 < k \<longrightarrow> k < n \<longrightarrow> 0 < i \<longrightarrow> (k - 1) div 2 = i \<longrightarrow> le (h ! ((i - 1) div 2)) (h ! k))"

lemma up_inv_swap:
  assumes inv: "up_inv h j" and j: "j < length h" "0 < j"
    and i_def: "i = (j - 1) div 2" and lt: "lt (h ! j) (h ! i)"
  shows "up_inv (heap_swap h i j) i"
proof -
  have i: "i < j" "i < length h" using j i_def by linarith+
  have par: "k < length h \<Longrightarrow> (k - 1) div 2 < length h" for k by linarith
  have edge: "le (h ! ((k - 1) div 2)) (h ! k)" if "0 < k" "k < length h" "k \<noteq> j" for k
    using inv that by (auto simp: up_inv_def)
  have grand: "le (h ! i) (h ! k)" if "0 < k" "k < length h" "(k - 1) div 2 = j" for k
    using inv that j by (auto simp: up_inv_def i_def)
  have ji: "le (h ! j) (h ! i)" using lt by (rule lt_le)
  have sw: "heap_swap h i j ! k = (if k = j then h ! i else if k = i then h ! j else h ! k)"
    if "k < length h" for k
    using that i j by (simp add: nth_swap)
  have "le (heap_swap h i j ! ((k - 1) div 2)) (heap_swap h i j ! k)"
    if k: "0 < k" "k < length h" "k \<noteq> i" for k
  proof (cases "k = j")
    case True
    then have "(k - 1) div 2 = i" using i_def by simp
    then show ?thesis using ji i j True sw [of i] sw [of j] by simp
  next
    case False
    have e: "le (h ! ((k - 1) div 2)) (h ! k)" using edge k False by simp
    have "le (h ! j) (h ! k)" if "(k - 1) div 2 = i"
      using le_trans [OF ji] e that by simp
    then show ?thesis
      using e grand [of k] False k sw [of k] sw [of "(k - 1) div 2"] par [of k] i by auto
  qed
  moreover have "le (heap_swap h i j ! ((i - 1) div 2)) (heap_swap h i j ! k)"
    if k: "0 < k" "k < length h" "0 < i" "(k - 1) div 2 = i" for k
  proof -
    have p: "(i - 1) div 2 < i" "(i - 1) div 2 \<noteq> j" "(i - 1) div 2 < length h" "k \<noteq> i"
      using k i by linarith+
    have e: "le (h ! ((i - 1) div 2)) (h ! i)" using edge [of i] k i by simp
    show ?thesis
      using e edge [of k] le_trans [OF e, of "h ! k"] p k i
        sw [of k] sw [of "(i - 1) div 2"] by auto
  qed
  ultimately show ?thesis by (simp add: up_inv_def)
qed

lemma heap_up_heap: "up_inv h j \<Longrightarrow> j < length h \<Longrightarrow> heap_on (heap_up lt h j) (length h)"
proof (induction j arbitrary: h rule: less_induct)
  case (less j)
  let ?i = "(j - 1) div 2"
  show ?case
  proof (cases "?i = j \<or> \<not> lt (h ! j) (h ! ?i)")
    case True
    then have "0 < j \<Longrightarrow> le (h ! ?i) (h ! j)" by (auto simp: not_lt_le)
    with less.prems(1) have "heap_on h (length h)" by (auto simp: up_inv_def heap_on_def)
    with True show ?thesis by (subst heap_up.simps) (simp add: Let_def)
  next
    case False
    then have j: "0 < j" "?i < j" "lt (h ! j) (h ! ?i)" by auto
    have "up_inv (heap_swap h ?i j) ?i"
      using up_inv_swap [OF less.prems(1,2) j(1) refl j(3)] .
    then have "heap_on (heap_up lt (heap_swap h ?i j) ?i) (length h)"
      using less.IH [OF j(2)] j(2) less.prems(2) by (metis length_swap less_trans)
    with False show ?thesis by (subst heap_up.simps) (simp add: Let_def)
  qed
qed

lemma heap_on_push: "heap_on h (length h) \<Longrightarrow> heap_on (heap_push lt h x) (Suc (length h))"
proof -
  assume h: "heap_on h (length h)"
  have "up_inv (h @ [x]) (length h)"
    using h by (auto simp: up_inv_def heap_on_def nth_append)
  then show ?thesis
    using heap_up_heap [of "h @ [x]" "length h"] by (simp add: heap_push_def)
qed

text \<open>The child that sifting down compares with: the smaller of the one or two.\<close>

lemma down_inv_swap:
  assumes inv: "down_inv h i n" and n: "n \<le> length h"
    and j: "j < n" "0 < j" "(j - 1) div 2 = i"
    and small: "\<And>k. 0 < k \<Longrightarrow> k < n \<Longrightarrow> (k - 1) div 2 = i \<Longrightarrow> le (h ! j) (h ! k)"
    and lt: "lt (h ! j) (h ! i)"
  shows "down_inv (heap_swap h i j) j n"
proof -
  have i: "i < j" "i < length h" "j < length h" using j n by linarith+
  have par: "0 < k \<Longrightarrow> k < n \<Longrightarrow> (k - 1) div 2 < length h" for k using n by linarith
  have edge: "le (h ! ((k - 1) div 2)) (h ! k)" if "0 < k" "k < n" "(k - 1) div 2 \<noteq> i" for k
    using inv that by (auto simp: down_inv_def)
  have grand: "le (h ! ((i - 1) div 2)) (h ! k)" if "0 < k" "k < n" "(k - 1) div 2 = i" "0 < i" for k
    using inv that by (auto simp: down_inv_def)
  have ji: "le (h ! j) (h ! i)" using lt by (rule lt_le)
  have sw: "heap_swap h i j ! k = (if k = j then h ! i else if k = i then h ! j else h ! k)"
    if "k < length h" for k
    using that i by (simp add: nth_swap)
  have "le (heap_swap h i j ! ((k - 1) div 2)) (heap_swap h i j ! k)"
    if k: "0 < k" "k < n" "(k - 1) div 2 \<noteq> j" for k
  proof (cases "(k - 1) div 2 = i")
    case True
    then have "k \<noteq> i" using k by linarith
    then show ?thesis using True small [of k] ji k i n by (auto simp: sw)
  next
    case False
    have kj: "k \<noteq> j" using False j by auto
    show ?thesis
    proof (cases "k = i")
      case True
      then show ?thesis
        using grand [of j] j k False kj i n by (auto simp: sw par)
    next
      case ki: False
      then show ?thesis using edge k False kj n by (simp add: sw par)
    qed
  qed
  moreover have "le (heap_swap h i j ! ((j - 1) div 2)) (heap_swap h i j ! k)"
    if k: "0 < k" "k < n" "(k - 1) div 2 = j" for k
  proof -
    have "k \<noteq> j" "k \<noteq> i" using k i by linarith+
    then show ?thesis using edge [of k] k i j n by (auto simp: sw)
  qed
  ultimately show ?thesis by (simp add: down_inv_def)
qed

lemma heap_down_heap:
  "down_inv h i n \<Longrightarrow> n \<le> length h \<Longrightarrow> heap_on (heap_down lt h i n) n"
proof (induction "n - i" arbitrary: h i rule: less_induct)
  case less
  let ?j1 = "2 * i + 1"
  let ?j = "heap_child lt h ?j1 n"
  have kids: "0 < k \<Longrightarrow> (k - 1) div 2 = i \<Longrightarrow> k = ?j1 \<or> k = ?j1 + 1" for k by linarith
  show ?case
  proof (cases "n \<le> ?j1")
    case True
    then have "0 < k \<Longrightarrow> k < n \<Longrightarrow> (k - 1) div 2 \<noteq> i" for k by linarith
    then have "heap_on h n" using less.prems(1) by (auto simp: heap_on_def down_inv_def)
    with True show ?thesis by (subst heap_down.simps) (simp add: Let_def)
  next
    case False
    have j: "?j < n" "0 < ?j" "(?j - 1) div 2 = i" "i < ?j" using False by (auto simp: heap_child_def)
    have small: "le (h ! ?j) (h ! k)" if "0 < k" "k < n" "(k - 1) div 2 = i" for k
      using kids [OF that(1,3)] that(2) lt_le by (auto simp: heap_child_def not_lt_le)
    show ?thesis
    proof (cases "lt (h ! ?j) (h ! i)")
      case True
      have "down_inv (heap_swap h i ?j) ?j n"
        using down_inv_swap [OF less.prems j(1-3) small True] .
      then have "heap_on (heap_down lt (heap_swap h i ?j) ?j n) n"
        using less.hyps [of ?j "heap_swap h i ?j"] j less.prems(2) by simp
      with True False show ?thesis by (subst heap_down.simps) (simp add: Let_def)
    next
      case no: False
      have "heap_on h n"
        using less.prems(1) small le_trans [of "h ! i" "h ! ?j"] no
        by (auto simp: heap_on_def down_inv_def not_lt_le)
      with no False show ?thesis by (subst heap_down.simps) (simp add: Let_def)
    qed
  qed
qed

lemma heap_on_pop:
  assumes h: "heap_on h (length h)"
  shows "heap_on (snd (heap_pop lt h)) (length h - 1)"
proof (cases "h = []")
  case True
  then show ?thesis by (simp add: heap_on_def)
next
  case False
  let ?n = "length h - 1"
  let ?s = "heap_swap h 0 ?n"
  have par: "0 < (k - 1) div 2 \<Longrightarrow> k < ?n \<Longrightarrow> (k - 1) div 2 \<noteq> ?n" for k by linarith
  have "down_inv ?s 0 ?n"
    using h par False
    by (auto simp: down_inv_def heap_on_def nth_swap)
  then have "heap_on (heap_down lt ?s 0 ?n) ?n" by (rule heap_down_heap) simp
  then show ?thesis
    by (auto simp: heap_pop_def Let_def heap_on_def nth_butlast)
qed

lemma heap_root_least:
  assumes "heap_on h (length h)" and "k < length h"
  shows "le (h ! 0) (h ! k)"
  using assms(2)
proof (induction k rule: less_induct)
  case (less k)
  show ?case
  proof (cases "k = 0")
    case False
    then have "(k - 1) div 2 < k" by linarith
    with less False have "le (h ! 0) (h ! ((k - 1) div 2))" by simp
    moreover have "le (h ! ((k - 1) div 2)) (h ! k)"
      using assms(1) False less.prems by (simp add: heap_on_def)
    ultimately show ?thesis by (rule le_trans)
  qed simp
qed

lemma heap_pop_root:
  assumes "h \<noteq> []"
  shows "fst (heap_pop lt h) = h ! 0"
proof -
  let ?n = "length h - 1"
  let ?s = "heap_swap h 0 ?n"
  have n: "?n < length h" using assms by simp
  have "heap_down lt ?s 0 ?n ! ?n = ?s ! ?n"
  proof (cases "?n = 0")
    case True
    then show ?thesis by (subst heap_down.simps) (simp add: Let_def)
  next
    case False
    with n show ?thesis by (intro heap_down_above) auto
  qed
  also have "\<dots> = h ! 0" using n assms by (simp add: nth_swap)
  finally have root: "heap_down lt ?s 0 ?n ! ?n = h ! 0" .
  have "heap_down lt ?s 0 ?n \<noteq> []" using assms by (metis length_0_conv length_heap_down length_swap)
  then show ?thesis
    using root by (simp add: heap_pop_def Let_def last_conv_nth)
qed

lemma heap_pop_least:
  assumes "heap_on h (length h)" and "x \<in> set h"
  shows "le (fst (heap_pop lt h)) x"
proof -
  from assms(2) obtain k where "k < length h" "x = h ! k" by (metis in_set_conv_nth)
  moreover from assms(2) have "h \<noteq> []" by auto
  ultimately show ?thesis using heap_root_least [OF assms(1)] by (simp add: heap_pop_root)
qed

end

end
