(* ===== verification/Queue.thy ===== *)
theory Queue
  imports Model Heap
begin

text \<open>
  The waiting queue of \<open>internal/queue\<close>: a bounded binary heap ordered by due time, ties broken by
  task id.  The client's view of it is the locale \<open>prio_queue\<close>, whose contents are a multiset.
\<close>

section \<open>The order of due tasks\<close>

definition task_less :: "task \<Rightarrow> task \<Rightarrow> bool" where
  "task_less a b =
     (if task_DueAt a = task_DueAt b then task_ID a < task_ID b
      else task_DueAt a < task_DueAt b)"

text \<open>The key the comparison orders by, as a linearly ordered type.\<close>

datatype due_key = DueKey time string

fun key_time :: "due_key \<Rightarrow> time" where "key_time (DueKey t i) = t"
fun key_id :: "due_key \<Rightarrow> string" where "key_id (DueKey t i) = i"

instantiation due_key :: linorder
begin

definition less_eq_due_key :: "due_key \<Rightarrow> due_key \<Rightarrow> bool" where
  "a \<le> b \<longleftrightarrow> key_time a < key_time b \<or> (key_time a = key_time b \<and> key_id a \<le> key_id b)"

definition less_due_key :: "due_key \<Rightarrow> due_key \<Rightarrow> bool" where
  "a < b \<longleftrightarrow> key_time a < key_time b \<or> (key_time a = key_time b \<and> key_id a < key_id b)"

instance
proof
  fix a b c :: due_key
  show "(a < b) = (a \<le> b \<and> \<not> b \<le> a)"
    by (auto simp: less_eq_due_key_def less_due_key_def)
  show "a \<le> a" by (simp add: less_eq_due_key_def)
  show "a \<le> b \<Longrightarrow> b \<le> c \<Longrightarrow> a \<le> c" by (auto simp: less_eq_due_key_def)
  show "a \<le> b \<Longrightarrow> b \<le> a \<Longrightarrow> a = b"
    by (cases a; cases b) (auto simp: less_eq_due_key_def)
  show "a \<le> b \<or> b \<le> a" by (auto simp: less_eq_due_key_def)
qed

end

definition task_due_key :: "task \<Rightarrow> due_key" where
  "task_due_key t = DueKey (task_DueAt t) (task_ID t)"

lemma task_less_key: "task_less a b \<longleftrightarrow> task_due_key a < task_due_key b"
  by (auto simp: task_less_def task_due_key_def less_due_key_def)

lemma due_key_le_time: "task_due_key a \<le> task_due_key b \<Longrightarrow> task_DueAt a \<le> task_DueAt b"
  by (auto simp: task_due_key_def less_eq_due_key_def)

interpretation due: heap_order task_less
  by unfold_locales (auto simp: task_less_key)

lemma due_le_key: "due.le a b \<longleftrightarrow> task_due_key a \<le> task_due_key b"
  by (simp add: due.le_def task_less_key not_less)

section \<open>The queue and its operations\<close>

record queue =
  q_items :: "task list"
  q_limit :: int

definition Queue_New :: "int \<Rightarrow> queue" where
  "Queue_New limit = \<lparr>q_items = [], q_limit = (if limit < 1 then 1 else limit)\<rparr>"

definition Queue_Enqueue :: "queue \<Rightarrow> task \<Rightarrow> go_error option \<times> queue" where
  "Queue_Enqueue q t =
     (if int (length (q_items q)) \<ge> q_limit q then (Some QueueErrFull, q)
      else (None, q\<lparr>q_items := heap_push task_less (q_items q) t\<rparr>))"

definition Queue_Next :: "queue \<Rightarrow> (task \<times> bool) \<times> queue" where
  "Queue_Next q =
     (if q_items q = [] then ((zero_task, False), q)
      else (let (t, rest) = heap_pop task_less (q_items q)
            in ((t, True), q\<lparr>q_items := rest\<rparr>)))"

definition Queue_Peek :: "queue \<Rightarrow> task \<times> bool" where
  "Queue_Peek q = (if q_items q = [] then (zero_task, False) else (q_items q ! 0, True))"

definition Queue_Len :: "queue \<Rightarrow> int" where
  "Queue_Len q = int (length (q_items q))"

definition Queue_Snapshot :: "queue \<Rightarrow> task list" where
  "Queue_Snapshot q = q_items q"

text \<open>The loop of \<open>Drain\<close>: pop until the heap is empty, appending to the output.\<close>

function drain_loop :: "task list \<Rightarrow> task list \<Rightarrow> task list \<times> task list" where
  "drain_loop items out =
     (if length items > 0
      then let (t, rest) = heap_pop task_less items in drain_loop rest (out @ [t])
      else (out, items))"
  by pat_completeness auto
termination
  by (relation "measure (\<lambda>(items, out). length items)")
     (auto, metis length_heap_pop diff_less length_greater_0_conv snd_conv zero_less_one)

declare drain_loop.simps [simp del]

definition Queue_Drain :: "queue \<Rightarrow> task list \<times> queue" where
  "Queue_Drain q =
     (if q_items q = [] then ([], q)
      else (let (out, items) = drain_loop (q_items q) [] in (out, q\<lparr>q_items := items\<rparr>)))"

section \<open>The invariant and the contents\<close>

definition queue_inv :: "queue \<Rightarrow> bool" where
  "queue_inv q \<longleftrightarrow> due.heap_on (q_items q) (length (q_items q)) \<and>
     1 \<le> q_limit q \<and> int (length (q_items q)) \<le> q_limit q"

definition queue_contents :: "queue \<Rightarrow> task multiset" where
  "queue_contents q = mset (q_items q)"

lemma queue_inv_limit: "queue_inv q \<Longrightarrow> int (length (q_items q)) \<le> q_limit q"
  by (simp add: queue_inv_def)

lemma queue_contents_size [simp]: "size (queue_contents q) = length (q_items q)"
  by (simp add: queue_contents_def)

lemma queue_inv_new: "queue_inv (Queue_New n)"
  by (simp add: queue_inv_def Queue_New_def due.heap_on_def)

lemma queue_contents_new [simp]: "queue_contents (Queue_New n) = {#}"
  by (simp add: queue_contents_def Queue_New_def)

lemma Enqueue_full: "int (length (q_items q)) \<ge> q_limit q \<Longrightarrow> Queue_Enqueue q t = (Some QueueErrFull, q)"
  by (simp add: Queue_Enqueue_def)

lemma Enqueue_ok:
  assumes "int (length (q_items q)) < q_limit q"
  shows "fst (Queue_Enqueue q t) = None"
    and "queue_contents (snd (Queue_Enqueue q t)) = add_mset t (queue_contents q)"
  using assms by (simp_all add: Queue_Enqueue_def queue_contents_def)

lemma Enqueue_inv: "queue_inv q \<Longrightarrow> queue_inv (snd (Queue_Enqueue q t))"
  by (auto simp: queue_inv_def Queue_Enqueue_def due.heap_on_push)

lemma Enqueue_limit [simp, frame]: "q_limit (snd (Queue_Enqueue q t)) = q_limit q"
  by (simp add: Queue_Enqueue_def)

lemma heap_pop_rest:
  "heap_pop task_less items = (t, rest) \<Longrightarrow> items \<noteq> [] \<Longrightarrow>
   mset items = add_mset t (mset rest) \<and> Suc (length rest) = length items"
  using mset_heap_pop [of items task_less] length_heap_pop [of task_less items] by auto

lemma heap_pop_heap:
  assumes pop: "heap_pop task_less items = (t, rest)" and ne: "items \<noteq> []"
    and h: "due.heap_on items (length items)"
  shows "due.heap_on rest (length rest) \<and> (\<forall>x \<in> set items. task_due_key t \<le> task_due_key x)"
proof -
  have "length items - 1 = length rest" using heap_pop_rest [OF pop ne] by linarith
  then show ?thesis
    using due.heap_on_pop [OF h] due.heap_pop_least [OF h] pop by (simp add: due_le_key)
qed

lemma drain_loop_spec:
  "due.heap_on items (length items) \<Longrightarrow> sorted (map task_due_key out) \<Longrightarrow>
   (\<forall>x \<in> set out. \<forall>y \<in> set items. task_due_key x \<le> task_due_key y) \<Longrightarrow>
   drain_loop items out = (out', items') \<Longrightarrow>
   items' = [] \<and> sorted (map task_due_key out') \<and> mset out' = mset out + mset items"
proof (induction items out rule: drain_loop.induct)
  case (1 items out)
  show ?case
  proof (cases "items = []")
    case True
    with 1 show ?thesis by (simp add: drain_loop.simps)
  next
    case False
    obtain t rest where pop: "heap_pop task_less items = (t, rest)" by fastforce
    note rest = heap_pop_rest [OF pop False] and least = heap_pop_heap [OF pop False "1.prems"(1)]
    have sub: "set rest \<subseteq> set items" "t \<in> set items"
      using rest by (metis mset_subset_eq_add_right set_mset_mono set_mset_mset add_mset_add_single
          subset_mset.le_add_same_cancel1 zero_le, metis set_mset_mset union_single_eq_member)
    have "drain_loop rest (out @ [t]) = (out', items')"
      using "1.prems"(4) False pop by (subst (asm) drain_loop.simps) simp
    moreover have "sorted (map task_due_key (out @ [t]))"
      using "1.prems"(2,3) sub by (auto simp: sorted_append)
    ultimately show ?thesis
      using "1.IH" [OF _ pop [symmetric] refl] False least sub "1.prems"(3) rest by auto
  qed
qed

lemma Drain_spec:
  assumes "queue_inv q" and "Queue_Drain q = (out, q')"
  shows "mset out = queue_contents q" and "sorted (map task_due_key out)"
    and "q' = q\<lparr>q_items := []\<rparr>"
  using assms drain_loop_spec [of "q_items q" "[]"]
  by (auto simp: Queue_Drain_def queue_inv_def queue_contents_def split: if_splits prod.splits)

lemma Drain_inv: "queue_inv q \<Longrightarrow> queue_inv (snd (Queue_Drain q))"
  using Drain_spec(3) [of q] by (cases "Queue_Drain q") (simp add: queue_inv_def due.heap_on_def)

lemma Next_spec:
  assumes "queue_inv q" and "Queue_Next q = ((t, ok), q')" and "q_items q \<noteq> []"
  shows "ok" and "add_mset t (queue_contents q') = queue_contents q" and "queue_inv q'"
    and "\<forall>x \<in># queue_contents q. task_due_key t \<le> task_due_key x"
proof -
  obtain rest where pop: "heap_pop task_less (q_items q) = (t, rest)"
    and res: "ok" "q' = q\<lparr>q_items := rest\<rparr>"
    using assms(2,3) by (auto simp: Queue_Next_def split: prod.splits)
  show "ok" by (rule res)
  show "add_mset t (queue_contents q') = queue_contents q"
    using heap_pop_rest [OF pop assms(3)] res by (simp add: queue_contents_def)
  show "queue_inv q'"
    using heap_pop_rest [OF pop assms(3)] heap_pop_heap [OF pop assms(3)] assms(1) res
    by (simp add: queue_inv_def)
  show "\<forall>x \<in># queue_contents q. task_due_key t \<le> task_due_key x"
    using heap_pop_heap [OF pop assms(3)] assms(1) by (simp add: queue_inv_def queue_contents_def)
qed

lemma Peek_Next: "q_items q \<noteq> [] \<Longrightarrow> Queue_Peek q = fst (Queue_Next q)"
  using due.heap_pop_root [of "q_items q"]
  by (auto simp: Queue_Peek_def Queue_Next_def split: prod.splits)

section \<open>What a client of the queue may rely on\<close>

text \<open>
  A bounded priority queue, seen through the multiset of its contents: what the dispatcher and the
  publisher rely on.  \<open>enq_all\<close> is the client's loop that puts a list of tasks back, ignoring the
  errors, as the dispatcher does.
\<close>

locale prio_queue =
  fixes enq :: "'q \<Rightarrow> 'a \<Rightarrow> 'e option \<times> 'q"
    and drain :: "'q \<Rightarrow> 'a list \<times> 'q"
    and contents :: "'q \<Rightarrow> 'a multiset"
    and limit :: "'q \<Rightarrow> int"
    and inv :: "'q \<Rightarrow> bool"
    and key :: "'a \<Rightarrow> 'k::linorder"
  assumes enq_inv: "inv q \<Longrightarrow> inv (snd (enq q x))"
    and enq_limit: "limit (snd (enq q x)) = limit q"
    and enq_room: "inv q \<Longrightarrow> int (size (contents q)) < limit q \<Longrightarrow>
          fst (enq q x) = None \<and> contents (snd (enq q x)) = add_mset x (contents q)"
    and enq_no_room: "inv q \<Longrightarrow> limit q \<le> int (size (contents q)) \<Longrightarrow>
          fst (enq q x) \<noteq> None \<and> snd (enq q x) = q"
    and inv_limit: "inv q \<Longrightarrow> int (size (contents q)) \<le> limit q"
    and drain_inv: "inv q \<Longrightarrow> inv (snd (drain q))"
    and drain_limit: "inv q \<Longrightarrow> limit (snd (drain q)) = limit q"
    and drain_out: "inv q \<Longrightarrow> mset (fst (drain q)) = contents q"
    and drain_sorted: "inv q \<Longrightarrow> sorted (map key (fst (drain q)))"
    and drain_empty: "inv q \<Longrightarrow> contents (snd (drain q)) = {#}"
begin

fun enq_all :: "'q \<Rightarrow> 'a list \<Rightarrow> 'q" where
  "enq_all q [] = q"
| "enq_all q (x # xs) = enq_all (snd (enq q x)) xs"

lemma enq_all_inv: "inv q \<Longrightarrow> inv (enq_all q xs)"
  by (induction xs arbitrary: q) (auto simp: enq_inv)

lemma enq_all_limit: "limit (enq_all q xs) = limit q"
  by (induction xs arbitrary: q) (auto simp: enq_limit)

lemma enq_all_contents:
  "inv q \<Longrightarrow> int (size (contents q) + length xs) \<le> limit q \<Longrightarrow>
   contents (enq_all q xs) = contents q + mset xs"
proof (induction xs arbitrary: q)
  case Nil
  then show ?case by simp
next
  case (Cons x xs)
  then have "int (size (contents q)) < limit q" by simp
  from enq_room [OF Cons.prems(1) this]
  show ?case using Cons by (simp add: enq_inv enq_limit)
qed

lemma enq_all_full: "inv q \<Longrightarrow> limit q \<le> int (size (contents q)) \<Longrightarrow> enq_all q xs = q"
  by (induction xs) (auto simp: enq_no_room)

lemma drain_requeue:
  assumes "inv q" and "drain q = (out, q')"
  shows "contents (enq_all q' out) = contents q"
proof -
  have "inv q'" "contents q' = {#}" "limit q' = limit q" "mset out = contents q"
    using drain_inv drain_empty drain_limit drain_out assms by (metis fst_conv snd_conv)+
  moreover have "length out = size (contents q)"
    using calculation(4) by (metis size_mset)
  ultimately show ?thesis
    using enq_all_contents [of q' out] inv_limit [OF assms(1)] by simp
qed

end

interpretation wq: prio_queue Queue_Enqueue Queue_Drain queue_contents q_limit queue_inv task_due_key
proof unfold_locales
  fix q :: queue and t :: task
  assume inv: "queue_inv q"
  obtain out q' where d: "Queue_Drain q = (out, q')" by fastforce
  note spec = Drain_spec [OF inv d]
  show "q_limit (snd (Queue_Drain q)) = q_limit q" "mset (fst (Queue_Drain q)) = queue_contents q"
    "sorted (map task_due_key (fst (Queue_Drain q)))" "queue_contents (snd (Queue_Drain q)) = {#}"
    using spec d by (simp_all add: queue_contents_def)
qed (auto simp: Enqueue_inv Drain_inv Enqueue_ok Enqueue_full dest: queue_inv_limit)

section \<open>Properties\<close>

text \<open>Every sequence of calls on a new queue, with the results dropped.\<close>

datatype queue_call = CallEnqueue task | CallNext | CallDrain

fun queue_call_step :: "queue \<Rightarrow> queue_call \<Rightarrow> queue" where
  "queue_call_step q (CallEnqueue t) = snd (Queue_Enqueue q t)"
| "queue_call_step q CallNext = snd (Queue_Next q)"
| "queue_call_step q CallDrain = snd (Queue_Drain q)"

lemma queue_call_step_inv: "queue_inv q \<Longrightarrow> queue_inv (queue_call_step q c)"
proof (cases c)
  case CallNext
  assume inv: "queue_inv q"
  obtain t ok q' where n: "Queue_Next q = ((t, ok), q')" by (metis prod.exhaust)
  then show ?thesis
    using Next_spec(3) [OF inv n] inv CallNext
    by (cases "q_items q = []") (simp_all add: Queue_Next_def)
qed (simp_all add: Enqueue_inv Drain_inv)

lemma queue_calls_inv: "queue_inv q \<Longrightarrow> queue_inv (foldl queue_call_step q cs)"
  by (induction cs arbitrary: q) (auto simp: queue_call_step_inv)

lemma drained_keys:
  assumes "queue_inv q"
  shows "map task_due_key (fst (Queue_Drain q)) = sort (map task_due_key (q_items q))"
proof -
  have "mset (map task_due_key (fst (Queue_Drain q))) = mset (map task_due_key (q_items q))"
    using wq.drain_out [OF assms] by (simp add: queue_contents_def)
  then show ?thesis
    using wq.drain_sorted [OF assms] by (metis properties_for_sort)
qed

text \<open>
  C14: whatever calls were made on a new queue, Drain returns exactly the tasks the heap holds, in
  the order of their due time and id (the sort of their keys), and leaves an empty queue of the
  same limit.
\<close>

theorem drain_returns_all_in_due_order:
  assumes "q = foldl queue_call_step (Queue_New limit) calls"
  shows "mset (fst (Queue_Drain q)) = mset (q_items q)
    \<and> map task_due_key (fst (Queue_Drain q)) = sort (map task_due_key (q_items q))
    \<and> snd (Queue_Drain q) = q\<lparr>q_items := []\<rparr>"
proof -
  have inv: "queue_inv q" using assms by (simp add: queue_calls_inv queue_inv_new)
  show ?thesis
    using Drain_spec [OF inv] drained_keys [OF inv]
    by (cases "Queue_Drain q") (simp add: queue_contents_def)
qed

text \<open>Concrete tasks for the witnesses.\<close>

definition sample_task :: "string \<Rightarrow> time \<Rightarrow> task" where
  "sample_task i due = NewTask i (i @ ''-key'') 1 ''batch'' [] due"

theorem drain_returns_all_in_due_order_witness:
  "map task_due_key (fst (Queue_Drain (foldl queue_call_step (Queue_New 4)
      [CallEnqueue (sample_task ''b'' 7), CallEnqueue (sample_task ''c'' 5),
       CallEnqueue (sample_task ''a'' 7)])))
   = [DueKey 5 ''c'', DueKey 7 ''a'', DueKey 7 ''b'']"
  (is "map task_due_key (fst (Queue_Drain ?q)) = _")
proof -
  have "map task_due_key (fst (Queue_Drain ?q)) = sort (map task_due_key (q_items ?q))"
    using drain_returns_all_in_due_order [OF refl] by blast
  moreover have "map task_due_key (q_items ?q) = [DueKey 5 ''c'', DueKey 7 ''b'', DueKey 7 ''a'']"
    by code_simp
  moreover have "sort [DueKey 5 ''c'', DueKey 7 ''b'', DueKey 7 ''a'']
      = [DueKey 5 ''c'', DueKey 7 ''a'', DueKey 7 ''b'']" by code_simp
  ultimately show ?thesis by simp
qed

text \<open>
  Taking the next task from a queue that calls have filled returns a task no later in due
  order than any other, the one Peek shows, and removes exactly it; a full queue refuses a task
  and stays as it is, and one with room accepts it.
\<close>

theorem next_and_enqueue:
  assumes "q = foldl queue_call_step (Queue_New limit) calls"
  shows "(q_items q \<noteq> [] \<longrightarrow>
      (\<exists>t q'. Queue_Next q = ((t, True), q') \<and> Queue_Peek q = (t, True) \<and>
        mset (q_items q) = add_mset t (mset (q_items q')) \<and>
        (\<forall>x \<in> set (q_items q). \<not> task_less x t)))
    \<and> (Queue_Len q < q_limit q \<longrightarrow>
        fst (Queue_Enqueue q t0) = None \<and>
        mset (q_items (snd (Queue_Enqueue q t0))) = add_mset t0 (mset (q_items q)))
    \<and> (q_limit q \<le> Queue_Len q \<longrightarrow> Queue_Enqueue q t0 = (Some QueueErrFull, q))
    \<and> Queue_Len q \<le> q_limit q"
proof -
  have inv: "queue_inv q" using assms by (simp add: queue_calls_inv queue_inv_new)
  have "\<exists>t q'. Queue_Next q = ((t, True), q') \<and> Queue_Peek q = (t, True) \<and>
        mset (q_items q) = add_mset t (mset (q_items q')) \<and>
        (\<forall>x \<in> set (q_items q). \<not> task_less x t)" if ne: "q_items q \<noteq> []"
  proof -
    obtain t ok q' where n: "Queue_Next q = ((t, ok), q')" by (metis prod.exhaust)
    show ?thesis
      using Next_spec [OF inv n ne] Peek_Next [OF ne] n
      by (auto simp: queue_contents_def task_less_key not_less)
  qed
  then show ?thesis
    using queue_inv_limit [OF inv] Enqueue_ok [of q t0] Enqueue_full [of q t0]
    by (auto simp: Queue_Len_def queue_contents_def)
qed

theorem next_and_enqueue_witness:
  "\<exists>t q'. Queue_Next (foldl queue_call_step (Queue_New 2)
      [CallEnqueue (sample_task ''b'' 7), CallEnqueue (sample_task ''c'' 5)]) = ((t, True), q')
     \<and> task_ID t = ''c''"
  (is "\<exists>t q'. Queue_Next ?q = _ \<and> _")
proof -
  have ne: "q_items ?q \<noteq> []" by code_simp
  then obtain t q' where n: "Queue_Next ?q = ((t, True), q')" "Queue_Peek ?q = (t, True)"
    using next_and_enqueue [OF refl, where limit = 2 and ?t0.0 = zero_task] by blast
  moreover have "task_ID (fst (Queue_Peek ?q)) = ''c''" by code_simp
  ultimately show ?thesis by auto
qed

text \<open>
  The snapshot the queue documents as ordered is the heap's array: after three calls it is
  not in due order.
\<close>

theorem snapshot_not_ordered:
  "\<exists>calls. \<not> sorted (map task_DueAt (Queue_Snapshot (foldl queue_call_step (Queue_New 4) calls)))"
proof -
  have "\<not> sorted (map task_DueAt (Queue_Snapshot (foldl queue_call_step (Queue_New 4)
    [CallEnqueue (sample_task ''a'' 1), CallEnqueue (sample_task ''b'' 3),
     CallEnqueue (sample_task ''c'' 2)])))" by code_simp
  then show ?thesis by blast
qed

end
