(* ===== verification/Ring.thy ===== *)
theory Ring
  imports Model
begin

text \<open>
  The fixed-capacity circular buffer of \<open>internal/store/ring.go\<close>, and the bounded log it implements:
  tasks are only ever added at the end, so it is read as the list of what was pushed.
\<close>

section \<open>The buffer and its operations\<close>

record ring =
  r_buf :: "task list"
  r_head :: nat
  r_count :: nat
  r_cap :: nat

definition NewRing :: "int \<Rightarrow> ring" where
  "NewRing capacity =
     (let c = nat (if capacity < 1 then 1 else capacity)
      in \<lparr>r_buf = replicate c zero_task, r_head = 0, r_count = 0, r_cap = c\<rparr>)"

definition Ring_Push :: "ring \<Rightarrow> task \<Rightarrow> bool \<times> ring" where
  "Ring_Push r t =
     (if r_count r = r_cap r then (False, r)
      else (True, r\<lparr>r_buf := (r_buf r)[(r_head r + r_count r) mod r_cap r := t],
                    r_count := r_count r + 1\<rparr>))"

text \<open>The loop of \<open>Get\<close> over the positions \<open>i < count\<close>.\<close>

function ring_get_loop :: "ring \<Rightarrow> int64 \<Rightarrow> nat \<Rightarrow> task \<times> bool" where
  "ring_get_loop r seq i =
     (if i < r_count r
      then let t = r_buf r ! ((r_head r + i) mod r_cap r)
           in if task_Sequence t = seq then (t, True) else ring_get_loop r seq (i + 1)
      else (zero_task, False))"
  by pat_completeness auto
termination
  by (relation "measure (\<lambda>(r, seq, i). r_count r - i)") auto

declare ring_get_loop.simps [simp del]

definition Ring_Get :: "ring \<Rightarrow> int64 \<Rightarrow> task \<times> bool" where
  "Ring_Get r seq = ring_get_loop r seq 0"

text \<open>\<open>Each\<close> passes a state through its callback, which says whether to go on.\<close>

function ring_each_loop :: "ring \<Rightarrow> (task \<Rightarrow> 's \<Rightarrow> bool \<times> 's) \<Rightarrow> nat \<Rightarrow> 's \<Rightarrow> 's" where
  "ring_each_loop r fn i s =
     (if i < r_count r
      then let (go, s') = fn (r_buf r ! ((r_head r + i) mod r_cap r)) s
           in if \<not> go then s' else ring_each_loop r fn (i + 1) s'
      else s)"
  by pat_completeness auto
termination
  by (relation "measure (\<lambda>(r, fn, i, s). r_count r - i)") auto

declare ring_each_loop.simps [simp del]

definition Ring_Each :: "ring \<Rightarrow> (task \<Rightarrow> 's \<Rightarrow> bool \<times> 's) \<Rightarrow> 's \<Rightarrow> 's" where
  "Ring_Each r fn s = ring_each_loop r fn 0 s"

definition Ring_Len :: "ring \<Rightarrow> nat" where
  "Ring_Len r = r_count r"

section \<open>The list a ring holds\<close>

definition ring_at :: "ring \<Rightarrow> nat \<Rightarrow> task" where
  "ring_at r i = r_buf r ! ((r_head r + i) mod r_cap r)"

definition ring_items :: "ring \<Rightarrow> task list" where
  "ring_items r = map (ring_at r) [0..<r_count r]"

definition ring_inv :: "ring \<Rightarrow> bool" where
  "ring_inv r \<longleftrightarrow> 0 < r_cap r \<and> length (r_buf r) = r_cap r \<and> r_head r < r_cap r \<and> r_count r \<le> r_cap r"

fun each_list :: "(task \<Rightarrow> 's \<Rightarrow> bool \<times> 's) \<Rightarrow> task list \<Rightarrow> 's \<Rightarrow> 's" where
  "each_list fn [] s = s"
| "each_list fn (t # ts) s = (let (go, s') = fn t s in if go then each_list fn ts s' else s')"

lemma length_ring_items [simp]: "length (ring_items r) = r_count r"
  by (simp add: ring_items_def)

lemma ring_items_nth [simp]: "i < r_count r \<Longrightarrow> ring_items r ! i = ring_at r i"
  by (simp add: ring_items_def)

lemma ring_items_drop:
  "i < r_count r \<Longrightarrow> drop i (ring_items r) = ring_at r i # drop (i + 1) (ring_items r)"
  using Cons_nth_drop_Suc [of i "ring_items r"] by (simp add: ring_items_nth)

lemma ring_get_loop_find:
  "ring_get_loop r seq i =
     (case find (\<lambda>t. task_Sequence t = seq) (drop i (ring_items r)) of
        Some t \<Rightarrow> (t, True) | None \<Rightarrow> (zero_task, False))"
proof (induction r seq i rule: ring_get_loop.induct)
  case (1 r seq i)
  then show ?case
    by (subst ring_get_loop.simps) (auto simp: ring_items_drop Let_def ring_at_def)
qed

lemma ring_each_loop_list: "ring_each_loop r fn i s = each_list fn (drop i (ring_items r)) s"
proof (induction r fn i s rule: ring_each_loop.induct)
  case (1 r fn i s)
  then show ?case
    by (subst ring_each_loop.simps)
       (auto simp: ring_items_drop Let_def ring_at_def split: prod.splits)
qed

lemma Ring_Each_list: "Ring_Each r fn s = each_list fn (ring_items r) s"
  by (simp add: Ring_Each_def ring_each_loop_list)

lemma mod_add_inj:
  fixes a c i j :: nat
  assumes "a < c" "i < c" "j < c" "(a + i) mod c = (a + j) mod c"
  shows "i = j"
proof -
  have "(a + k) mod c = (if a + k < c then a + k else a + k - c)" if "k < c" for k
    using assms(1) that by (simp add: le_mod_geq not_less)
  with assms show ?thesis by (auto split: if_splits)
qed

lemma Ring_Push_items:
  assumes "ring_inv r" and "r_count r < r_cap r"
  shows "ring_items (snd (Ring_Push r t)) = ring_items r @ [t]"
proof -
  let ?r = "snd (Ring_Push r t)"
  have at: "ring_at ?r i = (if i = r_count r then t else ring_at r i)" if "i \<le> r_count r" for i
    using assms that mod_add_inj [of "r_head r" "r_cap r" i "r_count r"]
    by (auto simp: Ring_Push_def ring_at_def ring_inv_def nth_list_update)
  have "map (ring_at ?r) [0..<r_count r] = map (ring_at r) [0..<r_count r]"
    by (rule map_cong) (auto simp: at)
  moreover have "r_count ?r = Suc (r_count r)" using assms by (simp add: Ring_Push_def)
  ultimately show ?thesis by (simp add: ring_items_def at)
qed

lemma Ring_Push_inv: "ring_inv r \<Longrightarrow> ring_inv (snd (Ring_Push r t))"
  by (auto simp: ring_inv_def Ring_Push_def)

lemma Ring_Push_cap [simp, frame]: "r_cap (snd (Ring_Push r t)) = r_cap r"
  by (simp add: Ring_Push_def)

lemma NewRing_inv: "ring_inv (NewRing n)"
  by (simp add: ring_inv_def NewRing_def Let_def)

lemma NewRing_items [simp]: "ring_items (NewRing n) = []" "r_count (NewRing n) = 0"
  by (simp_all add: ring_items_def NewRing_def Let_def)

lemma NewRing_cap [simp]: "r_cap (NewRing n) = nat (max 1 n)"
  by (auto simp: NewRing_def Let_def max_def)

section \<open>The interface: a bounded, append-only log\<close>

text \<open>
  What the store relies on: pushes append until the capacity is reached and are refused, without
  effect, from then on; a lookup by sequence finds the first entry with it.
\<close>

locale bounded_log =
  fixes push :: "'r \<Rightarrow> 'a \<Rightarrow> bool \<times> 'r"
    and get :: "'r \<Rightarrow> int \<Rightarrow> 'a \<times> bool"
    and entries :: "'r \<Rightarrow> 'a list"
    and cap :: "'r \<Rightarrow> nat"
    and inv :: "'r \<Rightarrow> bool"
    and seq_of :: "'a \<Rightarrow> int"
    and zero :: 'a
  assumes push_inv: "inv r \<Longrightarrow> inv (snd (push r x))"
    and push_cap: "cap (snd (push r x)) = cap r"
    and push_room: "inv r \<Longrightarrow> length (entries r) < cap r \<Longrightarrow>
          fst (push r x) \<and> entries (snd (push r x)) = entries r @ [x]"
    and push_full: "inv r \<Longrightarrow> length (entries r) = cap r \<Longrightarrow> push r x = (False, r)"
    and bounded: "inv r \<Longrightarrow> length (entries r) \<le> cap r"
    and get_find: "get r s = (case find (\<lambda>x. seq_of x = s) (entries r) of
          Some x \<Rightarrow> (x, True) | None \<Rightarrow> (zero, False))"
begin

lemma push_all:
  "inv r \<Longrightarrow>
   entries (foldl (\<lambda>r x. snd (push r x)) r xs) = entries r @ take (cap r - length (entries r)) xs"
proof (induction xs arbitrary: r)
  case Nil
  then show ?case by simp
next
  case (Cons x xs)
  show ?case
  proof (cases "length (entries r) = cap r")
    case True
    then show ?thesis using Cons push_full [OF Cons.prems True] by simp
  next
    case False
    then have "length (entries r) < cap r" using bounded [OF Cons.prems] by simp
    then show ?thesis
      using Cons.IH [OF push_inv [OF Cons.prems]] push_room [OF Cons.prems]
      by (simp add: push_cap take_Cons' Suc_diff_Suc)
  qed
qed

lemma push_entries:
  "inv r \<Longrightarrow> push r x = (ok, r') \<Longrightarrow> entries r' = (if ok then entries r @ [x] else entries r)"
  using push_room push_full bounded
  by (metis fst_conv snd_conv le_neq_implies_less)

lemma push_ok_iff: "inv r \<Longrightarrow> fst (push r x) \<longleftrightarrow> length (entries r) < cap r"
  using push_room push_full bounded by (metis fst_conv le_neq_implies_less less_irrefl)

lemma get_in: "get r s = (x, True) \<Longrightarrow> x \<in> set (entries r) \<and> seq_of x = s"
  using find_SomeD [of "\<lambda>x. seq_of x = s" "entries r"] by (auto simp: get_find split: option.splits)

lemma get_member:
  "distinct (map seq_of (entries r)) \<Longrightarrow> x \<in> set (entries r) \<Longrightarrow> get r (seq_of x) = (x, True)"
proof -
  assume d: "distinct (map seq_of (entries r))" and x: "x \<in> set (entries r)"
  obtain y where "find (\<lambda>y. seq_of y = seq_of x) (entries r) = Some y"
    using x by (cases "find (\<lambda>y. seq_of y = seq_of x) (entries r)") (auto simp: find_None_iff2)
  moreover from find_SomeD [OF this] have "y = x" using d x by (auto simp: distinct_map inj_on_def)
  ultimately show ?thesis by (simp add: get_find)
qed

end

interpretation ring: bounded_log Ring_Push Ring_Get ring_items r_cap ring_inv task_Sequence zero_task
proof unfold_locales
  fix r :: ring and t :: task
  show "ring_inv r \<Longrightarrow> length (ring_items r) < r_cap r \<Longrightarrow>
      fst (Ring_Push r t) \<and> ring_items (snd (Ring_Push r t)) = ring_items r @ [t]"
    using Ring_Push_items [of r t] by (simp add: Ring_Push_def)
qed (auto simp: Ring_Push_inv Ring_Get_def ring_get_loop_find Ring_Push_def ring_inv_def)

section \<open>Properties\<close>

text \<open>
  C21: the circular buffer refines a bounded log.  After any pushes on a new ring of the requested
  capacity (at least 1), it holds the first of them up to that capacity, in order; the length is
  theirs, a lookup finds the first with the sequence, visiting goes through them in order, and the
  next push is accepted exactly while there is room.
\<close>

theorem ring_refines_bounded_log:
  assumes "r = foldl (\<lambda>r t. snd (Ring_Push r t)) (NewRing capacity) ts"
    and "kept = take (nat (max 1 capacity)) ts"
  shows "ring_items r = kept \<and> Ring_Len r = length kept
    \<and> Ring_Get r seq = (case find (\<lambda>t. task_Sequence t = seq) kept of
         Some t \<Rightarrow> (t, True) | None \<Rightarrow> (zero_task, False))
    \<and> Ring_Each r fn s = each_list fn kept s
    \<and> (fst (Ring_Push r t) \<longleftrightarrow> length ts < nat (max 1 capacity))"
proof -
  have inv: "ring_inv (foldl (\<lambda>r t. snd (Ring_Push r t)) r0 us)" if "ring_inv r0" for r0 us
    using that by (induction us arbitrary: r0) (auto simp: Ring_Push_inv)
  have cap: "r_cap (foldl (\<lambda>r t. snd (Ring_Push r t)) r0 us) = r_cap r0" for r0 us
    by (induction us arbitrary: r0) auto
  have items: "ring_items r = kept"
    using ring.push_all [OF NewRing_inv, of capacity ts] assms by simp
  have len: "r_count r = length kept"
    using items by (metis length_ring_items)
  have "fst (Ring_Push r t) \<longleftrightarrow> length kept < nat (max 1 capacity)"
    using ring.push_ok_iff [OF inv [OF NewRing_inv], of capacity ts t] len assms(1) cap by simp
  moreover have "Ring_Len r = length kept"
    using len by (simp add: Ring_Len_def)
  moreover have "length kept < nat (max 1 capacity) \<longleftrightarrow> length ts < nat (max 1 capacity)"
    using assms(2) by (simp add: min_less_iff_disj)
  ultimately show ?thesis using items by (simp add: ring.get_find Ring_Each_list)
qed

theorem ring_refines_bounded_log_witness:
  "ring_items (foldl (\<lambda>r t. snd (Ring_Push r t)) (NewRing 1) [zero_task, zero_task]) = [zero_task]"
proof -
  have "ring_items (foldl (\<lambda>r t. snd (Ring_Push r t)) (NewRing 1) [zero_task, zero_task])
      = take (nat (max 1 1)) [zero_task, zero_task]"
    by (rule ring_refines_bounded_log [OF refl refl, THEN conjunct1])
  then show ?thesis by simp
qed

end
