(* ===== verification/Store.thy ===== *)
theory Store
  imports Ring
begin

text \<open>
  The task store of \<open>internal/store\<close>: a bounded, sequence-ordered buffer with a committed cursor, the
  set of sequences handed off and the latest execution record of each task; the consumer cursor and
  the backlog summary.
\<close>

section \<open>The store and its operations\<close>

record store =
  s_ring :: ring
  s_seq :: int64
  s_committed :: int64
  s_dispatched :: "int64 set"
  s_records :: "string \<rightharpoonup> inst"

definition NewStore :: "int \<Rightarrow> store" where
  "NewStore capacity =
     \<lparr>s_ring = NewRing capacity, s_seq = 0, s_committed = 0, s_dispatched = {},
      s_records = Map.empty\<rparr>"

definition Store_Append :: "store \<Rightarrow> task \<Rightarrow> (go_error + int64) \<times> store" where
  "Store_Append s t =
     (let s1 = s\<lparr>s_seq := wrap64 (s_seq s + 1)\<rparr>;
          t1 = t\<lparr>task_Sequence := s_seq s1\<rparr>;
          (ok, r) = Ring_Push (s_ring s1) t1;
          s2 = s1\<lparr>s_ring := r\<rparr>
      in if \<not> ok then (Inl StoreErrFull, s2) else (Inr (s_seq s2), s2))"

definition Store_Commit :: "store \<Rightarrow> int64 \<Rightarrow> go_error option \<times> store" where
  "Store_Commit s seq =
     (if seq > s_seq s then (Some ErrInvalidSequence, s)
      else if seq > s_committed s then (None, s\<lparr>s_committed := seq\<rparr>)
      else (None, s))"

definition Store_Cursor :: "store \<Rightarrow> int64" where
  "Store_Cursor s = s_committed s"

text \<open>
  The loop of \<open>Since\<close> counts a 64-bit sequence up to the cursor.  Its increment wraps, so it is an
  option: \<open>None\<close> is a loop that does not end.
\<close>

partial_function (option) since_loop ::
  "ring \<Rightarrow> int64 \<Rightarrow> int64 \<Rightarrow> task list \<Rightarrow> task list option" where
  "since_loop r committed seq out =
     (if seq \<le> committed
      then since_loop r committed (wrap64 (seq + 1))
             (if snd (Ring_Get r seq) then out @ [fst (Ring_Get r seq)] else out)
      else Some out)"

definition Store_Since :: "store \<Rightarrow> int64 \<Rightarrow> (go_error + task list) option" where
  "Store_Since s after =
     map_option Inr (since_loop (s_ring s) (s_committed s) (wrap64 (after + 1)) [])"

definition Store_Pending :: "store \<Rightarrow> task list" where
  "Store_Pending s =
     Ring_Each (s_ring s)
       (\<lambda>t out. (True, if task_Sequence t > s_committed s then out @ [t] else out)) []"

definition Store_Len :: "store \<Rightarrow> nat" where
  "Store_Len s = Ring_Len (s_ring s)"

definition Store_MarkDispatched :: "store \<Rightarrow> int64 \<Rightarrow> bool \<Rightarrow> store" where
  "Store_MarkDispatched s seq dispatched =
     (if seq > s_seq s then s
      else if dispatched then s\<lparr>s_dispatched := insert seq (s_dispatched s)\<rparr>
      else s\<lparr>s_dispatched := s_dispatched s - {seq}\<rparr>)"

fun Store_MarkDispatchedBatch :: "store \<Rightarrow> int64 list \<Rightarrow> bool \<Rightarrow> store" where
  "Store_MarkDispatchedBatch s [] dispatched = s"
| "Store_MarkDispatchedBatch s (seq # seqs) dispatched =
     (if seq > s_seq s then Store_MarkDispatchedBatch s seqs dispatched
      else if dispatched
      then Store_MarkDispatchedBatch (s\<lparr>s_dispatched := insert seq (s_dispatched s)\<rparr>) seqs dispatched
      else Store_MarkDispatchedBatch (s\<lparr>s_dispatched := s_dispatched s - {seq}\<rparr>) seqs dispatched)"

definition Store_Dispatched :: "store \<Rightarrow> int64 \<Rightarrow> bool" where
  "Store_Dispatched s seq \<longleftrightarrow> seq \<in> s_dispatched s"

definition Store_DispatchedCount :: "store \<Rightarrow> nat" where
  "Store_DispatchedCount s = card (s_dispatched s)"

definition Store_RecordTaskExecution :: "store \<Rightarrow> inst \<Rightarrow> store" where
  "Store_RecordTaskExecution s i = s\<lparr>s_records := (s_records s)(inst_TaskID i \<mapsto> i)\<rparr>"

definition Store_ClearTaskRecord :: "store \<Rightarrow> string \<Rightarrow> store" where
  "Store_ClearTaskRecord s taskID = s\<lparr>s_records := (s_records s)(taskID := None)\<rparr>"

definition Store_TaskRecord :: "store \<Rightarrow> string \<Rightarrow> inst option" where
  "Store_TaskRecord s taskID = s_records s taskID"

definition Store_UndispatchedPending :: "store \<Rightarrow> nat" where
  "Store_UndispatchedPending s =
     Ring_Each (s_ring s)
       (\<lambda>t n. (True, if task_Sequence t > s_committed s \<and> task_Sequence t \<notin> s_dispatched s
                     then n + 1 else n)) 0"

definition Store_HighestPending :: "store \<Rightarrow> int64" where
  "Store_HighestPending s =
     Ring_Each (s_ring s)
       (\<lambda>t highest. (True, if task_Sequence t > s_committed s \<and> task_Sequence t > highest
                           then task_Sequence t else highest)) 0"

section \<open>The consumer cursor and the backlog\<close>

record cursor =
  c_pos :: int64

definition NewCursor :: cursor where
  "NewCursor = \<lparr>c_pos = 0\<rparr>"

definition Cursor_Advance :: "cursor \<Rightarrow> int64 \<Rightarrow> cursor" where
  "Cursor_Advance c seq = (if seq > c_pos c then c\<lparr>c_pos := seq\<rparr> else c)"

definition Cursor_Position :: "cursor \<Rightarrow> int64" where
  "Cursor_Position c = c_pos c"

record backlog =
  bl_Pending :: nat
  bl_Committed :: int64
  bl_NextSeq :: int64
  bl_Retained :: nat
  bl_Dispatched :: nat
  bl_Retryable :: nat
  bl_HighestPending :: int64

definition BacklogInfo :: "store \<Rightarrow> backlog" where
  "BacklogInfo s =
     (let next0 = wrap64 (s_seq s + 1);
          pending = Store_Pending s;
          next1 = (if length pending > 0 then task_Sequence (pending ! 0) else next0)
      in \<lparr>bl_Pending = length (Store_Pending s), bl_Committed = Store_Cursor s,
          bl_NextSeq = next1, bl_Retained = Store_Len s,
          bl_Dispatched = Store_DispatchedCount s,
          bl_Retryable = Store_UndispatchedPending s,
          bl_HighestPending = Store_HighestPending s\<rparr>)"

section \<open>The visits as list functions\<close>

definition store_items :: "store \<Rightarrow> task list" where
  "store_items s = ring_items (s_ring s)"

lemma each_filter:
  "each_list (\<lambda>t out. (True, if P t then out @ [t] else out)) ts acc = acc @ filter P ts"
  by (induction ts arbitrary: acc) auto

lemma each_count:
  "each_list (\<lambda>t n. (True, if P t then n + 1 else n)) ts k = k + length (filter P ts)"
  for k :: nat
  by (induction ts arbitrary: k) auto

lemma each_max:
  "each_list (\<lambda>t m. (True, if P t \<and> f t > m then f t else m)) ts (a::int)
     = foldl max a (map f (filter P ts))"
  by (induction ts arbitrary: a) (auto simp: max_def)

lemma Store_Pending_filter:
  "Store_Pending s = filter (\<lambda>t. task_Sequence t > s_committed s) (store_items s)"
  using each_filter [of "\<lambda>t. task_Sequence t > s_committed s" "ring_items (s_ring s)" "[]"]
  by (simp add: Store_Pending_def Ring_Each_list store_items_def)

lemma Store_UndispatchedPending_filter:
  "Store_UndispatchedPending s =
     length (filter (\<lambda>t. task_Sequence t \<notin> s_dispatched s) (Store_Pending s))"
  using each_count [of "\<lambda>t. task_Sequence t > s_committed s \<and> task_Sequence t \<notin> s_dispatched s"
      "ring_items (s_ring s)" 0]
  by (simp add: Store_UndispatchedPending_def Ring_Each_list Store_Pending_filter store_items_def
      conj_commute)

lemma Store_HighestPending_max:
  "Store_HighestPending s = foldl max 0 (map task_Sequence (Store_Pending s))"
  using each_max [of "\<lambda>t. task_Sequence t > s_committed s" task_Sequence "ring_items (s_ring s)" 0]
  by (simp add: Store_HighestPending_def Ring_Each_list Store_Pending_filter store_items_def)

lemma Store_Len_items [simp]: "Store_Len s = length (store_items s)"
  by (simp add: Store_Len_def Ring_Len_def store_items_def)

section \<open>The invariant\<close>

text \<open>
  The sequences in the buffer are strictly increasing, between 1 and the last one assigned; the
  cursor never passes the last one assigned, nor does a mark.
\<close>

definition store_inv :: "store \<Rightarrow> bool" where
  "store_inv s \<longleftrightarrow> ring_inv (s_ring s) \<and>
     0 \<le> s_seq s \<and> s_seq s \<le> max_int64 \<and>
     0 \<le> s_committed s \<and> s_committed s \<le> s_seq s \<and>
     sorted_wrt (<) (map task_Sequence (store_items s)) \<and>
     (\<forall>t \<in> set (store_items s). 0 < task_Sequence t \<and> task_Sequence t \<le> s_seq s) \<and>
     finite (s_dispatched s) \<and> (\<forall>q \<in> s_dispatched s. q \<le> s_seq s)"

lemma store_inv_new: "store_inv (NewStore n)"
  by (simp add: store_inv_def NewStore_def NewRing_inv store_items_def)

lemma store_full_iff: "store_inv s \<Longrightarrow> fst (Ring_Push (s_ring s) t) \<longleftrightarrow> Store_Len s < r_cap (s_ring s)"
  using ring.push_ok_iff [of "s_ring s" t] by (simp add: store_inv_def store_items_def)

lemma Append_result:
  assumes "store_inv s" and "s_seq s < max_int64"
  shows "Store_Append s t =
    (if Store_Len s < r_cap (s_ring s)
     then (Inr (s_seq s + 1),
           s\<lparr>s_seq := s_seq s + 1,
             s_ring := snd (Ring_Push (s_ring s) (t\<lparr>task_Sequence := s_seq s + 1\<rparr>))\<rparr>)
     else (Inl StoreErrFull, s\<lparr>s_seq := s_seq s + 1\<rparr>))"
proof -
  have "wrap64 (s_seq s + 1) = s_seq s + 1"
    using assms by (intro wrap64_succ_nonneg) (simp_all add: store_inv_def)
  moreover have "Ring_Push (s_ring s) u = (False, s_ring s)" if "\<not> Store_Len s < r_cap (s_ring s)" for u
    using that assms(1) ring.push_full [of "s_ring s" u] ring.bounded [of "s_ring s"]
    by (simp add: store_inv_def store_items_def)
  ultimately show ?thesis
    using store_full_iff [OF assms(1), of "t\<lparr>task_Sequence := s_seq s + 1\<rparr>"]
    by (auto simp: Store_Append_def Let_def split: prod.splits)
qed

lemma Append_items:
  assumes "store_inv s" and "s_seq s < max_int64" and "Store_Append s t = (res, s')"
  shows "store_items s' =
    (case res of Inl e \<Rightarrow> store_items s | Inr q \<Rightarrow> store_items s @ [t\<lparr>task_Sequence := q\<rparr>])"
  using Append_result [OF assms(1,2), of t] assms
    ring.push_room [of "s_ring s" "t\<lparr>task_Sequence := s_seq s + 1\<rparr>"]
  by (auto simp: store_items_def store_inv_def split: if_splits)

lemma Append_inv:
  assumes "store_inv s" and "s_seq s < max_int64"
  shows "store_inv (snd (Store_Append s t))"
proof -
  obtain res s' where a: "Store_Append s t = (res, s')" by fastforce
  note items = Append_items [OF assms a] and r = Append_result [OF assms, of t]
  have old: "\<And>u. u \<in> set (store_items s) \<Longrightarrow> task_Sequence u \<le> s_seq s + 1"
    "\<And>q. q \<in> s_dispatched s \<Longrightarrow> q \<le> s_seq s + 1"
    using assms(1) by (fastforce simp: store_inv_def)+
  show ?thesis
    using assms a items r
    by (auto simp: store_inv_def Ring_Push_inv sorted_wrt_append old split: if_splits)
qed

lemma Commit_inv: "store_inv s \<Longrightarrow> store_inv (snd (Store_Commit s q))"
  by (auto simp: store_inv_def Store_Commit_def store_items_def)

lemma MarkDispatched_inv: "store_inv s \<Longrightarrow> store_inv (Store_MarkDispatched s q d)"
  by (auto simp: store_inv_def Store_MarkDispatched_def store_items_def)

lemma MarkDispatchedBatch_fold:
  "Store_MarkDispatchedBatch s qs d = foldl (\<lambda>s q. Store_MarkDispatched s q d) s qs"
  by (induction qs arbitrary: s) (auto simp: Store_MarkDispatched_def)

lemma MarkDispatchedBatch_inv: "store_inv s \<Longrightarrow> store_inv (Store_MarkDispatchedBatch s qs d)"
  by (induction qs arbitrary: s) (auto simp: MarkDispatchedBatch_fold MarkDispatched_inv)

lemma records_inv [simp]:
  "store_inv (Store_RecordTaskExecution s i) = store_inv s"
  "store_inv (Store_ClearTaskRecord s k) = store_inv s"
  by (simp_all add: store_inv_def Store_RecordTaskExecution_def Store_ClearTaskRecord_def store_items_def)

lemma store_frames [simp, frame]:
  "s_ring (Store_MarkDispatched s q d) = s_ring s"
  "s_seq (Store_MarkDispatched s q d) = s_seq s"
  "s_committed (Store_MarkDispatched s q d) = s_committed s"
  "s_records (Store_MarkDispatched s q d) = s_records s"
  "s_ring (snd (Store_Commit s q)) = s_ring s"
  "s_seq (snd (Store_Commit s q)) = s_seq s"
  "s_dispatched (snd (Store_Commit s q)) = s_dispatched s"
  "s_records (snd (Store_Commit s q)) = s_records s"
  "s_ring (Store_RecordTaskExecution s i) = s_ring s"
  "s_seq (Store_RecordTaskExecution s i) = s_seq s"
  "s_committed (Store_RecordTaskExecution s i) = s_committed s"
  "s_dispatched (Store_RecordTaskExecution s i) = s_dispatched s"
  "s_ring (Store_ClearTaskRecord s k) = s_ring s"
  "s_seq (Store_ClearTaskRecord s k) = s_seq s"
  "s_committed (Store_ClearTaskRecord s k) = s_committed s"
  "s_dispatched (Store_ClearTaskRecord s k) = s_dispatched s"
  by (simp_all add: Store_MarkDispatched_def Store_Commit_def Store_RecordTaskExecution_def
      Store_ClearTaskRecord_def)

lemma Append_frames [simp, frame]:
  "s_committed (snd (Store_Append s t)) = s_committed s"
  "s_dispatched (snd (Store_Append s t)) = s_dispatched s"
  "s_records (snd (Store_Append s t)) = s_records s"
  by (simp_all add: Store_Append_def Let_def split: prod.splits)

lemma MarkDispatchedBatch_frames [simp, frame]:
  "s_ring (Store_MarkDispatchedBatch s qs d) = s_ring s"
  "s_seq (Store_MarkDispatchedBatch s qs d) = s_seq s"
  "s_committed (Store_MarkDispatchedBatch s qs d) = s_committed s"
  "s_records (Store_MarkDispatchedBatch s qs d) = s_records s"
  by (induction qs arbitrary: s) (auto simp: MarkDispatchedBatch_fold)

lemma MarkDispatchedBatch_true:
  "s_dispatched (Store_MarkDispatchedBatch s qs True) =
     s_dispatched s \<union> {q \<in> set qs. q \<le> s_seq s}"
  by (induction qs arbitrary: s) (auto simp: MarkDispatchedBatch_fold Store_MarkDispatched_def)

lemma Commit_cursor:
  "s_committed (snd (Store_Commit s q)) = (if q \<le> s_seq s then max (s_committed s) q else s_committed s)"
  by (auto simp: Store_Commit_def)

section \<open>Runs of store calls\<close>

datatype store_call =
  CallAppend task
| CallCommit int64
| CallMark int64 bool
| CallMarkBatch "int64 list" bool
| CallRecord inst
| CallClear string

fun store_step :: "store \<Rightarrow> store_call \<Rightarrow> store" where
  "store_step s (CallAppend t) = snd (Store_Append s t)"
| "store_step s (CallCommit q) = snd (Store_Commit s q)"
| "store_step s (CallMark q d) = Store_MarkDispatched s q d"
| "store_step s (CallMarkBatch qs d) = Store_MarkDispatchedBatch s qs d"
| "store_step s (CallRecord i) = Store_RecordTaskExecution s i"
| "store_step s (CallClear k) = Store_ClearTaskRecord s k"

text \<open>Each call moves the 64-bit sequence by one at most, so a bound on the calls is one on it.\<close>

lemma store_step_inv:
  assumes "store_inv s" and "s_seq s < max_int64"
  shows "store_inv (store_step s c)" and "s_seq (store_step s c) \<le> s_seq s + 1"
proof -
  show "store_inv (store_step s c)"
    using assms
    by (cases c) (simp_all add: Append_inv Commit_inv MarkDispatched_inv MarkDispatchedBatch_inv)
  show "s_seq (store_step s c) \<le> s_seq s + 1"
    using Append_result [OF assms] by (cases c) simp_all
qed

lemma store_calls_inv:
  "store_inv s \<Longrightarrow> s_seq s + int (length cs) \<le> max_int64 \<Longrightarrow>
   store_inv (foldl store_step s cs) \<and> s_seq (foldl store_step s cs) \<le> s_seq s + int (length cs)"
proof (induction cs arbitrary: s)
  case Nil
  then show ?case by simp
next
  case (Cons c cs)
  then have "s_seq s < max_int64" by simp
  note step = store_step_inv [OF Cons.prems(1) this, of c]
  then show ?case using Cons.IH [OF step(1)] Cons.prems(2) by simp
qed

section \<open>Reading committed tasks\<close>

abbreviation seq_between :: "int \<Rightarrow> int \<Rightarrow> task \<Rightarrow> bool" where
  "seq_between a c t \<equiv> a \<le> task_Sequence t \<and> task_Sequence t \<le> c"

lemma filter_between_first:
  "sorted_wrt (<) (map task_Sequence ts) \<Longrightarrow> a \<le> c \<Longrightarrow>
   filter (seq_between a c) ts =
     (case find (\<lambda>t. task_Sequence t = a) ts of Some t \<Rightarrow> [t] | None \<Rightarrow> [])
     @ filter (seq_between (a + 1) c) ts"
proof (induction ts)
  case Nil
  then show ?case by simp
next
  case (Cons t ts)
  show ?case
  proof (cases "task_Sequence t = a")
    case True
    with Cons.prems have "\<forall>u \<in> set ts. a < task_Sequence u" by auto
    then have "filter (seq_between a c) ts = filter (seq_between (a + 1) c) ts"
      by (intro filter_cong) auto
    with True Cons.prems show ?thesis by simp
  next
    case False
    show ?thesis
    proof (cases "a < task_Sequence t")
      case True
      with Cons.prems have "\<forall>u \<in> set ts. task_Sequence u \<noteq> a" by auto
      then have "find (\<lambda>t. task_Sequence t = a) ts = None" by (simp add: find_None_iff2)
      with Cons True show ?thesis by simp
    next
      case below: False
      with Cons False show ?thesis by simp
    qed
  qed
qed

lemma since_loop_returns:
  assumes "sorted_wrt (<) (map task_Sequence (ring_items r))"
    and "min_int64 \<le> q" and "c < max_int64"
  shows "since_loop r c q out = Some (out @ filter (seq_between q c) (ring_items r))"
  using assms(2)
proof (induction "nat (c + 1 - q)" arbitrary: q out rule: less_induct)
  case less
  show ?case
  proof (cases "q \<le> c")
    case False
    then have "filter (seq_between q c) (ring_items r) = []" by (auto simp: filter_empty_conv)
    with False show ?thesis by (simp add: since_loop.simps)
  next
    case True
    then have w: "wrap64 (q + 1) = q + 1" using less.prems assms(3) by (intro wrap64_succ) auto
    have "since_loop r c (q + 1) out' = Some (out' @ filter (seq_between (q + 1) c) (ring_items r))"
      for out' using less.hyps [of "q + 1"] True less.prems by simp
    then show ?thesis
      using True filter_between_first [OF assms(1) True] w
      by (subst since_loop.simps) (simp add: ring.get_find split: option.splits)
  qed
qed

lemma Since_returns:
  assumes "store_inv s" and "s_committed s < max_int64" and "min_int64 \<le> after" and "after < max_int64"
  shows "Store_Since s after =
    Some (Inr (filter (\<lambda>t. after < task_Sequence t \<and> task_Sequence t \<le> s_committed s) (store_items s)))"
proof -
  have "wrap64 (after + 1) = after + 1" using assms(3,4) by simp
  then show ?thesis
    using since_loop_returns [of "s_ring s" "after + 1" "s_committed s" "[]"] assms
    by (simp add: Store_Since_def store_inv_def store_items_def zless_imp_add1_zle
        Suc_le_eq add1_zle_eq conj_commute)
qed

section \<open>The pending tasks\<close>

lemma foldl_max_sorted:
  "sorted_wrt (<) (xs :: int list) \<Longrightarrow> (\<forall>x \<in> set xs. a < x) \<Longrightarrow>
   foldl max a xs = (if xs = [] then a else last xs)"
  by (induction xs arbitrary: a) (auto simp: max_def)

lemma HighestPending_last:
  "store_inv s \<Longrightarrow>
   Store_HighestPending s = (if Store_Pending s = [] then 0 else task_Sequence (last (Store_Pending s)))"
proof -
  assume inv: "store_inv s"
  let ?xs = "map task_Sequence (Store_Pending s)"
  have "sorted_wrt (<) ?xs"
    using inv by (simp add: Store_Pending_filter store_inv_def sorted_wrt_map sorted_wrt_filter)
  moreover have "\<forall>x \<in> set ?xs. 0 < x" using inv by (auto simp: Store_Pending_filter store_inv_def)
  ultimately show ?thesis
    using foldl_max_sorted [of ?xs 0] by (simp add: Store_HighestPending_max last_map)
qed

lemma pending_first_least:
  assumes "store_inv s" and "Store_Pending s \<noteq> []" and "t \<in> set (Store_Pending s)"
  shows "task_Sequence (Store_Pending s ! 0) \<le> task_Sequence t"
proof -
  have "sorted_wrt (<) (map task_Sequence (Store_Pending s))"
    using assms(1) by (simp add: Store_Pending_filter store_inv_def sorted_wrt_map sorted_wrt_filter)
  then show ?thesis using assms(2,3) by (cases "Store_Pending s") auto
qed

lemma committed_pending_split:
  "mset (store_items s) =
     mset (filter (\<lambda>t. task_Sequence t \<le> s_committed s) (store_items s)) + mset (Store_Pending s)"
  by (simp add: Store_Pending_filter not_le [symmetric] multiset_partition [symmetric])

section \<open>Properties\<close>

text \<open>
  C34: after any run of fewer than 2^63 - 1 store calls on a new store, the sequences retained are
  positive, strictly increasing and no larger than the last one assigned, the cursor lies between
  0 and it, and no sequence beyond it is marked as handed off.
\<close>

theorem store_sequences_ordered:
  assumes "int (length calls) \<le> max_int64"
    and "s = foldl store_step (NewStore capacity) calls"
  shows "sorted_wrt (<) (map task_Sequence (store_items s))
    \<and> (\<forall>t \<in> set (store_items s). 0 < task_Sequence t \<and> task_Sequence t \<le> s_seq s)
    \<and> 0 \<le> s_committed s \<and> s_committed s \<le> s_seq s \<and> s_seq s \<le> int (length calls)
    \<and> (\<forall>q. Store_Dispatched s q \<longrightarrow> q \<le> s_seq s)
    \<and> Store_Len s \<le> nat (max 1 capacity)"
proof -
  have seq0: "s_seq (NewStore capacity) = 0" by (simp add: NewStore_def)
  have inv: "store_inv s" "s_seq s \<le> int (length calls)"
    using store_calls_inv [OF store_inv_new, of capacity calls] assms seq0 by auto
  have "r_cap (s_ring (store_step s' c)) = r_cap (s_ring s')" for s' c
    by (cases c) (auto simp: Store_Append_def Let_def split: prod.splits
        dest: arg_cong [where f = "\<lambda>p. r_cap (snd p)"])
  then have "r_cap (s_ring (foldl store_step s' cs)) = r_cap (s_ring s')" for s' cs
    by (induction cs arbitrary: s') auto
  then have "r_cap (s_ring s) = nat (max 1 capacity)" using assms(2) by (simp add: NewStore_def)
  then have "Store_Len s \<le> nat (max 1 capacity)"
    using inv(1) ring.bounded [of "s_ring s"] by (simp add: store_inv_def store_items_def)
  then show ?thesis using inv by (auto simp: store_inv_def Store_Dispatched_def)
qed

theorem store_sequences_ordered_witness:
  "let s = foldl store_step (NewStore 1) [CallAppend zero_task, CallAppend zero_task, CallCommit 1]
   in Store_Len s \<le> 1 \<and> s_seq s \<le> 3 \<and> s_committed s = 1"
proof -
  let ?cs = "[CallAppend zero_task, CallAppend zero_task, CallCommit 1]"
  let ?s = "foldl store_step (NewStore 1) ?cs"
  have n: "int (length ?cs) \<le> max_int64" "int (length ?cs) = 3" "nat (max 1 1) = (1 :: nat)"
    by (simp_all add: max_int64_def)
  have "s_committed ?s = 1" by code_simp
  moreover have "Store_Len ?s \<le> nat (max 1 1) \<and> s_seq ?s \<le> int (length ?cs)"
    using store_sequences_ordered [OF n(1) refl, of 1] by blast
  ultimately show ?thesis unfolding Let_def n(2,3) by blast
qed

text \<open>
  C19: reading from a cursor terminates and is complete.  After any run of fewer than 2^63 - 1
  calls, Since returns, for every position below the largest int64, exactly the retained tasks
  committed after it, in sequence order.
\<close>

theorem since_returns_committed:
  assumes "int (length calls) < max_int64"
    and "s = foldl store_step (NewStore capacity) calls"
    and "min_int64 \<le> after" and "after < max_int64"
  shows "Store_Since s after = Some (Inr (filter
      (\<lambda>t. after < task_Sequence t \<and> task_Sequence t \<le> Store_Cursor s) (ring_items (s_ring s))))"
proof -
  have "store_inv s" "s_seq s \<le> int (length calls)"
    using store_calls_inv [OF store_inv_new, of capacity calls] assms(1,2)
    by (auto simp: NewStore_def)
  then have "s_committed s < max_int64" using assms(1) by (simp add: store_inv_def)
  then show ?thesis
    using Since_returns [OF \<open>store_inv s\<close> _ assms(3,4)] by (simp add: Store_Cursor_def store_items_def)
qed

theorem since_returns_committed_witness:
  "map_option (map_sum id (map task_Sequence)) (Store_Since (foldl store_step (NewStore 4)
      [CallAppend zero_task, CallAppend zero_task, CallAppend zero_task, CallCommit 2]) 0) = Some (Inr [1, 2])"
proof -
  let ?cs = "[CallAppend zero_task, CallAppend zero_task, CallAppend zero_task, CallCommit 2]"
  let ?s = "foldl store_step (NewStore 4) ?cs"
  have n: "int (length ?cs) < max_int64" "min_int64 \<le> 0" "0 < max_int64"
    by (simp_all add: max_int64_def min_int64_def)
  have "map task_Sequence (filter (\<lambda>t. 0 < task_Sequence t \<and> task_Sequence t \<le> Store_Cursor ?s)
      (ring_items (s_ring ?s))) = [1, 2]" by code_simp
  moreover have "Store_Since ?s 0 = Some (Inr (filter
      (\<lambda>t. 0 < task_Sequence t \<and> task_Sequence t \<le> Store_Cursor ?s) (ring_items (s_ring ?s))))"
    by (rule since_returns_committed [OF n(1) refl n(2,3)])
  ultimately show ?thesis by (simp only: option.map map_sum.simps)
qed

text \<open>
  The backlog summary adds up.  After any run of fewer than 2^63 - 1 calls, the retained tasks
  are the committed ones, as Since reads them from 0, and the pending ones; the retryable tasks
  are the pending ones not handed off; the highest pending sequence is that of the last pending
  task, and the next sequence is that of the first or, with none pending, the next to be assigned.
\<close>

theorem backlog_consistent:
  assumes "int (length calls) < max_int64"
    and "s = foldl store_step (NewStore capacity) calls"
  shows "bl_Retained (BacklogInfo s) =
        length (filter (\<lambda>t. task_Sequence t \<le> Store_Cursor s) (store_items s)) + bl_Pending (BacklogInfo s)
    \<and> (\<exists>ts. Store_Since s 0 = Some (Inr ts) \<and> bl_Retained (BacklogInfo s) = length ts + bl_Pending (BacklogInfo s))
    \<and> bl_Retryable (BacklogInfo s) =
        length (filter (\<lambda>t. \<not> Store_Dispatched s (task_Sequence t)) (Store_Pending s))
    \<and> (case Store_Pending s of
         [] \<Rightarrow> bl_HighestPending (BacklogInfo s) = 0 \<and> bl_NextSeq (BacklogInfo s) = s_seq s + 1
       | t # ts \<Rightarrow> bl_HighestPending (BacklogInfo s) = task_Sequence (last (t # ts))
           \<and> bl_NextSeq (BacklogInfo s) = task_Sequence t)"
proof -
  have inv: "store_inv s" "s_seq s \<le> int (length calls)"
    using store_calls_inv [OF store_inv_new, of capacity calls] assms by (auto simp: NewStore_def)
  then have "wrap64 (s_seq s + 1) = s_seq s + 1"
    using assms(1) by (intro wrap64_succ_nonneg) (auto simp: store_inv_def)
  moreover have split: "length (store_items s) =
      length (filter (\<lambda>t. task_Sequence t \<le> s_committed s) (store_items s)) + length (Store_Pending s)"
    using arg_cong [OF committed_pending_split [of s], of size] by (simp del: mset_filter)
  moreover have "Store_Since s 0 = Some (Inr (filter (\<lambda>t. task_Sequence t \<le> s_committed s) (store_items s)))"
  proof -
    have "filter (\<lambda>t. 0 < task_Sequence t \<and> task_Sequence t \<le> s_committed s) (store_items s)
        = filter (\<lambda>t. task_Sequence t \<le> s_committed s) (store_items s)"
      using inv(1) by (intro filter_cong) (auto simp: store_inv_def)
    then show ?thesis using Since_returns [OF inv(1), of 0] inv assms(1) by (simp add: store_inv_def)
  qed
  ultimately show ?thesis
    using HighestPending_last [OF inv(1)]
    by (auto simp: BacklogInfo_def Let_def Store_Cursor_def Store_Dispatched_def
        Store_UndispatchedPending_filter split: list.split)
qed

theorem backlog_consistent_witness:
  "let s = foldl store_step (NewStore 4) [CallAppend zero_task, CallAppend zero_task, CallCommit 1]
   in bl_NextSeq (BacklogInfo s) = 2 \<and> bl_HighestPending (BacklogInfo s) = 2"
proof -
  let ?cs = "[CallAppend zero_task, CallAppend zero_task, CallCommit 1]"
  let ?s = "foldl store_step (NewStore 4) ?cs"
  have n: "int (length ?cs) < max_int64" by (simp add: max_int64_def)
  have p: "map task_Sequence (Store_Pending ?s) = [2]" by code_simp
  then obtain t where t: "Store_Pending ?s = [t]" "task_Sequence t = 2" by auto
  have "case Store_Pending ?s of
         [] \<Rightarrow> bl_HighestPending (BacklogInfo ?s) = 0 \<and> bl_NextSeq (BacklogInfo ?s) = s_seq ?s + 1
       | t # ts \<Rightarrow> bl_HighestPending (BacklogInfo ?s) = task_Sequence (last (t # ts))
           \<and> bl_NextSeq (BacklogInfo ?s) = task_Sequence t"
    using backlog_consistent [OF n refl, of 4] by blast
  then show ?thesis unfolding Let_def t(1) by (simp only: list.case last.simps t(2) if_True simp_thms)
qed

text \<open>
  A store that has filled up never recovers.  Once the retained tasks reach the capacity, no
  run of store calls (commits included) makes room: the retained tasks stay the same and every
  further Append is refused.
\<close>

theorem full_store_stays_full:
  assumes "int (length calls) + int (length later) < max_int64"
    and "s = foldl store_step (NewStore capacity) calls"
    and "Store_Len s = r_cap (s_ring s)"
  shows "store_items (foldl store_step s later) = store_items s
    \<and> fst (Store_Append (foldl store_step s later) t) = Inl StoreErrFull"
proof -
  have inv0: "store_inv s" "s_seq s \<le> int (length calls)"
    using store_calls_inv [OF store_inv_new, of capacity calls] assms by (auto simp: NewStore_def)
  have "s_ring (foldl store_step s' cs) = s_ring s'"
    if "store_inv s'" "s_seq s' + int (length cs) < max_int64" "Store_Len s' = r_cap (s_ring s')" for s' cs
    using that
  proof (induction cs arbitrary: s')
    case (Cons c cs)
    then have seq: "s_seq s' < max_int64" by simp
    have ring: "s_ring (store_step s' c) = s_ring s'"
      using Append_result [OF Cons.prems(1) seq] Cons.prems(3) by (cases c) simp_all
    moreover have "Store_Len (store_step s' c) = r_cap (s_ring (store_step s' c))"
      using ring Cons.prems(3) by (simp add: Store_Len_def Ring_Len_def del: Store_Len_items)
    ultimately show ?case
      using Cons.IH [OF store_step_inv(1) [OF Cons.prems(1) seq]] Cons.prems
        store_step_inv(2) [OF Cons.prems(1) seq, of c] by simp
  qed simp
  then have ring: "s_ring (foldl store_step s later) = s_ring s"
    using inv0 assms(1,3) by simp
  note inv = store_calls_inv [OF inv0(1), of later]
  have "Store_Len (foldl store_step s later) = r_cap (s_ring (foldl store_step s later))"
    using ring assms(3) by (simp add: Store_Len_def Ring_Len_def del: Store_Len_items)
  then show ?thesis
    using ring Append_result [of "foldl store_step s later" t] inv inv0 assms(1)
    by (simp add: store_items_def)
qed

theorem full_store_stays_full_witness:
  "fst (Store_Append (foldl store_step (foldl store_step (NewStore 1) [CallAppend zero_task]) [CallCommit 1]) zero_task)
     = Inl StoreErrFull"
proof -
  let ?s = "foldl store_step (NewStore 1) [CallAppend zero_task]"
  have n: "int (length [CallAppend zero_task]) + int (length [CallCommit 1]) < max_int64"
    by (simp add: max_int64_def)
  have "Store_Len ?s = r_cap (s_ring ?s)" by code_simp
  from full_store_stays_full [OF n refl this] show ?thesis by blast
qed

text \<open>
  A refused Append still consumes a sequence number, and Commit accepts it: on a full store,
  committing the sequence of the refused task reports no error, although that sequence was never
  stored.
\<close>

theorem refused_append_burns_sequence:
  assumes "int (length calls) < max_int64"
    and "s = foldl store_step (NewStore capacity) calls"
    and "Store_Append s t = (Inl e, s')"
  shows "e = StoreErrFull \<and> s_seq s' = s_seq s + 1 \<and> store_items s' = store_items s
    \<and> \<not> snd (Ring_Get (s_ring s') (s_seq s'))
    \<and> fst (Store_Commit s' (s_seq s')) = None
    \<and> Store_Pending (snd (Store_Commit s' (s_seq s'))) = []"
proof -
  have inv: "store_inv s" "s_seq s < max_int64"
    using store_calls_inv [OF store_inv_new, of capacity calls] assms by (auto simp: NewStore_def)
  have r: "e = StoreErrFull" "s' = s\<lparr>s_seq := s_seq s + 1\<rparr>"
    using Append_result [OF inv, of t] assms(3) by (auto split: if_splits)
  have old: "\<forall>u \<in> set (store_items s). task_Sequence u \<le> s_seq s"
    using inv by (simp add: store_inv_def)
  then have "find (\<lambda>u. task_Sequence u = s_seq s + 1) (store_items s) = None"
    by (auto simp: find_None_iff2)
  then show ?thesis
    using r old inv
    by (auto simp: store_items_def ring.get_find Store_Commit_def Store_Pending_filter store_inv_def
        filter_empty_conv)
qed

theorem refused_append_burns_sequence_witness:
  "let s = foldl store_step (NewStore 1) [CallAppend zero_task]; s' = snd (Store_Append s zero_task)
   in fst (Store_Commit s' (s_seq s')) = None \<and> Store_Pending (snd (Store_Commit s' (s_seq s'))) = []"
proof -
  let ?s = "foldl store_step (NewStore 1) [CallAppend zero_task]"
  have n: "int (length [CallAppend zero_task]) < max_int64" by (simp add: max_int64_def)
  have "fst (Store_Append ?s zero_task) = Inl StoreErrFull" by code_simp
  then have "Store_Append ?s zero_task = (Inl StoreErrFull, snd (Store_Append ?s zero_task))"
    by (metis prod.collapse)
  from refused_append_burns_sequence [OF n refl this] show ?thesis unfolding Let_def by blast
qed

end
