(* ===== verification/Registry.thy ===== *)
theory Registry
  imports Model
begin

text \<open>
  The task table of \<open>internal/registry\<close>: tasks by id, the ids of each group in registration order,
  a version counter per group and an incarnation counter per id.
\<close>

section \<open>The table and its operations\<close>

record registry =
  rg_byID :: "(string, task) gomap"
  rg_versions :: "string \<rightharpoonup> uint64"
  rg_incarnations :: "string \<rightharpoonup> uint64"
  rg_groups :: "string \<rightharpoonup> string list"

text \<open>Reading a missing key of a counter map gives 0, of a slice map the nil slice.\<close>

definition counter_at :: "('k \<rightharpoonup> uint64) \<Rightarrow> 'k \<Rightarrow> uint64" where
  "counter_at m k = (case m k of None \<Rightarrow> 0 | Some v \<Rightarrow> v)"

definition counter_inc :: "'k \<Rightarrow> ('k \<rightharpoonup> uint64) \<Rightarrow> ('k \<rightharpoonup> uint64)" where
  "counter_inc k m = m(k \<mapsto> counter_at m k + 1)"

definition Registry_New :: registry where
  "Registry_New = \<lparr>rg_byID = [], rg_versions = Map.empty, rg_incarnations = Map.empty,
     rg_groups = Map.empty\<rparr>"

definition Registry_GroupTasks :: "registry \<Rightarrow> string \<Rightarrow> string list" where
  "Registry_GroupTasks r g = (case rg_groups r g of None \<Rightarrow> [] | Some ids \<Rightarrow> ids)"

definition Registry_Register :: "registry \<Rightarrow> task \<Rightarrow> registry" where
  "Registry_Register r t =
     (let tid = task_ID t; g = task_Group t;
          inc = (case gget (rg_byID r) tid of
                   Some old \<Rightarrow>
                     if task_State old = TaskDone \<or> task_State old = TaskRemoved
                     then counter_inc tid (rg_incarnations r) else rg_incarnations r
                 | None \<Rightarrow> (rg_incarnations r)(tid \<mapsto> 1))
      in r\<lparr>rg_incarnations := inc,
           rg_byID := gput tid t (rg_byID r),
           rg_groups := (rg_groups r)(g \<mapsto> Registry_GroupTasks r g @ [tid]),
           rg_versions := counter_inc g (rg_versions r)\<rparr>)"

definition Registry_Delete :: "registry \<Rightarrow> string \<Rightarrow> registry" where
  "Registry_Delete r tid =
     (case gget (rg_byID r) tid of
        None \<Rightarrow> r
      | Some t \<Rightarrow>
          let g = task_Group t
          in r\<lparr>rg_byID := gdel tid (rg_byID r),
               rg_groups := (case rg_groups r g of
                               None \<Rightarrow> rg_groups r
                             | Some ids \<Rightarrow> (rg_groups r)(g \<mapsto> filter (\<lambda>e. e \<noteq> tid) ids)),
               rg_versions := counter_inc g (rg_versions r)\<rparr>)"

definition Registry_Get :: "registry \<Rightarrow> string \<Rightarrow> task option" where
  "Registry_Get r tid = gget (rg_byID r) tid"

definition Registry_SetState :: "registry \<Rightarrow> string \<Rightarrow> task_state \<Rightarrow> registry" where
  "Registry_SetState r tid st =
     (case gget (rg_byID r) tid of
        Some t \<Rightarrow> r\<lparr>rg_byID := gput tid (t\<lparr>task_State := st\<rparr>) (rg_byID r),
                     rg_versions := counter_inc (task_Group t) (rg_versions r)\<rparr>
      | None \<Rightarrow> r)"

definition Registry_Version :: "registry \<Rightarrow> string \<Rightarrow> uint64" where
  "Registry_Version r g = counter_at (rg_versions r) g"

definition Registry_Incarnation :: "registry \<Rightarrow> string \<Rightarrow> uint64" where
  "Registry_Incarnation r tid = counter_at (rg_incarnations r) tid"

definition Registry_Alive :: "registry \<Rightarrow> string \<Rightarrow> bool" where
  "Registry_Alive r tid =
     (case gget (rg_byID r) tid of None \<Rightarrow> False | Some t \<Rightarrow> task_State t \<noteq> TaskRemoved)"

text \<open>\<open>List\<close> collects the table in the order \<open>ks\<close> of its keys and sorts by id.\<close>

definition Registry_List :: "registry \<Rightarrow> string list \<Rightarrow> task list" where
  "Registry_List r ks = sort_key task_ID (map snd (grange (rg_byID r) ks))"

record task_view =
  tv_ID :: string
  tv_Group :: string
  tv_State :: task_state
  tv_StateText :: string
  tv_DueAt :: string

text \<open>The rendering of an instant in the console's layout is an argument.\<close>

definition Registry_Snapshot :: "(time \<Rightarrow> string) \<Rightarrow> registry \<Rightarrow> string list \<Rightarrow> task_view list" where
  "Registry_Snapshot format r ks =
     map (\<lambda>t. \<lparr>tv_ID = task_ID t, tv_Group = task_Group t, tv_State = task_State t,
                tv_StateText = TaskState_String (task_state_iota (task_State t)),
                tv_DueAt = format (task_DueAt t)\<rparr>)
       (Registry_List r ks)"

section \<open>Reading the table after each operation\<close>

lemma counter_at_inc [simp]:
  "counter_at (counter_inc k m) k' = (if k' = k then counter_at m k + 1 else counter_at m k')"
  by (simp add: counter_at_def counter_inc_def)

lemma Register_reads [simp]:
  "Registry_Get (Registry_Register r t) tid = (if tid = task_ID t then Some t else Registry_Get r tid)"
  "Registry_GroupTasks (Registry_Register r t) g =
     (if g = task_Group t then Registry_GroupTasks r g @ [task_ID t] else Registry_GroupTasks r g)"
  "Registry_Version (Registry_Register r t) g =
     (if g = task_Group t then Registry_Version r g + 1 else Registry_Version r g)"
  by (simp_all add: Registry_Register_def Registry_Get_def Registry_GroupTasks_def
      Registry_Version_def Let_def)

lemma Delete_reads:
  "Registry_Get (Registry_Delete r tid) i = (if i = tid then None else Registry_Get r i)"
  "Registry_GroupTasks (Registry_Delete r tid) g =
     (case Registry_Get r tid of
        Some t \<Rightarrow> if g = task_Group t then filter (\<lambda>e. e \<noteq> tid) (Registry_GroupTasks r g)
                  else Registry_GroupTasks r g
      | None \<Rightarrow> Registry_GroupTasks r g)"
  "Registry_Version (Registry_Delete r tid) g =
     (case Registry_Get r tid of
        Some t \<Rightarrow> if g = task_Group t then Registry_Version r g + 1 else Registry_Version r g
      | None \<Rightarrow> Registry_Version r g)"
  by (auto simp: Registry_Delete_def Registry_Get_def Registry_GroupTasks_def
      Registry_Version_def Let_def split: option.splits)

lemma SetState_reads:
  "Registry_Get (Registry_SetState r tid st) i =
     (if i = tid then map_option (\<lambda>t. t\<lparr>task_State := st\<rparr>) (Registry_Get r i) else Registry_Get r i)"
  "Registry_GroupTasks (Registry_SetState r tid st) g = Registry_GroupTasks r g"
  "Registry_Version (Registry_SetState r tid st) g =
     (case Registry_Get r tid of
        Some t \<Rightarrow> if g = task_Group t then Registry_Version r g + 1 else Registry_Version r g
      | None \<Rightarrow> Registry_Version r g)"
  by (auto simp: Registry_SetState_def Registry_Get_def Registry_GroupTasks_def
      Registry_Version_def split: option.splits)

lemma Alive_Get:
  "Registry_Alive r tid \<longleftrightarrow> (\<exists>t. Registry_Get r tid = Some t \<and> task_State t \<noteq> TaskRemoved)"
  by (auto simp: Registry_Alive_def Registry_Get_def split: option.splits)

section \<open>The invariant\<close>

text \<open>
  Every task is stored under its own id and listed in its group.  While no id is registered again
  under another group, every id listed in a group is that of a registered task of the group.
\<close>

definition registry_inv :: "registry \<Rightarrow> bool" where
  "registry_inv r \<longleftrightarrow> gwf (rg_byID r) \<and>
     (\<forall>tid t. Registry_Get r tid = Some t \<longrightarrow>
        task_ID t = tid \<and> tid \<in> set (Registry_GroupTasks r (task_Group t)))"

definition groups_pure :: "registry \<Rightarrow> bool" where
  "groups_pure r \<longleftrightarrow>
     (\<forall>g tid. tid \<in> set (Registry_GroupTasks r g) \<longrightarrow>
        (\<exists>t. Registry_Get r tid = Some t \<and> task_Group t = g))"

datatype registry_call =
  CallRegister task
| CallDelete string
| CallSetState string task_state

fun registry_step :: "registry \<Rightarrow> registry_call \<Rightarrow> registry" where
  "registry_step r (CallRegister t) = Registry_Register r t"
| "registry_step r (CallDelete tid) = Registry_Delete r tid"
| "registry_step r (CallSetState tid st) = Registry_SetState r tid st"

fun keeps_group :: "registry \<Rightarrow> registry_call \<Rightarrow> bool" where
  "keeps_group r (CallRegister t) =
     (case Registry_Get r (task_ID t) of None \<Rightarrow> True | Some old \<Rightarrow> task_Group old = task_Group t)"
| "keeps_group r _ = True"

lemma gwf_step: "gwf (rg_byID r) \<Longrightarrow> gwf (rg_byID (registry_step r c))"
  by (cases c) (auto simp: Registry_Register_def Registry_Delete_def Registry_SetState_def Let_def
      split: option.splits)

lemma registry_inv_new: "registry_inv Registry_New"
  by (simp add: registry_inv_def Registry_New_def Registry_Get_def)

lemma registry_step_inv: "registry_inv r \<Longrightarrow> registry_inv (registry_step r c)"
  using gwf_step [of r c]
  by (cases c)
    (auto simp: registry_inv_def Delete_reads SetState_reads split: option.splits if_splits; metis)+

lemma registry_calls_inv: "registry_inv r \<Longrightarrow> registry_inv (foldl registry_step r cs)"
  by (induction cs arbitrary: r) (auto simp: registry_step_inv)

lemma groups_pure_new: "groups_pure Registry_New"
  by (simp add: groups_pure_def Registry_New_def Registry_GroupTasks_def)

lemma groups_pure_step:
  assumes "groups_pure r" and "keeps_group r c"
  shows "groups_pure (registry_step r c)"
proof (cases c)
  case (CallRegister t)
  have "Registry_Get r (task_ID t) = Some old \<Longrightarrow> task_Group old = task_Group t" for old
    using assms(2) CallRegister by simp
  then show ?thesis
    using assms(1) CallRegister by (fastforce simp: groups_pure_def)
next
  case (CallDelete tid)
  then show ?thesis
    using assms(1) by (fastforce simp: groups_pure_def Delete_reads split: option.splits if_splits)
next
  case (CallSetState tid st)
  then show ?thesis
    using assms(1) by (fastforce simp: groups_pure_def SetState_reads split: if_splits)
qed

section \<open>Listing\<close>

lemma Registry_List_mset:
  assumes "gwf (rg_byID r)" and "range_order (rg_byID r) ks"
  shows "mset (Registry_List r ks) = mset (map snd (rg_byID r))"
  using mset_grange [OF assms] by (simp add: Registry_List_def)

lemma Registry_List_sorted: "sorted (map task_ID (Registry_List r ks))"
  by (simp add: Registry_List_def)

lemma Registry_List_set:
  assumes "gwf (rg_byID r)" and "range_order (rg_byID r) ks"
  shows "t \<in> set (Registry_List r ks) \<longleftrightarrow> (\<exists>tid. Registry_Get r tid = Some t)"
proof -
  have "set (Registry_List r ks) = set (map snd (rg_byID r))"
    using Registry_List_mset [OF assms] by (rule mset_eq_setD)
  moreover have "distinct (map fst (rg_byID r))" using assms(1) by (simp add: gwf_def gkeys_def)
  ultimately show ?thesis by (force simp: Registry_Get_def)
qed

lemma Registry_List_strict:
  assumes "registry_inv r" and "range_order (rg_byID r) ks"
  shows "sorted_wrt (<) (map task_ID (Registry_List r ks))"
proof -
  have wf: "gwf (rg_byID r)" using assms(1) by (simp add: registry_inv_def)
  have "\<forall>(k, t) \<in> set (rg_byID r). task_ID t = k"
    using assms(1) wf by (auto simp: registry_inv_def Registry_Get_def gwf_def gkeys_def)
  then have "map (task_ID \<circ> snd) (rg_byID r) = map fst (rg_byID r)" by auto
  then have "mset (map task_ID (Registry_List r ks)) = mset (gkeys (rg_byID r))"
    using Registry_List_mset [OF wf assms(2)]
    by (metis gkeys_def list.map_comp mset_map)
  then have "distinct (map task_ID (Registry_List r ks))"
    using wf by (metis gwf_def mset_eq_imp_distinct_iff)
  then show ?thesis
    using Registry_List_sorted [of r ks] by (simp add: strict_sorted_iff)
qed

lemma Registry_List_order_irrelevant:
  assumes "registry_inv r" and "range_order (rg_byID r) ks" and "range_order (rg_byID r) ks'"
  shows "Registry_List r ks = Registry_List r ks'"
proof (rule map_sorted_distinct_set_unique [where f = task_ID])
  have wf: "gwf (rg_byID r)" using assms(1) by (simp add: registry_inv_def)
  show "set (Registry_List r ks) = set (Registry_List r ks')"
    using Registry_List_mset [OF wf] assms(2,3) by (metis mset_eq_setD)
  show "inj_on task_ID (set (Registry_List r ks) \<union> set (Registry_List r ks'))"
    using Registry_List_set [OF wf] assms by (fastforce simp: inj_on_def registry_inv_def)
qed (use Registry_List_strict assms in \<open>auto simp: strict_sorted_iff\<close>)

section \<open>Properties\<close>

text \<open>
  Whatever calls were made on a new registry and in whatever order Go visits the map, the
  listing holds exactly the registered tasks, each under its own id, in strictly increasing order
  of id, so it does not depend on that order.
\<close>

theorem registry_list_complete:
  assumes "r = foldl registry_step Registry_New calls"
    and "range_order (rg_byID r) ks" and "range_order (rg_byID r) ks'"
  shows "sorted_wrt (<) (map task_ID (Registry_List r ks))
    \<and> (\<forall>t. t \<in> set (Registry_List r ks) \<longleftrightarrow> Registry_Get r (task_ID t) = Some t)
    \<and> Registry_List r ks = Registry_List r ks'"
proof -
  have inv: "registry_inv r"
    using assms(1) by (simp add: registry_calls_inv registry_inv_new)
  then have "t \<in> set (Registry_List r ks) \<longleftrightarrow> Registry_Get r (task_ID t) = Some t" for t
    using Registry_List_set [of r ks t] assms(2) by (auto simp: registry_inv_def)
  then show ?thesis
    using Registry_List_strict [OF inv assms(2)] Registry_List_order_irrelevant [OF inv assms(2,3)]
    by blast
qed

theorem registry_list_complete_witness:
  "let r = foldl registry_step Registry_New
       [CallRegister (zero_task\<lparr>task_ID := ''b''\<rparr>), CallRegister (zero_task\<lparr>task_ID := ''a''\<rparr>)]
   in Registry_List r [''b'', ''a''] = Registry_List r [''a'', ''b'']
      \<and> sorted_wrt (<) (map task_ID (Registry_List r [''b'', ''a'']))"
proof -
  let ?cs = "[CallRegister (zero_task\<lparr>task_ID := ''b''\<rparr>), CallRegister (zero_task\<lparr>task_ID := ''a''\<rparr>)]"
  let ?r = "foldl registry_step Registry_New ?cs"
  have k: "gkeys (rg_byID ?r) = [''b'', ''a'']" by code_simp
  have "range_order (rg_byID ?r) [''b'', ''a'']" "range_order (rg_byID ?r) [''a'', ''b'']"
    unfolding range_order_def k by simp_all
  from registry_list_complete [OF refl this] show ?thesis unfolding Let_def by blast
qed

text \<open>
  Registering an id that is known and not finished keeps its incarnation, registering one that
  is done or removed raises it by one, and registering an unknown one sets it to 1; so a deleted
  id, whatever its history, starts again at incarnation 1.  Every registration appends the id to
  its group, so an id registered twice is listed twice.
\<close>

theorem register_incarnation:
  "Registry_Incarnation (Registry_Register r t) (task_ID t) =
     (case Registry_Get r (task_ID t) of
        None \<Rightarrow> 1
      | Some old \<Rightarrow> if task_State old = TaskDone \<or> task_State old = TaskRemoved
                    then Registry_Incarnation r (task_ID t) + 1
                    else Registry_Incarnation r (task_ID t))
   \<and> Registry_Incarnation (Registry_Register (Registry_Delete r (task_ID t)) t) (task_ID t) = 1
   \<and> count_list (Registry_GroupTasks (Registry_Register (Registry_Register r t) t) (task_Group t)) (task_ID t)
       = count_list (Registry_GroupTasks r (task_Group t)) (task_ID t) + 2"
proof -
  have "Registry_Incarnation (Registry_Register r' t) (task_ID t) =
     (case Registry_Get r' (task_ID t) of
        None \<Rightarrow> 1
      | Some old \<Rightarrow> if task_State old = TaskDone \<or> task_State old = TaskRemoved
                    then Registry_Incarnation r' (task_ID t) + 1
                    else Registry_Incarnation r' (task_ID t))" for r'
    by (auto simp: Registry_Incarnation_def Registry_Register_def Registry_Get_def Let_def
        counter_at_def counter_inc_def split: option.split)
  then show ?thesis by (simp add: Delete_reads)
qed

end
