(* ===== verification/Deps.thy ===== *)
theory Deps
  imports Model
begin

text \<open>
  The dependency graph of \<open>internal/deps\<close>: for each task the set of dependencies it still waits
  for and their number, and for each dependency a reference count.
\<close>

section \<open>The graph and its operations\<close>

record node =
  n_dependents :: "string set"
  n_pending :: int

record graph =
  g_nodes :: "(string, node) gomap"
  g_refs :: "string \<rightharpoonup> int"

definition Graph_New :: graph where
  "Graph_New = \<lparr>g_nodes = [], g_refs = Map.empty\<rparr>"

definition ref_at :: "(string \<rightharpoonup> int) \<Rightarrow> string \<Rightarrow> int" where
  "ref_at m k = (case m k of None \<Rightarrow> 0 | Some n \<Rightarrow> n)"

text \<open>The loop of \<open>Add\<close> over the dependency list, on the node and the reference counts.\<close>

fun graph_add_loop :: "string list \<Rightarrow> node \<Rightarrow> (string \<rightharpoonup> int) \<Rightarrow> node \<times> (string \<rightharpoonup> int)" where
  "graph_add_loop [] n refs = (n, refs)"
| "graph_add_loop (d # ds) n refs =
     (if d = [] then graph_add_loop ds n refs
      else if d \<notin> n_dependents n
      then graph_add_loop ds (n\<lparr>n_dependents := insert d (n_dependents n), n_pending := n_pending n + 1\<rparr>)
             (refs(d \<mapsto> ref_at refs d + 1))
      else graph_add_loop ds n refs)"

definition Graph_Add :: "graph \<Rightarrow> string \<Rightarrow> string list \<Rightarrow> graph" where
  "Graph_Add g taskID dependsOn =
     (let n = (case gget (g_nodes g) taskID of
                 None \<Rightarrow> \<lparr>n_dependents = {}, n_pending = 0\<rparr> | Some n \<Rightarrow> n);
          (n', refs') = graph_add_loop dependsOn n (g_refs g)
      in g\<lparr>g_nodes := gput taskID n' (g_nodes g), g_refs := refs'\<rparr>)"

text \<open>What \<open>Satisfy\<close> and \<open>clearRefs\<close> do to each node they visit.\<close>

definition node_drop :: "string \<Rightarrow> node \<Rightarrow> node" where
  "node_drop dep n =
     (if dep \<in> n_dependents n
      then n\<lparr>n_dependents := n_dependents n - {dep},
             n_pending := (if n_pending n > 0 then n_pending n - 1 else n_pending n)\<rparr>
      else n)"

text \<open>The visit of every node, and the number of nodes it drops the dependency from.\<close>

fun nodes_drop :: "string \<Rightarrow> (string, node) gomap \<Rightarrow> (string, node) gomap" where
  "nodes_drop dep [] = []"
| "nodes_drop dep ((k, n) # m) = (k, node_drop dep n) # nodes_drop dep m"

fun count_waiting :: "string \<Rightarrow> (string, node) gomap \<Rightarrow> nat" where
  "count_waiting dep [] = 0"
| "count_waiting dep ((k, n) # m) = (if dep \<in> n_dependents n then 1 else 0) + count_waiting dep m"

definition Graph_Satisfy :: "graph \<Rightarrow> string \<Rightarrow> graph" where
  "Graph_Satisfy g dep =
     g\<lparr>g_nodes := nodes_drop dep (g_nodes g), g_refs := (g_refs g)(dep := None)\<rparr>"

definition Graph_clearRefs :: "graph \<Rightarrow> string \<Rightarrow> nat \<times> graph" where
  "Graph_clearRefs g taskID =
     (count_waiting taskID (g_nodes g),
      g\<lparr>g_refs := (g_refs g)(taskID := None),
        g_nodes := nodes_drop taskID (g_nodes g)\<rparr>)"

definition Graph_Delete :: "graph \<Rightarrow> string \<Rightarrow> bool \<times> graph" where
  "Graph_Delete g taskID =
     (let hadNode = (gget (g_nodes g) taskID \<noteq> None);
          g1 = g\<lparr>g_nodes := gdel taskID (g_nodes g)\<rparr>
      in (hadNode, snd (Graph_clearRefs g1 taskID)))"

definition Graph_Ready :: "graph \<Rightarrow> string \<Rightarrow> bool" where
  "Graph_Ready g taskID =
     (case gget (g_nodes g) taskID of None \<Rightarrow> True | Some n \<Rightarrow> n_pending n = 0)"

definition Graph_Refs :: "graph \<Rightarrow> string \<Rightarrow> int" where
  "Graph_Refs g taskID = ref_at (g_refs g) taskID"

definition Graph_Deps :: "graph \<Rightarrow> string \<Rightarrow> string list" where
  "Graph_Deps g taskID =
     (case gget (g_nodes g) taskID of
        None \<Rightarrow> [] | Some n \<Rightarrow> sorted_list_of_set (n_dependents n))"

definition Graph_NodeCount :: "graph \<Rightarrow> nat" where
  "Graph_NodeCount g = length (g_nodes g)"

definition Graph_EdgeCount :: "graph \<Rightarrow> int" where
  "Graph_EdgeCount g = sum_list (map (\<lambda>(k, n). n_pending n) (g_nodes g))"

section \<open>The waiting relation\<close>

text \<open>\<open>waits g t d\<close>: task \<open>t\<close> still waits for \<open>d\<close>; \<open>waiters\<close> counts the tasks that wait for \<open>d\<close>.\<close>

definition waits :: "graph \<Rightarrow> string \<Rightarrow> string \<Rightarrow> bool" where
  "waits g t d \<longleftrightarrow> (\<exists>n. gget (g_nodes g) t = Some n \<and> d \<in> n_dependents n)"

definition waiters :: "graph \<Rightarrow> string \<Rightarrow> int" where
  "waiters g d = int (count_waiting d (g_nodes g))"

definition graph_inv :: "graph \<Rightarrow> bool" where
  "graph_inv g \<longleftrightarrow> gwf (g_nodes g) \<and>
     (\<forall>(k, n) \<in> set (g_nodes g). finite (n_dependents n) \<and> n_pending n = int (card (n_dependents n))) \<and>
     (\<forall>d. waiters g d \<le> Graph_Refs g d)"

lemma ref_at_upd [simp]:
  "ref_at (m(k \<mapsto> v)) k' = (if k' = k then v else ref_at m k')"
  "ref_at (m(k := None)) k' = (if k' = k then 0 else ref_at m k')"
  by (simp_all add: ref_at_def)

lemma graph_add_loop_spec:
  assumes "graph_add_loop ds n refs = (n', refs')"
    and "finite (n_dependents n)" and "n_pending n = int (card (n_dependents n))"
  shows "n_dependents n' = n_dependents n \<union> (set ds - {[]})"
    and "n_pending n' = int (card (n_dependents n'))"
    and "ref_at refs' d = ref_at refs d
           + (if d \<in> n_dependents n' \<and> d \<notin> n_dependents n then 1 else 0)"
proof -
  have "n_dependents n' = n_dependents n \<union> (set ds - {[]}) \<and>
      n_pending n' = int (card (n_dependents n')) \<and>
      ref_at refs' d = ref_at refs d
           + (if d \<in> n_dependents n' \<and> d \<notin> n_dependents n then 1 else 0)"
    using assms
  proof (induction ds arbitrary: n refs)
    case Nil
    then show ?case by auto
  next
    case (Cons d' ds)
    show ?case
    proof (cases "d' = [] \<or> d' \<in> n_dependents n")
      case True
      then have "graph_add_loop ds n refs = (n', refs')" using Cons.prems(1) by (auto split: if_splits)
      note ih = Cons.IH [OF this Cons.prems(2,3)]
      have "n_dependents n \<union> (set (d' # ds) - {[]}) = n_dependents n \<union> (set ds - {[]})"
        using True by auto
      with ih show ?thesis by simp
    next
      case False
      let ?n = "n\<lparr>n_dependents := insert d' (n_dependents n), n_pending := n_pending n + 1\<rparr>"
      have step: "graph_add_loop ds ?n (refs(d' \<mapsto> ref_at refs d' + 1)) = (n', refs')"
        using Cons.prems(1) False by simp
      have "finite (n_dependents ?n)" "n_pending ?n = int (card (n_dependents ?n))"
        using Cons.prems(2,3) False by simp_all
      note ih = Cons.IH [OF step this]
      have dep: "n_dependents n' = n_dependents n \<union> (set (d' # ds) - {[]})"
        using conjunct1 [OF ih] False by auto
      then have "d' \<in> n_dependents n'" using False by simp
      moreover have "ref_at refs' d = ref_at (refs(d' \<mapsto> ref_at refs d' + 1)) d
           + (if d \<in> n_dependents n' \<and> d \<notin> n_dependents ?n then 1 else 0)"
        by (rule conjunct2 [OF conjunct2 [OF ih]])
      ultimately have "ref_at refs' d = ref_at refs d
           + (if d \<in> n_dependents n' \<and> d \<notin> n_dependents n then 1 else 0)"
        using False by (cases "d = d'") simp_all
      with dep ih show ?thesis by blast
    qed
  qed
  then show "n_dependents n' = n_dependents n \<union> (set ds - {[]})"
    and "n_pending n' = int (card (n_dependents n'))"
    and "ref_at refs' d = ref_at refs d
           + (if d \<in> n_dependents n' \<and> d \<notin> n_dependents n then 1 else 0)" by blast+
qed

lemma node_drop_simps [simp]:
  "n_dependents (node_drop d n) = n_dependents n - {d}"
  by (auto simp: node_drop_def)

lemma node_drop_pending:
  "finite (n_dependents n) \<Longrightarrow> n_pending n = int (card (n_dependents n)) \<Longrightarrow>
   n_pending (node_drop d n) = int (card (n_dependents (node_drop d n)))"
  by (auto simp: node_drop_def card_Diff_singleton of_nat_diff Suc_le_eq card_gt_0_iff)

lemma gget_drop [simp]:
  "gget (nodes_drop d m) t = map_option (node_drop d) (gget m t)"
  by (induction d m rule: nodes_drop.induct) auto

lemma gkeys_drop [simp]: "gkeys (nodes_drop d m) = gkeys m"
  by (induction d m rule: nodes_drop.induct) (auto simp: gkeys_def)

lemma gwf_drop [simp]: "gwf (nodes_drop d m) = gwf m"
  by (simp add: gwf_def)

lemma waits_Satisfy: "waits (Graph_Satisfy g d) t d' \<longleftrightarrow> waits g t d' \<and> d' \<noteq> d"
  by (auto simp: waits_def Graph_Satisfy_def)

lemma waits_Delete: "waits (snd (Graph_Delete g k)) t d \<longleftrightarrow> waits g t d \<and> t \<noteq> k \<and> d \<noteq> k"
  by (auto simp: waits_def Graph_Delete_def Graph_clearRefs_def Let_def split: if_splits)

lemma waits_Add:
  assumes "graph_inv g"
  shows "waits (Graph_Add g k ds) t d \<longleftrightarrow> waits g t d \<or> (t = k \<and> d \<in> set ds \<and> d \<noteq> [])"
proof -
  let ?n = "case gget (g_nodes g) k of None \<Rightarrow> \<lparr>n_dependents = {}, n_pending = 0\<rparr> | Some n \<Rightarrow> n"
  obtain n' refs' where l: "graph_add_loop ds ?n (g_refs g) = (n', refs')" by fastforce
  have "finite (n_dependents ?n)" "n_pending ?n = int (card (n_dependents ?n))"
    using assms by (auto simp: graph_inv_def split: option.splits dest!: map_of_SomeD)
  from graph_add_loop_spec(1) [OF l this] l show ?thesis
    by (auto simp: waits_def Graph_Add_def Let_def split: option.splits)
qed

lemma waiters_gput:
  assumes "gwf m"
  shows "int (count_waiting d (gput t n' m))
    = int (count_waiting d m)
      - (case gget m t of None \<Rightarrow> 0 | Some n \<Rightarrow> if d \<in> n_dependents n then 1 else 0)
      + (if d \<in> n_dependents n' then 1 else 0)"
  using assms
proof (induction m)
  case (Cons p m)
  then have wf: "gwf m" and nin: "fst p \<notin> set (gkeys m)" by (auto simp: gwf_def gkeys_def)
  then show ?case using Cons.IH [OF wf] by (cases p) (auto split: option.splits)
qed auto

lemma graph_inv_new: "graph_inv Graph_New"
  by (simp add: graph_inv_def Graph_New_def waiters_def Graph_Refs_def ref_at_def)

lemma Graph_Add_inv:
  assumes "graph_inv g"
  shows "graph_inv (Graph_Add g k ds)"
proof -
  let ?n = "case gget (g_nodes g) k of None \<Rightarrow> \<lparr>n_dependents = {}, n_pending = 0\<rparr> | Some n \<Rightarrow> n"
  obtain n' refs' where l: "graph_add_loop ds ?n (g_refs g) = (n', refs')" by fastforce
  have n: "finite (n_dependents ?n)" "n_pending ?n = int (card (n_dependents ?n))"
    using assms by (auto simp: graph_inv_def split: option.splits dest!: map_of_SomeD)
  note spec = graph_add_loop_spec [OF l n]
  have g': "Graph_Add g k ds = g\<lparr>g_nodes := gput k n' (g_nodes g), g_refs := refs'\<rparr>"
    using l by (simp add: Graph_Add_def Let_def)
  have wf: "gwf (g_nodes g)" using assms by (simp add: graph_inv_def)
  have "waiters (Graph_Add g k ds) d \<le> Graph_Refs (Graph_Add g k ds) d" for d
  proof -
    have "waiters g d \<le> Graph_Refs g d" using assms by (simp add: graph_inv_def)
    then show ?thesis
      using waiters_gput [OF wf, of d k n'] spec(1) spec(3) [of d]
      by (auto simp: g' waiters_def Graph_Refs_def split: option.splits if_splits)
  qed
  moreover have "finite (n_dependents n'')" "n_pending n'' = int (card (n_dependents n''))"
    if "(k'', n'') \<in> set (gput k n' (g_nodes g))" for k'' n''
  proof -
    have "gget (gput k n' (g_nodes g)) k'' = Some n''"
      using that wf by (intro map_of_is_SomeI) (auto simp: gwf_def gkeys_def distinct_update)
    then have "n'' = n' \<or> gget (g_nodes g) k'' = Some n''" by (auto split: if_splits)
    then show "finite (n_dependents n'')" "n_pending n'' = int (card (n_dependents n''))"
      using spec(1,2) n(1) assms by (auto simp: graph_inv_def dest!: map_of_SomeD)
  qed
  ultimately show ?thesis using wf by (auto simp: graph_inv_def g')
qed

lemma drop_inv_nodes:
  "\<forall>(k, n) \<in> set m. finite (n_dependents n) \<and> n_pending n = int (card (n_dependents n)) \<Longrightarrow>
   \<forall>(k, n) \<in> set (nodes_drop d m).
     finite (n_dependents n) \<and> n_pending n = int (card (n_dependents n))"
  by (induction d m rule: nodes_drop.induct) (auto simp: node_drop_pending simp del: node_drop_simps, simp)

lemma waiters_drop [simp]:
  "count_waiting d (nodes_drop d' m) = (if d = d' then 0 else count_waiting d m)"
  by (induction d' m rule: nodes_drop.induct) auto

lemma waiters_gdel: "count_waiting d (gdel k m) \<le> count_waiting d m"
  by (induction m) (auto simp: AList.delete_eq)

lemma Graph_Satisfy_inv:
  assumes "graph_inv g"
  shows "graph_inv (Graph_Satisfy g d)"
  using assms drop_inv_nodes [of "g_nodes g" d]
  by (auto simp: graph_inv_def Graph_Satisfy_def waiters_def Graph_Refs_def gwf_def)

lemma Graph_Delete_inv:
  assumes "graph_inv g"
  shows "graph_inv (snd (Graph_Delete g k))"
proof -
  have sub: "set (gdel k (g_nodes g)) \<subseteq> set (g_nodes g)" by (simp add: AList.delete_eq)
  have "waiters (snd (Graph_Delete g k)) d \<le> Graph_Refs (snd (Graph_Delete g k)) d" for d
  proof -
    have "waiters g d \<le> Graph_Refs g d" using assms by (simp add: graph_inv_def)
    then show ?thesis
      using waiters_gdel [of d k "g_nodes g"]
      by (auto simp: Graph_Delete_def Graph_clearRefs_def Let_def waiters_def Graph_Refs_def)
  qed
  moreover have "\<forall>(k, n) \<in> set (gdel k (g_nodes g)). finite (n_dependents n) \<and> n_pending n = int (card (n_dependents n))"
    using assms sub by (auto simp: graph_inv_def)
  note drop_inv_nodes [OF this, of k]
  ultimately show ?thesis
    using assms by (auto simp: graph_inv_def Graph_Delete_def Graph_clearRefs_def Let_def)
qed

section \<open>Runs of graph calls, and the relation they compute\<close>

datatype graph_call =
  CallAdd string "string list"
| CallSatisfy string
| CallGraphDelete string

fun graph_step :: "graph \<Rightarrow> graph_call \<Rightarrow> graph" where
  "graph_step g (CallAdd t ds) = Graph_Add g t ds"
| "graph_step g (CallSatisfy d) = Graph_Satisfy g d"
| "graph_step g (CallGraphDelete t) = snd (Graph_Delete g t)"

text \<open>The specification: a set of pairs of a task and a dependency it waits for.\<close>

fun waits_step :: "(string \<times> string) set \<Rightarrow> graph_call \<Rightarrow> (string \<times> string) set" where
  "waits_step w (CallAdd t ds) = w \<union> {t} \<times> (set ds - {[]})"
| "waits_step w (CallSatisfy d) = w - UNIV \<times> {d}"
| "waits_step w (CallGraphDelete t) = w - {t} \<times> UNIV - UNIV \<times> {t}"

definition waits_set :: "graph \<Rightarrow> (string \<times> string) set" where
  "waits_set g = {(t, d). waits g t d}"

lemma graph_step_inv: "graph_inv g \<Longrightarrow> graph_inv (graph_step g c)"
  by (cases c) (simp_all add: Graph_Add_inv Graph_Satisfy_inv Graph_Delete_inv)

lemma graph_step_refines: "graph_inv g \<Longrightarrow> waits_set (graph_step g c) = waits_step (waits_set g) c"
  by (cases c) (auto simp: waits_set_def waits_Add waits_Satisfy waits_Delete)

lemma graph_calls:
  "graph_inv g \<Longrightarrow> graph_inv (foldl graph_step g cs) \<and>
     waits_set (foldl graph_step g cs) = foldl waits_step (waits_set g) cs"
  by (induction cs arbitrary: g) (auto simp: graph_step_inv graph_step_refines)

lemma waits_set_new [simp]: "waits_set Graph_New = {}"
  by (simp add: waits_set_def waits_def Graph_New_def)

lemma graph_node: "graph_inv g \<Longrightarrow> gget (g_nodes g) t = Some n \<Longrightarrow>
    finite (n_dependents n) \<and> n_pending n = int (card (n_dependents n)) \<and>
    n_dependents n = {d. waits g t d}"
  by (auto simp: graph_inv_def waits_def dest!: map_of_SomeD)

lemma graph_no_node: "gget (g_nodes g) t = None \<Longrightarrow> {d. waits g t d} = {}"
  by (simp add: waits_def)

lemma Ready_iff: "graph_inv g \<Longrightarrow> Graph_Ready g t \<longleftrightarrow> {d. waits g t d} = {}"
  using graph_node [of g t] graph_no_node [of g t]
  by (cases "gget (g_nodes g) t") (auto simp: Graph_Ready_def)

lemma Deps_eq: "graph_inv g \<Longrightarrow> Graph_Deps g t = sorted_list_of_set {d. waits g t d}"
  using graph_node [of g t] graph_no_node [of g t]
  by (cases "gget (g_nodes g) t") (auto simp: Graph_Deps_def)

lemma waits_finite: "graph_inv g \<Longrightarrow> finite {d. waits g t d}"
  using graph_node [of g t] graph_no_node [of g t] by (cases "gget (g_nodes g) t") auto

lemma Deps_length: "graph_inv g \<Longrightarrow> gget (g_nodes g) t = Some n \<Longrightarrow> int (length (Graph_Deps g t)) = n_pending n"
  using graph_node [of g t n] by (simp add: Deps_eq)

lemma EdgeCount_sum:
  assumes "graph_inv g"
  shows "Graph_EdgeCount g = (\<Sum>t \<leftarrow> gkeys (g_nodes g). int (length (Graph_Deps g t)))"
proof -
  have "gget (g_nodes g) k = Some n" if "(k, n) \<in> set (g_nodes g)" for k n
    using that assms by (simp add: graph_inv_def gwf_def gkeys_def)
  then have "map (\<lambda>(k, n). n_pending n) (g_nodes g)
      = map (\<lambda>t. int (length (Graph_Deps g t))) (gkeys (g_nodes g))"
    using Deps_length [OF assms] by (auto simp: gkeys_def)
  then show ?thesis by (simp add: Graph_EdgeCount_def)
qed

section \<open>Properties\<close>

text \<open>
  C22: the graph computes the waiting relation.  After any calls, a task is ready exactly if it
  waits for nothing, its pending dependencies are listed in order, each once, and are those the
  specification gives, and the edge count is the number of pending dependencies over all nodes.
\<close>

theorem graph_refines_waiting_relation:
  assumes "g = foldl graph_step Graph_New calls"
    and "w = foldl waits_step {} calls"
  shows "waits_set g = w
    \<and> (Graph_Ready g t \<longleftrightarrow> (\<forall>d. (t, d) \<notin> w))
    \<and> set (Graph_Deps g t) = {d. (t, d) \<in> w} \<and> sorted_wrt (<) (Graph_Deps g t)
    \<and> Graph_EdgeCount g = (\<Sum>t \<leftarrow> gkeys (g_nodes g). int (length (Graph_Deps g t)))"
proof -
  have inv: "graph_inv g" and w: "waits_set g = w"
    using graph_calls [OF graph_inv_new, of calls] assms by simp_all
  have "(t, d) \<in> w \<longleftrightarrow> waits g t d" for d by (simp add: w [symmetric] waits_set_def)
  then show ?thesis
    using Ready_iff [OF inv] Deps_eq [OF inv] waits_finite [OF inv] EdgeCount_sum [OF inv] w
    by (simp add: strict_sorted_list_of_set)
qed

theorem graph_refines_waiting_relation_witness:
  "waits_set (foldl graph_step Graph_New [CallAdd ''t'' [''a'', ''b''], CallSatisfy ''a'']) = {(''t'', ''b'')}"
proof -
  let ?cs = "[CallAdd ''t'' [''a'', ''b''], CallSatisfy ''a'']"
  have "foldl waits_step {} ?cs = {(''t'', ''b'')}" by auto
  moreover have "waits_set (foldl graph_step Graph_New ?cs) = foldl waits_step {} ?cs"
    using graph_refines_waiting_relation [OF refl refl, of ?cs] by blast
  ultimately show ?thesis by (simp only:)
qed

text \<open>
  The reference count of a dependency is never below the number of tasks that wait for it, but
  it is not always equal to it: deleting a task leaves the counts of what it waited for, so after
  a task that waits for one dependency is added and deleted, that dependency still has a
  reference although nothing waits for it.
\<close>

theorem refs_bound_and_leak:
  "waiters (foldl graph_step Graph_New calls) d \<le> Graph_Refs (foldl graph_step Graph_New calls) d
   \<and> (\<exists>cs. Graph_Refs (foldl graph_step Graph_New cs) ''a'' = 1
          \<and> waiters (foldl graph_step Graph_New cs) ''a'' = 0)"
proof -
  have bound: "waiters (foldl graph_step Graph_New calls) d \<le> Graph_Refs (foldl graph_step Graph_New calls) d"
    using graph_calls [OF graph_inv_new, of calls] by (simp add: graph_inv_def)
  have "Graph_Refs (foldl graph_step Graph_New [CallAdd ''b'' [''a''], CallGraphDelete ''b'']) ''a'' = 1 \<and>
      waiters (foldl graph_step Graph_New [CallAdd ''b'' [''a''], CallGraphDelete ''b'']) ''a'' = 0"
    by (simp add: Graph_New_def Graph_Add_def Graph_Delete_def Graph_clearRefs_def Let_def
        Graph_Refs_def waiters_def ref_at_def)
  then show ?thesis using bound by blast
qed

end
