(* ===== verification/Lease.thy ===== *)
theory Lease
  imports Model
begin

text \<open>
  The executor lease table of \<open>internal/lease\<close>: a lease per executor that ever acquired one, the
  slot of each executor that holds one now, and the next slot number, a machine integer that wraps.
\<close>

section \<open>The table and its operations\<close>

record lease_manager =
  lm_leases :: "(executor_id, lease) gomap"
  lm_slotOf :: "executor_id \<rightharpoonup> int"
  lm_next :: int
  lm_timeout :: duration

definition Lease_New :: "duration \<Rightarrow> lease_manager" where
  "Lease_New timeout =
     \<lparr>lm_leases = [], lm_slotOf = Map.empty, lm_next = 0, lm_timeout = timeout\<rparr>"

definition Lease_Acquire :: "lease_manager \<Rightarrow> executor_id \<Rightarrow> time \<Rightarrow> (int \<times> bool) \<times> lease_manager" where
  "Lease_Acquire m exec now =
     (case lm_slotOf m exec of
        Some slot \<Rightarrow> ((slot, True), m)
      | None \<Rightarrow>
          let slot = lm_next m
          in ((slot, True),
              m\<lparr>lm_next := wrap64 (lm_next m + 1),
                lm_leases := gput exec
                  \<lparr>lease_Executor = exec, lease_Slot = slot, lease_State = LeaseLeased,
                   lease_Expires = now + lm_timeout m\<rparr> (lm_leases m),
                lm_slotOf := (lm_slotOf m)(exec \<mapsto> slot)\<rparr>))"

definition Lease_Renew :: "lease_manager \<Rightarrow> executor_id \<Rightarrow> time \<Rightarrow> bool \<times> lease_manager" where
  "Lease_Renew m exec now =
     (case gget (lm_leases m) exec of
        None \<Rightarrow> (False, m)
      | Some l \<Rightarrow>
          if lease_State l = LeaseEvicted \<or> lease_State l = LeaseIdle then (False, m)
          else (True, m\<lparr>lm_leases := gput exec
                  (l\<lparr>lease_State := LeaseLeased, lease_Expires := now + lm_timeout m\<rparr>)
                  (lm_leases m)\<rparr>))"

definition Lease_Evict :: "lease_manager \<Rightarrow> executor_id \<Rightarrow> bool \<times> lease_manager" where
  "Lease_Evict m exec =
     (case gget (lm_leases m) exec of
        None \<Rightarrow> (False, m)
      | Some l \<Rightarrow>
          (True, m\<lparr>lm_leases := gput exec
                    (l\<lparr>lease_State := LeaseEvicted, lease_Expires := zero_time\<rparr>) (lm_leases m),
                   lm_slotOf := (lm_slotOf m)(exec := None)\<rparr>))"

definition lease_lapsed :: "lease \<Rightarrow> time \<Rightarrow> bool" where
  "lease_lapsed l now \<longleftrightarrow> lease_State l = LeaseEvicted \<or> now > lease_Expires l"

definition Lease_Expired :: "lease_manager \<Rightarrow> executor_id \<Rightarrow> time \<Rightarrow> bool" where
  "Lease_Expired m exec now =
     (case gget (lm_leases m) exec of None \<Rightarrow> True | Some l \<Rightarrow> lease_lapsed l now)"

definition Lease_Lease :: "lease_manager \<Rightarrow> executor_id \<Rightarrow> lease option" where
  "Lease_Lease m exec = gget (lm_leases m) exec"

definition Lease_Executors :: "lease_manager \<Rightarrow> executor_id list \<Rightarrow> executor_id list" where
  "Lease_Executors m ks = map fst (grange (lm_leases m) ks)"

definition Lease_ExpiredLeases :: "lease_manager \<Rightarrow> time \<Rightarrow> executor_id list \<Rightarrow> executor_id list" where
  "Lease_ExpiredLeases m now ks =
     map fst (filter (\<lambda>(exec, l). lease_lapsed l now) (grange (lm_leases m) ks))"

definition Lease_Count :: "lease_manager \<Rightarrow> nat" where
  "Lease_Count m = length (lm_leases m)"

section \<open>The invariant\<close>

text \<open>
  The holders of slots are the executors with a leased lease, under the slot the lease records;
  every lease is either leased or evicted; slots are handed out once.
\<close>

definition held_slot :: "lease option \<Rightarrow> int option" where
  "held_slot lo = (case lo of None \<Rightarrow> None
     | Some l \<Rightarrow> if lease_State l = LeaseLeased then Some (lease_Slot l) else None)"

definition lease_ok :: "int \<Rightarrow> executor_id \<Rightarrow> lease \<Rightarrow> bool" where
  "lease_ok next e l \<longleftrightarrow> lease_Executor l = e \<and>
     (lease_State l = LeaseLeased \<or> lease_State l = LeaseEvicted) \<and>
     0 \<le> lease_Slot l \<and> lease_Slot l < next"

definition slots_distinct :: "lease_manager \<Rightarrow> bool" where
  "slots_distinct m \<longleftrightarrow>
     (\<forall>e l e' l'. Lease_Lease m e = Some l \<longrightarrow> Lease_Lease m e' = Some l' \<longrightarrow>
        lease_Slot l = lease_Slot l' \<longrightarrow> e = e')"

definition lease_inv :: "lease_manager \<Rightarrow> bool" where
  "lease_inv m \<longleftrightarrow> gwf (lm_leases m) \<and> 0 \<le> lm_next m \<and>
     (\<forall>e. lm_slotOf m e = held_slot (Lease_Lease m e)) \<and>
     (\<forall>e l. Lease_Lease m e = Some l \<longrightarrow> lease_ok (lm_next m) e l) \<and>
     slots_distinct m"

lemma held_slot_simps [simp]:
  "held_slot None = None"
  "held_slot (Some l) = (if lease_State l = LeaseLeased then Some (lease_Slot l) else None)"
  by (simp_all add: held_slot_def)

lemma slots_of_inv:
  assumes "lease_inv m" and "lm_slotOf m e = Some s" and "lm_slotOf m e' = Some s"
  shows "e = e'"
proof -
  have "\<exists>l. Lease_Lease m x = Some l \<and> lease_Slot l = s" if "lm_slotOf m x = Some s" for x
    using assms(1) that by (auto simp: lease_inv_def held_slot_def split: option.splits if_splits)
  with assms show ?thesis unfolding lease_inv_def slots_distinct_def by metis
qed

lemma lease_inv_new: "lease_inv (Lease_New d)"
  by (simp add: lease_inv_def slots_distinct_def Lease_New_def Lease_Lease_def)

lemma Acquire_reads:
  "Lease_Lease (snd (Lease_Acquire m e now)) e' =
     (if e' = e \<and> lm_slotOf m e = None
      then Some \<lparr>lease_Executor = e, lease_Slot = lm_next m, lease_State = LeaseLeased,
                 lease_Expires = now + lm_timeout m\<rparr>
      else Lease_Lease m e')"
  "lm_slotOf (snd (Lease_Acquire m e now)) e' =
     (if e' = e \<and> lm_slotOf m e = None then Some (lm_next m) else lm_slotOf m e')"
  "lm_next (snd (Lease_Acquire m e now)) =
     (if lm_slotOf m e = None then wrap64 (lm_next m + 1) else lm_next m)"
  "lm_timeout (snd (Lease_Acquire m e now)) = lm_timeout m"
  by (auto simp: Lease_Acquire_def Lease_Lease_def Let_def split: option.splits)

lemma Renew_reads:
  "Lease_Lease (snd (Lease_Renew m e now)) e' =
     (if e' = e then map_option (\<lambda>l. if lease_State l = LeaseEvicted \<or> lease_State l = LeaseIdle then l
          else l\<lparr>lease_State := LeaseLeased, lease_Expires := now + lm_timeout m\<rparr>) (Lease_Lease m e)
      else Lease_Lease m e')"
  "lm_slotOf (snd (Lease_Renew m e now)) = lm_slotOf m"
  "lm_next (snd (Lease_Renew m e now)) = lm_next m"
  "lm_timeout (snd (Lease_Renew m e now)) = lm_timeout m"
  by (auto simp: Lease_Renew_def Lease_Lease_def split: option.splits)

lemma Evict_reads:
  "Lease_Lease (snd (Lease_Evict m e)) e' =
     (if e' = e then map_option (\<lambda>l. l\<lparr>lease_State := LeaseEvicted, lease_Expires := zero_time\<rparr>) (Lease_Lease m e)
      else Lease_Lease m e')"
  "lm_slotOf (snd (Lease_Evict m e)) e' =
     (if e' = e \<and> Lease_Lease m e \<noteq> None then None else lm_slotOf m e')"
  "lm_next (snd (Lease_Evict m e)) = lm_next m"
  "lm_timeout (snd (Lease_Evict m e)) = lm_timeout m"
  "fst (Lease_Evict m e) \<longleftrightarrow> Lease_Lease m e \<noteq> None"
  by (auto simp: Lease_Evict_def Lease_Lease_def split: option.splits)

lemma lease_gwf:
  "gwf (lm_leases m) \<Longrightarrow> gwf (lm_leases (snd (Lease_Acquire m e now)))"
  "gwf (lm_leases m) \<Longrightarrow> gwf (lm_leases (snd (Lease_Renew m e now)))"
  "gwf (lm_leases m) \<Longrightarrow> gwf (lm_leases (snd (Lease_Evict m e)))"
  by (auto simp: Lease_Acquire_def Lease_Renew_def Lease_Evict_def Let_def split: option.splits)

text \<open>As long as the counter has not reached the largest machine integer, a new slot is a fresh one.\<close>

lemma Acquire_inv:
  assumes "lease_inv m" and "lm_next m < max_int64"
  shows "lease_inv (snd (Lease_Acquire m e now))"
proof (cases "lm_slotOf m e")
  case (Some s)
  then have "snd (Lease_Acquire m e now) = m" by (simp add: Lease_Acquire_def)
  with assms show ?thesis by simp
next
  case None
  have ok: "Lease_Lease m e' = Some l \<Longrightarrow> lease_ok (lm_next m) e' l" for e' l
    using assms(1) by (simp add: lease_inv_def)
  have fresh: "Lease_Lease m e' = Some l \<Longrightarrow> lease_Slot l < lm_next m" for e' l
    using ok by (simp add: lease_ok_def)
  have nonneg: "0 \<le> lm_next m" using assms(1) by (simp add: lease_inv_def)
  then have inc: "wrap64 (lm_next m + 1) = lm_next m + 1" using assms(2) by (rule wrap64_succ_nonneg)
  have "slots_distinct (snd (Lease_Acquire m e now))"
    using assms(1) None fresh by (fastforce simp: slots_distinct_def lease_inv_def Acquire_reads)
  moreover have "lease_ok (lm_next m + 1) e' l" if "Lease_Lease (snd (Lease_Acquire m e now)) e' = Some l" for e' l
    using that ok [of e' l] fresh [of e' l] None nonneg
    by (auto simp: Acquire_reads lease_ok_def split: if_splits)
  ultimately show ?thesis
    using assms(1) None inc nonneg lease_gwf(1) [of m e now] by (simp add: lease_inv_def Acquire_reads)
qed

lemma Acquire_next:
  "lease_inv m \<Longrightarrow> lm_next m < max_int64 \<Longrightarrow> lm_next (snd (Lease_Acquire m e now)) \<le> lm_next m + 1"
  by (simp add: Acquire_reads(3) lease_inv_def wrap64_succ_nonneg)

lemma Renew_inv:
  assumes "lease_inv m"
  shows "lease_inv (snd (Lease_Renew m e now))"
proof -
  have ok: "Lease_Lease m e' = Some l \<Longrightarrow> lease_ok (lm_next m) e' l" for e' l
    using assms by (simp add: lease_inv_def)
  have "slots_distinct (snd (Lease_Renew m e now))"
    using assms by (fastforce simp: slots_distinct_def lease_inv_def Renew_reads split: if_splits)
  moreover have "lease_ok (lm_next m) e' l" if "Lease_Lease (snd (Lease_Renew m e now)) e' = Some l" for e' l
    using that ok by (fastforce simp: Renew_reads lease_ok_def split: if_splits)
  moreover have "held_slot (Lease_Lease (snd (Lease_Renew m e now)) e') = held_slot (Lease_Lease m e')" for e'
    using ok [of e] by (cases "Lease_Lease m e") (auto simp: Renew_reads lease_ok_def)
  ultimately show ?thesis
    using assms lease_gwf(2) [of m e now] by (simp add: lease_inv_def Renew_reads(2-4))
qed

lemma Evict_inv:
  assumes "lease_inv m"
  shows "lease_inv (snd (Lease_Evict m e))"
proof -
  have ok: "Lease_Lease m e' = Some l \<Longrightarrow> lease_ok (lm_next m) e' l" for e' l
    using assms by (simp add: lease_inv_def)
  have "slots_distinct (snd (Lease_Evict m e))"
    using assms by (fastforce simp: slots_distinct_def lease_inv_def Evict_reads split: if_splits)
  moreover have "lease_ok (lm_next m) e' l" if "Lease_Lease (snd (Lease_Evict m e)) e' = Some l" for e' l
    using that ok by (fastforce simp: Evict_reads lease_ok_def split: if_splits)
  ultimately show ?thesis
    using assms lease_gwf(3) [of m e]
    by (cases "Lease_Lease m e") (auto simp: lease_inv_def Evict_reads)
qed

section \<open>The interface the heartbeat relies on\<close>

text \<open>
  A table of leases read by \<open>lease_of\<close>: evicting an executor marks its lease and touches no other;
  renewing moves the expiry of a lease that is not evicted, and never revives one that is.  The
  two loops of a sweep are stated over the interface.
\<close>

definition evict_lease :: "lease \<Rightarrow> lease" where
  "evict_lease l = l\<lparr>lease_State := LeaseEvicted, lease_Expires := zero_time\<rparr>"

definition renew_lease :: "time \<Rightarrow> lease \<Rightarrow> lease" where
  "renew_lease expires l =
     (if lease_State l = LeaseEvicted \<or> lease_State l = LeaseIdle then l
      else l\<lparr>lease_State := LeaseLeased, lease_Expires := expires\<rparr>)"

locale lease_table =
  fixes lease_of :: "'m \<Rightarrow> executor_id \<Rightarrow> lease option"
    and evict :: "'m \<Rightarrow> executor_id \<Rightarrow> bool \<times> 'm"
    and renew :: "'m \<Rightarrow> executor_id \<Rightarrow> time \<Rightarrow> bool \<times> 'm"
    and timeout :: "'m \<Rightarrow> duration"
  assumes evict_of: "lease_of (snd (evict m e)) e' =
        (if e' = e then map_option evict_lease (lease_of m e) else lease_of m e')"
    and evict_hit: "fst (evict m e) \<longleftrightarrow> lease_of m e \<noteq> None"
    and evict_timeout: "timeout (snd (evict m e)) = timeout m"
    and renew_of: "lease_of (snd (renew m e now)) e' =
        (if e' = e then map_option (renew_lease (now + timeout m)) (lease_of m e) else lease_of m e')"
    and renew_hit: "fst (renew m e now) \<longleftrightarrow>
        (\<exists>l. lease_of m e = Some l \<and> lease_State l \<noteq> LeaseEvicted \<and> lease_State l \<noteq> LeaseIdle)"
    and renew_timeout: "timeout (snd (renew m e now)) = timeout m"
begin

abbreviation evict_all :: "'m \<Rightarrow> executor_id list \<Rightarrow> 'm" where
  "evict_all \<equiv> foldl (\<lambda>m e. snd (evict m e))"

lemma evict_all_timeout: "timeout (evict_all m es) = timeout m"
  by (induction es arbitrary: m) (auto simp: evict_timeout)

lemma evict_twice [simp]: "evict_lease (evict_lease l) = evict_lease l"
  by (simp add: evict_lease_def)

lemma evict_all_of:
  "lease_of (evict_all m es) e = (if e \<in> set es then map_option evict_lease (lease_of m e) else lease_of m e)"
  by (induction es arbitrary: m) (auto simp: evict_of option.map_comp comp_def)

lemma evict_hits: "fst (evict (evict_all m es) e) \<longleftrightarrow> lease_of m e \<noteq> None"
  by (simp add: evict_hit evict_all_of)

lemma renew_evicted: "lease_of m e = Some l \<Longrightarrow> lease_State l = LeaseEvicted \<Longrightarrow> \<not> fst (renew m e now)"
  by (auto simp: renew_hit)

end

lemma Evict_of:
  "Lease_Lease (snd (Lease_Evict m e)) e' =
     (if e' = e then map_option evict_lease (Lease_Lease m e) else Lease_Lease m e')"
proof -
  have "evict_lease = (\<lambda>l. l\<lparr>lease_State := LeaseEvicted, lease_Expires := zero_time\<rparr>)"
    by (simp add: evict_lease_def fun_eq_iff)
  then show ?thesis by (simp add: Evict_reads(1))
qed

lemma Renew_of:
  "Lease_Lease (snd (Lease_Renew m e now)) e' =
     (if e' = e then map_option (renew_lease (now + lm_timeout m)) (Lease_Lease m e) else Lease_Lease m e')"
proof -
  have "renew_lease (now + lm_timeout m) =
      (\<lambda>l. if lease_State l = LeaseEvicted \<or> lease_State l = LeaseIdle then l
           else l\<lparr>lease_State := LeaseLeased, lease_Expires := now + lm_timeout m\<rparr>)"
    by (simp add: renew_lease_def fun_eq_iff)
  then show ?thesis by (simp add: Renew_reads(1))
qed

interpretation lt: lease_table Lease_Lease Lease_Evict Lease_Renew lm_timeout
  by unfold_locales
    (auto simp: Evict_of Evict_reads Renew_of Renew_reads,
     auto simp: Lease_Renew_def Lease_Lease_def split: option.splits if_splits)

section \<open>Runs of lease calls\<close>

datatype lease_call =
  CallAcquire executor_id time
| CallRenew executor_id time
| CallEvict executor_id

fun lease_step :: "lease_manager \<Rightarrow> lease_call \<Rightarrow> lease_manager" where
  "lease_step m (CallAcquire e now) = snd (Lease_Acquire m e now)"
| "lease_step m (CallRenew e now) = snd (Lease_Renew m e now)"
| "lease_step m (CallEvict e) = snd (Lease_Evict m e)"

fun acquires :: "executor_id \<Rightarrow> lease_call \<Rightarrow> bool" where
  "acquires e (CallAcquire e' now) \<longleftrightarrow> e' = e"
| "acquires e _ \<longleftrightarrow> False"

text \<open>Each call hands out one slot at most, so the machine integer bounds the number of calls.\<close>

lemma lease_step_inv:
  assumes "lease_inv m" and "lm_next m < max_int64"
  shows "lease_inv (lease_step m c) \<and> lm_next (lease_step m c) \<le> lm_next m + 1"
  using assms
  by (cases c) (simp_all add: Acquire_inv Acquire_next Renew_inv Renew_reads(3) Evict_inv Evict_reads(3))

lemma lease_calls_inv:
  "lease_inv m \<Longrightarrow> lm_next m + int (length cs) \<le> max_int64 \<Longrightarrow>
   lease_inv (foldl lease_step m cs) \<and> lm_next (foldl lease_step m cs) \<le> lm_next m + int (length cs)"
proof (induction cs arbitrary: m)
  case (Cons c cs)
  have "lease_inv (lease_step m c) \<and> lm_next (lease_step m c) \<le> lm_next m + 1"
    using Cons.prems by (intro lease_step_inv) auto
  with Cons.IH [of "lease_step m c"] Cons.prems(2) show ?case by auto
qed simp

lemma lease_calls_new:
  assumes "int (length cs) \<le> max_int64"
  shows "lease_inv (foldl lease_step (Lease_New d) cs)"
    "lm_next (foldl lease_step (Lease_New d) cs) \<le> int (length cs)"
  using lease_calls_inv [OF lease_inv_new, of d cs] assms by (simp_all add: Lease_New_def)

lemma evict_all_inv: "lease_inv m \<Longrightarrow> lease_inv (lt.evict_all m es)"
  by (induction es arbitrary: m) (simp_all add: Evict_inv)

lemma evicted_calls:
  "Lease_Lease m e = Some l \<Longrightarrow> lease_State l = LeaseEvicted \<Longrightarrow> \<forall>c \<in> set cs. \<not> acquires e c \<Longrightarrow>
   \<exists>l'. Lease_Lease (foldl lease_step m cs) e = Some l' \<and> lease_State l' = LeaseEvicted"
proof (induction cs arbitrary: m l)
  case (Cons c cs)
  have "\<exists>l'. Lease_Lease (lease_step m c) e = Some l' \<and> lease_State l' = LeaseEvicted"
    using Cons.prems
    by (cases c) (auto simp: Acquire_reads Evict_of Renew_of evict_lease_def renew_lease_def)
  then show ?case using Cons.IH Cons.prems(3) by auto
qed auto

lemma leases_kept: "Lease_Lease m e \<noteq> None \<Longrightarrow> Lease_Lease (foldl lease_step m cs) e \<noteq> None"
proof (induction cs arbitrary: m)
  case (Cons c cs)
  then have "Lease_Lease (lease_step m c) e \<noteq> None"
    by (cases c) (auto simp: Acquire_reads Evict_of Renew_of)
  with Cons.IH show ?case by simp
qed simp

lemma Executors_set:
  "range_order (lm_leases m) ks \<Longrightarrow> set (Lease_Executors m ks) = {e. Lease_Lease m e \<noteq> None}"
  by (auto simp: Lease_Executors_def fst_grange Lease_Lease_def range_order_iff)

lemma ExpiredLeases_set:
  "range_order (lm_leases m) ks \<Longrightarrow>
   set (Lease_ExpiredLeases m now ks) = {e. \<exists>l. Lease_Lease m e = Some l \<and> lease_lapsed l now}"
  by (force simp: Lease_ExpiredLeases_def set_grange Lease_Lease_def range_order_iff)

section \<open>Properties\<close>

text \<open>
  C24: after any calls on a new table, at most as many as the largest machine integer (the slot
  counter is one and wraps), no two executors hold the same slot, an executor holds a
  slot exactly while its lease is in the leased state (and then the one the lease records), every
  lease is leased or evicted, and acquiring again while a slot is held returns that slot.
\<close>

theorem slots_exclusive:
  assumes "m = foldl lease_step (Lease_New timeout) calls" and "int (length calls) \<le> max_int64"
  shows "(\<forall>e e' s. lm_slotOf m e = Some s \<longrightarrow> lm_slotOf m e' = Some s \<longrightarrow> e = e')
    \<and> (\<forall>e s. lm_slotOf m e = Some s \<longleftrightarrow>
          (\<exists>l. Lease_Lease m e = Some l \<and> lease_State l = LeaseLeased \<and> lease_Slot l = s))
    \<and> (\<forall>e l. Lease_Lease m e = Some l \<longrightarrow>
          lease_Executor l = e \<and> lease_State l \<in> {LeaseLeased, LeaseEvicted})
    \<and> (\<forall>e s. lm_slotOf m e = Some s \<longrightarrow> Lease_Acquire m e now = ((s, True), m))
    \<and> (\<forall>e. lm_slotOf m e = None \<longrightarrow> fst (Lease_Acquire m e now) = (lm_next m, True)
          \<and> (\<forall>e' l. Lease_Lease m e' = Some l \<longrightarrow> lease_Slot l < lm_next m))"
proof -
  have inv: "lease_inv m" using assms by (simp add: lease_calls_new)
  have slot: "lm_slotOf m e = Some s \<longleftrightarrow>
      (\<exists>l. Lease_Lease m e = Some l \<and> lease_State l = LeaseLeased \<and> lease_Slot l = s)" for e s
    using inv by (auto simp: lease_inv_def held_slot_def split: option.splits if_splits)
  have ok: "Lease_Lease m e = Some l \<Longrightarrow> lease_ok (lm_next m) e l" for e l
    using inv by (simp add: lease_inv_def)
  have "\<forall>e e' s. lm_slotOf m e = Some s \<longrightarrow> lm_slotOf m e' = Some s \<longrightarrow> e = e'"
    using slots_of_inv [OF inv] by blast
  moreover have "\<forall>e l. Lease_Lease m e = Some l \<longrightarrow>
      lease_Executor l = e \<and> lease_State l \<in> {LeaseLeased, LeaseEvicted}"
    using ok by (auto simp: lease_ok_def)
  moreover have "\<forall>e s. lm_slotOf m e = Some s \<longrightarrow> Lease_Acquire m e now = ((s, True), m)"
    by (simp add: Lease_Acquire_def)
  moreover have "\<forall>e. lm_slotOf m e = None \<longrightarrow> fst (Lease_Acquire m e now) = (lm_next m, True)"
    by (simp add: Lease_Acquire_def Let_def)
  moreover have "\<forall>e' l. Lease_Lease m e' = Some l \<longrightarrow> lease_Slot l < lm_next m"
    using ok by (simp add: lease_ok_def)
  ultimately show ?thesis using slot by blast
qed

theorem slots_exclusive_witness:
  "let m = foldl lease_step (Lease_New 5) [CallAcquire ''a'' 1, CallAcquire ''b'' 2, CallEvict ''a'', CallAcquire ''a'' 3]
   in lm_slotOf m ''a'' = Some 2 \<and> lm_slotOf m ''b'' = Some 1 \<and> Lease_Acquire m ''a'' 9 = ((2, True), m)"
proof -
  let ?cs = "[CallAcquire ''a'' 1, CallAcquire ''b'' 2, CallEvict ''a'', CallAcquire ''a'' 3]"
  let ?m = "foldl lease_step (Lease_New 5) ?cs"
  have s: "lm_slotOf ?m ''a'' = Some 2" "lm_slotOf ?m ''b'' = Some 1" by code_simp+
  moreover have "Lease_Acquire ?m ''a'' 9 = ((2, True), ?m)"
    using slots_exclusive [OF refl, of ?cs 5 9] s(1) by (simp add: max_int64_def)
  ultimately show ?thesis unfolding Let_def by blast
qed

text \<open>
  An evicted lease is never revived.  Once an executor is evicted, no run of calls in which it
  does not acquire again makes its lease renewable: renewing fails without effect, the lease counts
  as expired at every time, and the executor holds no slot.
\<close>

theorem evicted_never_revived:
  assumes "m = foldl lease_step (Lease_New timeout) calls" and "Lease_Evict m e = (True, m')"
    and "m'' = foldl lease_step m' later" and "\<forall>c \<in> set later. \<not> acquires e c"
    and "int (length calls + length later) \<le> max_int64"
  shows "Lease_Renew m'' e now = (False, m'') \<and> Lease_Expired m'' e now \<and> lm_slotOf m'' e = None"
proof -
  have m: "lease_inv m" "lm_next m \<le> int (length calls)"
    using assms(1,5) by (simp_all add: lease_calls_new)
  have inv: "lease_inv m'" "lm_next m' \<le> int (length calls)"
    using Evict_inv [OF m(1), of e] Evict_reads(3) [of m e] m(2) assms(2) by simp_all
  obtain l where "Lease_Lease m e = Some l"
    using assms(2) Evict_reads(5) [of m e] by auto
  then have "Lease_Lease m' e = Some (evict_lease l)"
    using Evict_of [of m e e] assms(2) by simp
  from evicted_calls [OF this _ assms(4)] obtain l' where
    l': "Lease_Lease m'' e = Some l'" "lease_State l' = LeaseEvicted"
    using assms(3) by (auto simp: evict_lease_def)
  moreover have "lease_inv m''" using assms(3,5) inv lease_calls_inv [of m' later] by simp
  ultimately show ?thesis
    by (auto simp: lease_inv_def Lease_Renew_def Lease_Expired_def Lease_Lease_def lease_lapsed_def)
qed

theorem evicted_never_revived_witness:
  "let m = foldl lease_step (Lease_New 5) [CallAcquire ''a'' 1]; m' = snd (Lease_Evict m ''a'');
       m'' = foldl lease_step m' [CallRenew ''a'' 2, CallAcquire ''b'' 3]
   in Lease_Expired m'' ''a'' 4 \<and> lm_slotOf m'' ''a'' = None"
proof -
  let ?m = "foldl lease_step (Lease_New 5) [CallAcquire ''a'' 1]"
  have "fst (Lease_Evict ?m ''a'')" by code_simp
  then have e: "Lease_Evict ?m ''a'' = (True, snd (Lease_Evict ?m ''a''))" by (metis prod.collapse)
  have "\<forall>c \<in> set [CallRenew ''a'' 2, CallAcquire ''b'' 3]. \<not> acquires ''a'' c" by simp
  from evicted_never_revived [OF refl e refl this] show ?thesis
    unfolding Let_def by (simp add: max_int64_def)
qed

text \<open>
  Eviction does not take an executor out of the table.  After it, and after any further calls,
  the executor is still among the ones the table lists as leased; until it acquires again every
  listing of the expired leases returns it, and evicting it succeeds once more.
\<close>

theorem evicted_still_listed:
  assumes "Lease_Evict m e = (True, m')" and "m'' = foldl lease_step m' later"
    and "range_order (lm_leases m'') ks"
  shows "e \<in> set (Lease_Executors m'' ks) \<and> fst (Lease_Evict m'' e)
    \<and> ((\<forall>c \<in> set later. \<not> acquires e c) \<longrightarrow> e \<in> set (Lease_ExpiredLeases m'' now ks))"
proof -
  obtain l where "Lease_Lease m e = Some l" using assms(1) Evict_reads(5) [of m e] by auto
  then have l: "Lease_Lease m' e = Some (evict_lease l)"
    using Evict_of [of m e e] assms(1) by simp
  then have "Lease_Lease m'' e \<noteq> None" using leases_kept [of m' e later] assms(2) by simp
  moreover have "e \<in> set (Lease_ExpiredLeases m'' now ks)" if "\<forall>c \<in> set later. \<not> acquires e c"
    using evicted_calls [OF l _ that] assms(2,3)
    by (auto simp: ExpiredLeases_set evict_lease_def lease_lapsed_def)
  ultimately show ?thesis using assms(3) by (auto simp: Executors_set Evict_reads(5))
qed

theorem evicted_still_listed_witness:
  "let m = snd (Lease_Evict (foldl lease_step (Lease_New 5) [CallAcquire ''a'' 1]) ''a'')
   in ''a'' \<in> set (Lease_Executors m [''a'']) \<and> ''a'' \<in> set (Lease_ExpiredLeases m 2 [''a''])"
proof -
  let ?m = "foldl lease_step (Lease_New 5) [CallAcquire ''a'' 1]"
  let ?m' = "snd (Lease_Evict ?m ''a'')"
  have "fst (Lease_Evict ?m ''a'')" by code_simp
  then have e: "Lease_Evict ?m ''a'' = (True, ?m')" by (metis prod.collapse)
  have k: "gkeys (lm_leases ?m') = [''a'']" by code_simp
  have "range_order (lm_leases (foldl lease_step ?m' [])) [''a'']"
    unfolding foldl_Nil range_order_def k by simp
  from evicted_still_listed [OF e refl this, of 2] show ?thesis unfolding Let_def by simp
qed

end
