(* ===== verification/Flow.thy ===== *)
theory Flow
  imports Model "HOL-Library.Signed_Division"
begin

text \<open>
  The per-executor token buckets of \<open>internal/flow\<close>.  A \<open>float64\<close> is the rational it denotes, and
  every arithmetic operation on floats is followed by the rounding \<open>fl\<close> of the format, an argument
  of the operations; \<open>float_rounding\<close> says what the bounds below use of it (round to nearest is
  monotone, exact on the integers up to \<open>2 ^ 53\<close>, and has a relative error of at most \<open>u\<close>).
  Infinities and NaN are not modelled: with a finite positive rate and burst the code makes none.
\<close>

section \<open>Policies and limiters\<close>

record policy =
  p_Rate :: rat
  p_Burst :: int

definition Policy_Validate :: "policy \<Rightarrow> bool" where
  "Policy_Validate p \<longleftrightarrow> \<not> p_Rate p \<le> 0 \<and> \<not> p_Burst p \<le> 0"

definition DefaultPolicy :: policy where
  "DefaultPolicy = \<lparr>p_Rate = 200, p_Burst = 400\<rparr>"

record bucket =
  b_tokens :: rat
  b_seen :: time

record limiter =
  lim_rate :: rat
  lim_burst :: rat
  lim_last :: "executor_id \<rightharpoonup> bucket"

definition NewLimiter :: "(rat \<Rightarrow> rat) \<Rightarrow> policy \<Rightarrow> limiter" where
  "NewLimiter fl p =
     (let p = (if Policy_Validate p then p else DefaultPolicy)
      in \<lparr>lim_rate = p_Rate p, lim_burst = fl (of_int (p_Burst p)), lim_last = Map.empty\<rparr>)"

text \<open>
  \<open>Time.Sub\<close> saturates at the range of a duration; \<open>Duration.Seconds\<close> adds the whole seconds and
  the fraction, both truncated towards zero.
\<close>

definition Time_Sub :: "time \<Rightarrow> time \<Rightarrow> duration" where
  "Time_Sub t s = max min_int64 (min max_int64 (t - s))"

definition Duration_Seconds :: "(rat \<Rightarrow> rat) \<Rightarrow> duration \<Rightarrow> rat" where
  "Duration_Seconds fl d =
     fl (of_int (d sdiv second) + fl (of_int (d smod second) / of_int second))"

definition zero_bucket :: bucket where
  "zero_bucket = \<lparr>b_tokens = 0, b_seen = zero_time\<rparr>"

definition bucket_at :: "limiter \<Rightarrow> executor_id \<Rightarrow> bucket" where
  "bucket_at l exec = (case lim_last l exec of None \<Rightarrow> zero_bucket | Some b \<Rightarrow> b)"

definition refill :: "(rat \<Rightarrow> rat) \<Rightarrow> limiter \<Rightarrow> bucket \<Rightarrow> time \<Rightarrow> bucket" where
  "refill fl l b now =
     (if b_seen b = zero_time then \<lparr>b_tokens = lim_burst l, b_seen = now\<rparr>
      else
        let elapsed = Duration_Seconds fl (Time_Sub now (b_seen b));
            tokens = fl (b_tokens b + fl (elapsed * lim_rate l));
            tokens = (if tokens > lim_burst l then lim_burst l else tokens)
        in \<lparr>b_tokens = tokens, b_seen = now\<rparr>)"

definition Allow :: "(rat \<Rightarrow> rat) \<Rightarrow> limiter \<Rightarrow> executor_id \<Rightarrow> time \<Rightarrow> bool \<times> limiter" where
  "Allow fl l exec now =
     (let b = refill fl l (bucket_at l exec) now
      in if b_tokens b < 1 then (False, l\<lparr>lim_last := (lim_last l)(exec \<mapsto> b)\<rparr>)
         else (True, l\<lparr>lim_last := (lim_last l)(exec \<mapsto> b\<lparr>b_tokens := fl (b_tokens b - 1)\<rparr>)\<rparr>))"

definition Credits :: "limiter \<Rightarrow> executor_id \<Rightarrow> rat" where
  "Credits l exec = b_tokens (bucket_at l exec)"

section \<open>What the bounds use of floating point\<close>

definition float_rounding :: "(rat \<Rightarrow> rat) \<Rightarrow> rat \<Rightarrow> bool" where
  "float_rounding fl u \<longleftrightarrow> mono fl \<and> (\<forall>k::int. \<bar>k\<bar> \<le> 2 ^ 53 \<longrightarrow> fl (of_int k) = of_int k) \<and>
     0 \<le> u \<and> (\<forall>x \<ge> 0. fl x \<le> x * (1 + u))"

lemma fl_mono: "float_rounding fl u \<Longrightarrow> x \<le> y \<Longrightarrow> fl x \<le> fl y"
  by (simp add: float_rounding_def monoD)

lemma fl_int: "float_rounding fl u \<Longrightarrow> \<bar>k\<bar> \<le> 2 ^ 53 \<Longrightarrow> fl (of_int k) = of_int k"
  by (simp add: float_rounding_def)

lemma fl_0: "float_rounding fl u \<Longrightarrow> fl 0 = 0"
  using fl_int [of fl u 0] by simp

lemma fl_1: "float_rounding fl u \<Longrightarrow> fl 1 = 1"
  using fl_int [of fl u 1] by simp

lemma fl_nonneg: "float_rounding fl u \<Longrightarrow> 0 \<le> x \<Longrightarrow> 0 \<le> fl x"
  using fl_mono [of fl u 0 x] by (simp add: fl_0)

lemma fl_err: "float_rounding fl u \<Longrightarrow> 0 \<le> x \<Longrightarrow> fl x \<le> x * (1 + u)"
  by (simp add: float_rounding_def)

lemma fl_u: "float_rounding fl u \<Longrightarrow> 0 \<le> u"
  by (simp add: float_rounding_def)

lemmas fl_rules = fl_mono fl_int fl_0 fl_1 fl_nonneg fl_err fl_u

lemma Seconds_bounds:
  assumes fl: "float_rounding fl u" and "0 \<le> d"
  shows "0 \<le> Duration_Seconds fl d" "Duration_Seconds fl d \<le> of_int d / 10 ^ 9 * (1 + u) ^ 2"
proof -
  have split: "d sdiv 1000000000 = d div 1000000000" "d smod 1000000000 = d mod 1000000000"
    using assms(2) by (cases "d = 0"; simp add: signed_divide_int_def signed_modulo_int_def)+
  let ?q = "of_int (d div 1000000000) :: rat" and ?r = "of_int (d mod 1000000000) / 1000000000 :: rat"
  have q: "0 \<le> ?q" using assms(2) by (simp add: pos_imp_zdiv_nonneg_iff)
  have r: "0 \<le> ?r" by simp
  have d: "of_int d / 10 ^ 9 = ?q + ?r"
  proof -
    have "of_int d = (of_int (1000000000 * (d div 1000000000) + d mod 1000000000) :: rat)" by simp
    then show ?thesis unfolding of_int_add of_int_mult by (simp add: field_simps)
  qed
  have "fl ?r \<le> ?r * (1 + u)" using fl_err [OF fl r] .
  moreover have "?q \<le> ?q * (1 + u)" using mult_left_mono [of 1 "1 + u" ?q] q fl_u [OF fl] by simp
  ultimately have sum: "?q + fl ?r \<le> (?q + ?r) * (1 + u)" unfolding distrib_right by (rule add_mono[rotated])
  have pos: "0 \<le> ?q + fl ?r" using q fl_nonneg [OF fl r] by simp
  then show "0 \<le> Duration_Seconds fl d"
    using fl_nonneg [OF fl] by (simp add: Duration_Seconds_def split)
  have "Duration_Seconds fl d \<le> (?q + fl ?r) * (1 + u)"
    using fl_err [OF fl pos] by (simp add: Duration_Seconds_def split)
  also have "\<dots> \<le> (?q + ?r) * (1 + u) * (1 + u)"
    using sum fl_u [OF fl] by (intro mult_right_mono) auto
  finally show "Duration_Seconds fl d \<le> of_int d / 10 ^ 9 * (1 + u) ^ 2"
    unfolding d by (simp add: power2_eq_square mult.assoc)
qed

section \<open>One bucket over time\<close>

text \<open>
  The bound on what one call adds: at most the refill of the elapsed time, enlarged by the four
  roundings on the way, and one rounding of the bucket's size for each of the two sums.
\<close>

definition bucket_ok :: "limiter \<Rightarrow> bucket \<Rightarrow> bool" where
  "bucket_ok l b \<longleftrightarrow> b_seen b \<noteq> zero_time \<and> 0 \<le> b_tokens b \<and> b_tokens b \<le> lim_burst l"

definition limiter_ok :: "limiter \<Rightarrow> bool" where
  "limiter_ok l \<longleftrightarrow> 0 < lim_rate l \<and> 1 \<le> lim_burst l \<and>
     (\<exists>k::int. k \<le> 2 ^ 53 \<and> lim_burst l = of_int k) \<and>
     (\<forall>e b. lim_last l e = Some b \<longrightarrow> bucket_ok l b)"

definition earned :: "rat \<Rightarrow> limiter \<Rightarrow> duration \<Rightarrow> rat" where
  "earned u l d = (1 + u) ^ 4 * lim_rate l * (of_int d / 10 ^ 9)"

lemma refill_ok:
  assumes fl: "float_rounding fl u" and l: "limiter_ok l" and b: "bucket_ok l b"
    and now: "b_seen b \<le> now"
  shows "0 \<le> b_tokens (refill fl l b now)" "b_tokens (refill fl l b now) \<le> lim_burst l"
    "b_tokens (refill fl l b now) \<le> b_tokens b + u * lim_burst l + earned u l (now - b_seen b)"
    "b_seen (refill fl l b now) = now"
proof -
  let ?d = "Time_Sub now (b_seen b)" and ?t = "b_tokens b"
  let ?s = "Duration_Seconds fl ?d"
  have rate: "0 < lim_rate l" and burst: "1 \<le> lim_burst l" using l by (simp_all add: limiter_ok_def)
  have t: "0 \<le> ?t" "?t \<le> lim_burst l" and seen: "b_seen b \<noteq> zero_time"
    using b by (simp_all add: bucket_ok_def)
  have d: "0 \<le> ?d" "?d \<le> now - b_seen b" using now by (auto simp: Time_Sub_def max_def min_def min_int64_def max_int64_def)
  note s = Seconds_bounds [OF fl d(1)]
  have u: "0 \<le> u" using fl by (rule fl_u)
  have sr: "0 \<le> ?s * lim_rate l" using s(1) rate by simp
  have x: "0 \<le> fl (?s * lim_rate l)" using fl_nonneg [OF fl sr] .
  have "fl (?s * lim_rate l) \<le> ?s * lim_rate l * (1 + u)" using fl_err [OF fl sr] .
  also have "\<dots> \<le> of_int ?d / 10 ^ 9 * (1 + u) ^ 2 * lim_rate l * (1 + u)"
    using s(2) rate u by (intro mult_right_mono) auto
  also have "\<dots> = of_int ?d / 10 ^ 9 * lim_rate l * (1 + u) ^ 3"
    by (simp add: power2_eq_square power3_eq_cube mult_ac)
  finally have "fl (?s * lim_rate l) \<le> of_int ?d / 10 ^ 9 * lim_rate l * (1 + u) ^ 3" .
  moreover have "fl (?t + fl (?s * lim_rate l)) \<le> (?t + fl (?s * lim_rate l)) * (1 + u)"
    using fl_err [OF fl] t(1) x by simp
  moreover have "(?t + fl (?s * lim_rate l)) * (1 + u) \<le>
      (?t + of_int ?d / 10 ^ 9 * lim_rate l * (1 + u) ^ 3) * (1 + u)"
    using calculation(1) u by (intro mult_right_mono) auto
  moreover have "(?t + of_int ?d / 10 ^ 9 * lim_rate l * (1 + u) ^ 3) * (1 + u) = ?t + u * ?t + earned u l ?d"
    by (simp add: earned_def algebra_simps power3_eq_cube power4_eq_xxxx)
  moreover have "u * ?t \<le> u * lim_burst l" using t(2) u by (rule mult_left_mono)
  moreover have "earned u l ?d \<le> earned u l (now - b_seen b)"
    using d(2) rate u by (auto simp: earned_def intro!: mult_left_mono divide_right_mono)
  ultimately have up: "fl (?t + fl (?s * lim_rate l)) \<le> ?t + u * lim_burst l + earned u l (now - b_seen b)"
    by linarith
  have lo: "0 \<le> fl (?t + fl (?s * lim_rate l))" using fl_nonneg [OF fl] t(1) x by simp
  show "0 \<le> b_tokens (refill fl l b now)" "b_tokens (refill fl l b now) \<le> lim_burst l"
    "b_tokens (refill fl l b now) \<le> b_tokens b + u * lim_burst l + earned u l (now - b_seen b)"
    "b_seen (refill fl l b now) = now"
    using up lo burst seen by (simp_all add: refill_def Let_def)
qed

lemma Allow_seen:
  "lim_last (snd (Allow fl l e now)) e' = (if e' = e then Some
     (if fst (Allow fl l e now)
      then (refill fl l (bucket_at l e) now)\<lparr>b_tokens := fl (b_tokens (refill fl l (bucket_at l e) now) - 1)\<rparr>
      else refill fl l (bucket_at l e) now) else lim_last l e')"
  "fst (Allow fl l e now) \<longleftrightarrow> 1 \<le> b_tokens (refill fl l (bucket_at l e) now)"
  "lim_rate (snd (Allow fl l e now)) = lim_rate l"
  "lim_burst (snd (Allow fl l e now)) = lim_burst l"
  by (auto simp: Allow_def Let_def not_less)

lemma take_token:
  assumes fl: "float_rounding fl u" and "1 \<le> t" "t \<le> B"
  shows "0 \<le> fl (t - 1)" "fl (t - 1) + 1 \<le> t + u * B"
proof -
  show "0 \<le> fl (t - 1)" using assms by (intro fl_nonneg [OF fl]) simp
  have "fl (t - 1) \<le> (t - 1) * (1 + u)" using assms by (intro fl_err [OF fl]) simp
  also have "\<dots> = t - 1 + u * (t - 1)" by (simp add: algebra_simps)
  also have "u * (t - 1) \<le> u * B" using assms fl_u [OF fl] by (intro mult_left_mono) auto
  finally show "fl (t - 1) + 1 \<le> t + u * B" by simp
qed

text \<open>
  The state of a bucket before its first call is the full bucket of that instant: with it, one
  bound covers every call.
\<close>

definition bucket_from :: "limiter \<Rightarrow> executor_id \<Rightarrow> time \<Rightarrow> bucket" where
  "bucket_from l e t = (case lim_last l e of None \<Rightarrow> \<lparr>b_tokens = lim_burst l, b_seen = t\<rparr> | Some b \<Rightarrow> b)"

lemma fl_burst: "float_rounding fl u \<Longrightarrow> limiter_ok l \<Longrightarrow> fl (lim_burst l) = lim_burst l"
  by (auto simp: limiter_ok_def fl_int)

lemma Allow_bucket:
  assumes fl: "float_rounding fl u" and l: "limiter_ok l" and "0 < t"
    and t: "t \<le> now" "\<And>b. lim_last l e = Some b \<Longrightarrow> b_seen b \<le> now"
  defines "b \<equiv> bucket_from l e t" and "l' \<equiv> snd (Allow fl l e now)"
    and "g \<equiv> (if fst (Allow fl l e now) then 1 else 0)"
  shows "\<exists>b'. lim_last l' e = Some b' \<and> bucket_ok l b' \<and> b_seen b' = now \<and>
      b_tokens b' + g \<le> b_tokens b + 2 * (u * lim_burst l) + earned u l (now - b_seen b)"
proof -
  let ?r = "refill fl l (bucket_at l e) now"
  have u: "0 \<le> u" using fl by (rule fl_u)
  have B0: "0 \<le> u * lim_burst l" using u l by (simp add: limiter_ok_def)
  have e0: "0 \<le> earned u l d" if "0 \<le> d" for d
    using that u l by (simp add: earned_def limiter_ok_def)
  have r: "b_seen ?r = now \<and> 0 \<le> b_tokens ?r \<and> b_tokens ?r \<le> lim_burst l \<and>
      b_tokens ?r \<le> b_tokens b + u * lim_burst l + earned u l (now - b_seen b)"
  proof (cases "lim_last l e")
    case None
    then show ?thesis using l B0 e0 [of "now - t"] t(1)
      by (simp add: b_def bucket_from_def bucket_at_def refill_def zero_bucket_def limiter_ok_def)
  next
    case (Some c)
    then have "bucket_ok l c" using l by (simp add: limiter_ok_def)
    then show ?thesis using refill_ok [OF fl l _ t(2) [OF Some]] Some
      by (simp add: b_def bucket_from_def bucket_at_def)
  qed
  note take = take_token [OF fl _ conjunct1 [OF conjunct2 [OF conjunct2 [OF r]]]]
  show ?thesis
  proof (cases "fst (Allow fl l e now)")
    case True
    then have "1 \<le> b_tokens ?r" by (simp add: Allow_seen(2))
    note take = take [OF this]
    moreover have "fl (b_tokens ?r - 1) \<le> lim_burst l"
    proof -
      have "fl (b_tokens ?r - 1) \<le> fl (lim_burst l)" using r by (intro fl_mono [OF fl]) simp
      then show ?thesis using fl_burst [OF fl l] by simp
    qed
    ultimately show ?thesis using r True assms(3) t(1)
      by (simp add: l'_def g_def Allow_seen(1) bucket_ok_def)
  next
    case False
    then show ?thesis using r assms(3) t(1) B0 by (simp add: l'_def g_def Allow_seen(1) bucket_ok_def)
  qed
qed

section \<open>Runs of calls\<close>

fun allow_all ::
  "(rat \<Rightarrow> rat) \<Rightarrow> limiter \<Rightarrow> (executor_id \<times> time) list \<Rightarrow> bool list \<times> limiter" where
  "allow_all fl l [] = ([], l)"
| "allow_all fl l ((e, now) # cs) =
     (let (g, l) = Allow fl l e now; (gs, l) = allow_all fl l cs in (g # gs, l))"

definition calls_of :: "executor_id \<Rightarrow> (executor_id \<times> time) list \<Rightarrow> nat" where
  "calls_of e cs = length (filter (\<lambda>(e', t). e' = e) cs)"

definition granted :: "executor_id \<Rightarrow> (executor_id \<times> time) list \<Rightarrow> bool list \<Rightarrow> nat" where
  "granted e cs gs = length (filter (\<lambda>((e', t), g). e' = e \<and> g) (zip cs gs))"

lemma calls_simps [simp]:
  "calls_of e [] = 0" "calls_of e ((e', t) # cs) = (if e' = e then Suc (calls_of e cs) else calls_of e cs)"
  "granted e [] gs = 0"
  "granted e ((e', t) # cs) (g # gs) = (if e' = e \<and> g then Suc (granted e cs gs) else granted e cs gs)"
  by (simp_all add: calls_of_def granted_def)

lemma allow_all_Cons:
  "fst (allow_all fl l ((e, now) # cs)) = fst (Allow fl l e now) # fst (allow_all fl (snd (Allow fl l e now)) cs)"
  "snd (allow_all fl l ((e, now) # cs)) = snd (allow_all fl (snd (Allow fl l e now)) cs)"
  by (simp_all add: Let_def split: prod.split)

declare allow_all.simps(2) [simp del]

definition seen_by :: "limiter \<Rightarrow> time \<Rightarrow> bool" where
  "seen_by l t \<longleftrightarrow> (\<forall>e b. lim_last l e = Some b \<longrightarrow> b_seen b \<le> t)"

lemma Allow_ok:
  assumes fl: "float_rounding fl u" and l: "limiter_ok l" and t: "0 < now" "seen_by l now"
  shows "limiter_ok (snd (Allow fl l e now))" "seen_by (snd (Allow fl l e now)) now"
proof -
  obtain b where b: "lim_last (snd (Allow fl l e now)) e = Some b" "bucket_ok l b" "b_seen b = now"
    using Allow_bucket [OF fl l t(1) order_refl, of e] t(2) by (auto simp: seen_by_def)
  have other: "e' \<noteq> e \<Longrightarrow> lim_last (snd (Allow fl l e now)) e' = lim_last l e'" for e'
    by (simp add: Allow_seen(1))
  have "bucket_ok (snd (Allow fl l e now)) c \<longleftrightarrow> bucket_ok l c" for c
    by (simp add: bucket_ok_def Allow_seen(4))
  with b other l show "limiter_ok (snd (Allow fl l e now))"
    by (simp add: limiter_ok_def Allow_seen(3,4)) (metis option.inject)
  show "seen_by (snd (Allow fl l e now)) now"
    using b other t(2) unfolding seen_by_def by (metis option.inject order_refl)
qed

lemma earned_add: "earned u l a + earned u l b = earned u l (a + b)"
  by (simp add: earned_def add_divide_distrib distrib_left)

lemma earned_mono: "0 \<le> u \<Longrightarrow> limiter_ok l \<Longrightarrow> a \<le> b \<Longrightarrow> earned u l a \<le> earned u l b"
  by (auto simp: earned_def limiter_ok_def intro!: mult_left_mono divide_right_mono)

lemma grants_bounded:
  assumes fl: "float_rounding fl u"
  shows "limiter_ok l \<Longrightarrow> 0 < t \<Longrightarrow> seen_by l t \<Longrightarrow> sorted (t # map snd cs @ [t1]) \<Longrightarrow>
    of_nat (granted e cs (fst (allow_all fl l cs))) \<le>
      b_tokens (bucket_from l e t) + of_nat (calls_of e cs) * (2 * (u * lim_burst l))
        + earned u l (t1 - b_seen (bucket_from l e t))"
proof (induction cs arbitrary: l t)
  case Nil
  then have "b_seen (bucket_from l e t) \<le> t" "t \<le> t1"
    by (auto simp: bucket_from_def seen_by_def split: option.split)
  moreover have "0 \<le> b_tokens (bucket_from l e t)"
    using Nil.prems(1) by (auto simp: bucket_from_def limiter_ok_def bucket_ok_def split: option.split)
  ultimately have "0 \<le> b_tokens (bucket_from l e t)" "b_seen (bucket_from l e t) \<le> t1" by simp_all
  then show ?case using earned_mono [OF fl_u [OF fl] Nil.prems(1), of 0 "t1 - b_seen (bucket_from l e t)"]
    by (simp add: earned_def)
next
  case (Cons c cs)
  obtain e' now where c: "c = (e', now)" by fastforce
  let ?l = "snd (Allow fl l e' now)"
  have now: "t \<le> now" "0 < now" "sorted (now # map snd cs @ [t1])" "seen_by l now" "now \<le> t1"
    using Cons.prems by (auto simp: c seen_by_def dest: order_trans)
  note ok = Allow_ok [OF fl Cons.prems(1) now(2,4), of e']
  note IH = Cons.IH [OF ok(1) now(2) ok(2) now(3)]
  have rate: "earned u ?l d = earned u l d" "lim_burst ?l = lim_burst l" for d
    by (simp_all add: earned_def Allow_seen(3,4))
  show ?case
  proof (cases "e' = e")
    case True
    obtain b' where b': "lim_last ?l e = Some b'" "b_seen b' = now"
      and step: "b_tokens b' + (if fst (Allow fl l e now) then 1 else 0) \<le> b_tokens (bucket_from l e t)
        + 2 * (u * lim_burst l) + earned u l (now - b_seen (bucket_from l e t))"
      using Allow_bucket [OF fl Cons.prems(1,2) now(1), of e] now(4) True by (auto simp: seen_by_def)
    have "bucket_from ?l e now = b'" using b' by (simp add: bucket_from_def)
    then have "of_nat (granted e cs (fst (allow_all fl ?l cs))) \<le>
        b_tokens b' + of_nat (calls_of e cs) * (2 * (u * lim_burst l)) + earned u l (t1 - now)"
      using IH b'(2) by (simp add: rate)
    moreover have "earned u l (now - b_seen (bucket_from l e t)) + earned u l (t1 - now) =
        earned u l (t1 - b_seen (bucket_from l e t))" by (simp add: earned_add)
    ultimately show ?thesis using step True by (auto simp: c allow_all_Cons distrib_right)
  next
    case False
    then have "lim_last ?l e = lim_last l e" by (simp add: Allow_seen(1))
    then have "b_tokens (bucket_from ?l e now) = b_tokens (bucket_from l e t)"
      "b_seen (bucket_from l e t) \<le> b_seen (bucket_from ?l e now)"
      using now(1) by (simp_all add: bucket_from_def rate split: option.split)
    with IH earned_mono [OF fl_u [OF fl] Cons.prems(1), of "t1 - b_seen (bucket_from ?l e now)" "t1 - b_seen (bucket_from l e t)"]
    show ?thesis using False by (simp add: c allow_all_Cons rate)
  qed
qed

lemma allow_all_ok:
  "float_rounding fl u \<Longrightarrow> limiter_ok l \<Longrightarrow> 0 < t \<Longrightarrow> seen_by l t \<Longrightarrow> sorted (t # map snd cs) \<Longrightarrow>
   limiter_ok (snd (allow_all fl l cs)) \<and> lim_burst (snd (allow_all fl l cs)) = lim_burst l
   \<and> lim_rate (snd (allow_all fl l cs)) = lim_rate l"
proof (induction cs arbitrary: l t)
  case (Cons c cs)
  obtain e now where c: "c = (e, now)" by fastforce
  have now: "0 < now" "seen_by l now" "sorted (now # map snd cs)"
    using Cons.prems by (auto simp: c seen_by_def dest: order_trans)
  note ok = Allow_ok [OF Cons.prems(1,2) now(1,2), of e]
  show ?case using Cons.IH [OF Cons.prems(1) ok(1) now(1) ok(2) now(3)]
    by (simp only: c allow_all_Cons Allow_seen(3,4))
qed simp

lemma NewLimiter_ok:
  assumes fl: "float_rounding fl u" and "p_Burst p \<le> 2 ^ 53"
  shows "limiter_ok (NewLimiter fl p)" "seen_by (NewLimiter fl p) t"
    "bucket_from (NewLimiter fl p) e t = \<lparr>b_tokens = lim_burst (NewLimiter fl p), b_seen = t\<rparr>"
proof -
  have "\<exists>k::int. 1 \<le> k \<and> k \<le> 2 ^ 53 \<and> lim_burst (NewLimiter fl p) = of_int k"
  proof (cases "Policy_Validate p")
    case True
    then show ?thesis using assms(2) fl_int [OF fl, of "p_Burst p"]
      by (intro exI [of _ "p_Burst p"]) (simp add: NewLimiter_def Let_def Policy_Validate_def)
  next
    case False
    then show ?thesis using fl_int [OF fl, of 400]
      by (intro exI [of _ 400]) (simp add: NewLimiter_def Let_def DefaultPolicy_def)
  qed
  moreover have "0 < lim_rate (NewLimiter fl p)" "lim_last (NewLimiter fl p) = Map.empty"
    by (simp_all add: NewLimiter_def Let_def Policy_Validate_def DefaultPolicy_def not_le)
  ultimately show "limiter_ok (NewLimiter fl p)" unfolding limiter_ok_def by force
qed (simp_all add: NewLimiter_def Let_def seen_by_def bucket_from_def)

section \<open>A burst within the credits\<close>

text \<open>All of a series of calls of one executor are allowed, at the instants \<open>ts\<close>.\<close>

fun admits :: "(rat \<Rightarrow> rat) \<Rightarrow> executor_id \<Rightarrow> limiter \<Rightarrow> time list \<Rightarrow> bool" where
  "admits fl e l [] \<longleftrightarrow> True"
| "admits fl e l (now # ts) \<longleftrightarrow> fst (Allow fl l e now) \<and> admits fl e (snd (Allow fl l e now)) ts"

definition has_credits :: "nat \<Rightarrow> time \<Rightarrow> limiter \<Rightarrow> executor_id \<Rightarrow> bool" where
  "has_credits n t l e \<longleftrightarrow> 0 \<le> lim_rate l \<and> (\<exists>k::int. lim_burst l = of_int k \<and> int n \<le> k \<and> k \<le> 2 ^ 53) \<and>
     (\<forall>b. lim_last l e = Some b \<longrightarrow> of_nat n \<le> b_tokens b \<and> b_seen b \<le> t)"

lemma refill_keeps:
  assumes fl: "float_rounding fl u" and c: "has_credits n t l e" and "t \<le> now"
  shows "of_nat n \<le> b_tokens (refill fl l (bucket_at l e) now)"
proof -
  from c obtain k :: int where k: "lim_burst l = of_int k" "int n \<le> k" "k \<le> 2 ^ 53" by (auto simp: has_credits_def)
  have cap: "(of_nat n :: rat) \<le> lim_burst l" using k(1,2) by (metis of_int_le_iff of_int_of_nat_eq)
  show ?thesis
  proof (cases "b_seen (bucket_at l e) = zero_time")
    case True
    then show ?thesis using cap by (simp add: refill_def)
  next
    case False
    then obtain b where b: "lim_last l e = Some b" "bucket_at l e = b"
      by (auto simp: bucket_at_def zero_bucket_def split: option.splits)
    then have tok: "of_nat n \<le> b_tokens b" "b_seen b \<le> now" using c assms(3) by (auto simp: has_credits_def)
    define x where "x = fl (Duration_Seconds fl (Time_Sub now (b_seen b)) * lim_rate l)"
    have "0 \<le> Time_Sub now (b_seen b)" using tok(2) by (simp add: Time_Sub_def max_int64_def)
    then have "0 \<le> Duration_Seconds fl (Time_Sub now (b_seen b)) * lim_rate l"
      using Seconds_bounds(1) [OF fl] c by (simp add: has_credits_def)
    then have "0 \<le> x" using fl_nonneg [OF fl] by (simp add: x_def)
    then have "of_int (int n) \<le> b_tokens b + x" using tok(1) by simp
    from fl_mono [OF fl this] have "of_nat n \<le> fl (b_tokens b + x)" using fl_int [OF fl, of "int n"] k by simp
    then show ?thesis using False b(2) cap by (simp add: refill_def Let_def x_def)
  qed
qed

lemma burst_granted:
  assumes fl: "float_rounding fl u"
  shows "has_credits (length ts) t l e \<Longrightarrow> sorted (t # ts) \<Longrightarrow> admits fl e l ts"
proof (induction ts arbitrary: t l)
  case (Cons now ts)
  have c: "of_nat (length (now # ts)) \<le> b_tokens (refill fl l (bucket_at l e) now)"
    using refill_keeps [OF fl Cons.prems(1)] Cons.prems(2) by simp
  have allow: "Allow fl l e now = (True, l\<lparr>lim_last := (lim_last l)(e \<mapsto>
      (refill fl l (bucket_at l e) now)\<lparr>b_tokens := fl (b_tokens (refill fl l (bucket_at l e) now) - 1)\<rparr>)\<rparr>)"
    using c by (simp add: Allow_def Let_def)
  have seen: "b_seen (refill fl l (bucket_at l e) now) = now" by (simp add: refill_def Let_def)
  have "of_int (int (length ts)) \<le> b_tokens (refill fl l (bucket_at l e) now) - 1" using c by simp
  from fl_mono [OF fl this]
  have "of_nat (length ts) \<le> fl (b_tokens (refill fl l (bucket_at l e) now) - 1)"
    using fl_int [OF fl, of "int (length ts)"] Cons.prems(1) by (auto simp: has_credits_def)
  then have "has_credits (length ts) now (snd (Allow fl l e now)) e"
    using Cons.prems(1) seen by (auto simp: has_credits_def allow)
  with Cons.IH [of now] Cons.prems(2) show ?case by (simp add: allow)
qed simp

section \<open>Properties\<close>

text \<open>
  C31: the rate an executor gets is bounded by its own bucket.  Whatever calls are made in a span of
  time, in the order of their instants and interleaved with the calls of any other executors, the
  calls of one executor that are allowed are at most the burst, plus the rate times the span, up
  to the rounding of the floats the code keeps; and its credits stay between 0 and the burst.
\<close>

theorem limiter_bounds_grants:
  assumes "float_rounding fl u" and "Policy_Validate p" and "p_Burst p \<le> 2 ^ 53"
    and "0 < t0" and "sorted (t0 # map snd calls @ [t1])"
    and "allow_all fl (NewLimiter fl p) calls = (grants, l)"
  shows "of_nat (granted e calls grants) \<le>
      of_int (p_Burst p) + (1 + u) ^ 4 * p_Rate p * (of_int (t1 - t0) / 10 ^ 9)
        + of_nat (calls_of e calls) * (2 * (u * of_int (p_Burst p)))
    \<and> 0 \<le> Credits l e \<and> Credits l e \<le> of_int (p_Burst p)"
proof -
  let ?l = "NewLimiter fl p"
  note new = NewLimiter_ok [OF assms(1,3)]
  have B: "lim_burst ?l = of_int (p_Burst p)" "lim_rate ?l = p_Rate p"
    using assms(2,3) fl_int [OF assms(1), of "p_Burst p"]
    by (simp_all add: NewLimiter_def Let_def Policy_Validate_def)
  have "of_nat (granted e calls grants) \<le>
      of_int (p_Burst p) + (1 + u) ^ 4 * p_Rate p * (of_int (t1 - t0) / 10 ^ 9)
        + of_nat (calls_of e calls) * (2 * (u * of_int (p_Burst p)))"
    using grants_bounded [OF assms(1) new(1) assms(4) new(2) assms(5), of e] assms(6)
    by (simp add: new(3) B earned_def)
  moreover have "limiter_ok l \<and> lim_burst l = of_int (p_Burst p)"
    using allow_all_ok [OF assms(1) new(1) assms(4) new(2), of calls] assms(5,6) B
    by (simp add: sorted_append)
  then have "0 \<le> Credits l e \<and> Credits l e \<le> of_int (p_Burst p)"
    by (auto simp: Credits_def bucket_at_def zero_bucket_def limiter_ok_def bucket_ok_def split: option.split)
  ultimately show ?thesis by simp
qed

theorem limiter_bounds_grants_witness:
  "fst (allow_all id (NewLimiter id \<lparr>p_Rate = 2, p_Burst = 2\<rparr>)
      [(''a'', 1000000000), (''a'', 1000000000), (''b'', 1000000000), (''a'', 1000000000), (''a'', 1500000000)])
     = [True, True, True, False, True]
   \<and> (of_nat (granted ''a'' [(''a'', 1000000000), (''a'', 1000000000), (''b'', 1000000000), (''a'', 1000000000), (''a'', 1500000000)]
        [True, True, True, False, True]) :: rat) \<le> 2 + 2 * (1 / 2)"
proof -
  let ?p = "\<lparr>p_Rate = 2, p_Burst = 2\<rparr>"
  let ?cs = "[(''a'', 1000000000), (''a'', 1000000000), (''b'', 1000000000), (''a'', 1000000000), (''a'', 1500000000)]
    :: (executor_id \<times> time) list"
  have fl: "float_rounding id 0" by (simp add: float_rounding_def mono_def)
  have run: "fst (allow_all id (NewLimiter id ?p) ?cs) = [True, True, True, False, True]" by code_simp
  have *: "Policy_Validate ?p" "p_Burst ?p \<le> 2 ^ 53" "sorted (1000000000 # map snd ?cs @ [1500000000 :: int])"
    by (simp_all add: Policy_Validate_def)
  from limiter_bounds_grants [OF fl *(1,2) _ *(3), of "fst (allow_all id (NewLimiter id ?p) ?cs)"
      "snd (allow_all id (NewLimiter id ?p) ?cs)" "''a''"] run
  show ?thesis by simp
qed

text \<open>
  An executor is never locked out, and never by another one.  On a limiter reached by any calls,
  the first call of an executor is allowed; a later call is allowed whenever the refill the code
  computes for the time since the last one is at least one token; and a call leaves the credits of
  every other executor as they are.
\<close>

theorem limiter_grants_refilled:
  assumes "float_rounding fl u" and "p_Burst p \<le> 2 ^ 53"
    and "0 < t0" and "sorted (t0 # map snd calls @ [now])"
    and "l = snd (allow_all fl (NewLimiter fl p) calls)"
  shows "(lim_last l e = None \<longrightarrow> fst (Allow fl l e now))
    \<and> (\<forall>b. lim_last l e = Some b \<longrightarrow>
          1 \<le> fl (Duration_Seconds fl (Time_Sub now (b_seen b)) * lim_rate l) \<longrightarrow> fst (Allow fl l e now))
    \<and> (\<forall>e'. e' \<noteq> e \<longrightarrow> Credits (snd (Allow fl l e now)) e' = Credits l e')"
proof -
  note new = NewLimiter_ok [OF assms(1,2)]
  have l: "limiter_ok l"
    using allow_all_ok [OF assms(1) new(1) assms(3) new(2), of calls] assms(4,5) by (simp add: sorted_append)
  have "fst (Allow fl l e now)" if b: "lim_last l e = Some b"
    and r: "1 \<le> fl (Duration_Seconds fl (Time_Sub now (b_seen b)) * lim_rate l)" for b
  proof -
    have "bucket_ok l b" using l b by (simp add: limiter_ok_def)
    then have "1 \<le> b_tokens b + fl (Duration_Seconds fl (Time_Sub now (b_seen b)) * lim_rate l)"
      using r by (simp add: bucket_ok_def)
    from fl_mono [OF assms(1) this]
    have "1 \<le> fl (b_tokens b + fl (Duration_Seconds fl (Time_Sub now (b_seen b)) * lim_rate l))"
      by (simp add: fl_1 [OF assms(1)])
    then show ?thesis using \<open>bucket_ok l b\<close> b l
      by (simp add: Allow_seen(2) bucket_at_def refill_def Let_def bucket_ok_def limiter_ok_def)
  qed
  moreover have "fst (Allow fl l e now)" if "lim_last l e = None"
    using that l by (simp add: Allow_seen(2) bucket_at_def zero_bucket_def refill_def limiter_ok_def)
  moreover have "Credits (snd (Allow fl l e now)) e' = Credits l e'" if "e' \<noteq> e" for e'
    using that by (simp add: Credits_def bucket_at_def Allow_seen(1))
  ultimately show ?thesis by blast
qed

theorem limiter_grants_refilled_witness:
  "let l = snd (allow_all id (NewLimiter id \<lparr>p_Rate = 2, p_Burst = 1\<rparr>) [(''a'', 1000000000)])
   in \<not> fst (Allow id l ''a'' 1000000000) \<and> fst (Allow id l ''a'' 1500000000)
     \<and> fst (Allow id l ''b'' 1500000000)"
proof -
  let ?p = "\<lparr>p_Rate = 2, p_Burst = 1\<rparr>"
  let ?l = "snd (allow_all id (NewLimiter id ?p) [(''a'', 1000000000)])"
  have fl: "float_rounding id 0" by (simp add: float_rounding_def mono_def)
  have b: "lim_last ?l ''a'' = Some \<lparr>b_tokens = 0, b_seen = 1000000000\<rparr>" "lim_last ?l ''b'' = None"
    "lim_rate ?l = 2" by code_simp+
  have no: "\<not> fst (Allow id ?l ''a'' 1000000000)" by code_simp
  have r: "(1::rat) \<le> id (Duration_Seconds id (Time_Sub 1500000000 1000000000) * 2)" by code_simp
  have a: "fst (Allow id ?l ''a'' 1500000000)" if "lim_last ?l ''a'' = Some \<lparr>b_tokens = 0, b_seen = 1000000000\<rparr>"
    using limiter_grants_refilled [OF fl, of ?p 1000000000 "[(''a'', 1000000000)]" 1500000000 ?l "''a''"] r b(3) that
    by simp
  have "fst (Allow id ?l ''b'' 1500000000)"
    using limiter_grants_refilled [OF fl, of ?p 1000000000 "[(''a'', 1000000000)]" 1500000000 ?l "''b''"] b(2)
    by simp
  then show ?thesis unfolding Let_def using no a [OF b(1)] by blast
qed

end
