(* ===== verification/Metric.thy ===== *)
theory Metric
  imports Model
begin

text \<open>
  The scheduler counters of \<open>internal/metric\<close>: 64-bit words incremented atomically and read as
  signed integers.
\<close>

type_synonym counters = uint64

definition NewCounters :: counters where "NewCounters = 0"

definition Inc :: "counters \<Rightarrow> counters" where "Inc c = c + 1"

definition Counters_Value :: "counters \<Rightarrow> int64" where "Counters_Value c = sint c"

record metrics =
  m_published :: counters
  m_dispatched :: counters
  m_failed :: counters
  m_evicted :: counters
  m_succeeded :: counters

definition Metric_New :: metrics where
  "Metric_New = \<lparr>m_published = NewCounters, m_dispatched = NewCounters, m_failed = NewCounters,
     m_evicted = NewCounters, m_succeeded = NewCounters\<rparr>"

definition Published :: "metrics \<Rightarrow> metrics" where
  "Published m = m\<lparr>m_published := Inc (m_published m)\<rparr>"

definition Metric_Dispatched :: "metrics \<Rightarrow> metrics" where
  "Metric_Dispatched m = m\<lparr>m_dispatched := Inc (m_dispatched m)\<rparr>"

definition Failed :: "metrics \<Rightarrow> metrics" where
  "Failed m = m\<lparr>m_failed := Inc (m_failed m)\<rparr>"

definition Evicted :: "metrics \<Rightarrow> metrics" where
  "Evicted m = m\<lparr>m_evicted := Inc (m_evicted m)\<rparr>"

definition Succeeded :: "metrics \<Rightarrow> metrics" where
  "Succeeded m = m\<lparr>m_succeeded := Inc (m_succeeded m)\<rparr>"

record metrics_snapshot =
  ms_Published :: int64
  ms_Dispatched :: int64
  ms_Failed :: int64
  ms_Evicted :: int64
  ms_Succeeded :: int64

definition Metric_Snapshot :: "metrics \<Rightarrow> metrics_snapshot" where
  "Metric_Snapshot m =
     \<lparr>ms_Published = Counters_Value (m_published m), ms_Dispatched = Counters_Value (m_dispatched m),
      ms_Failed = Counters_Value (m_failed m), ms_Evicted = Counters_Value (m_evicted m),
      ms_Succeeded = Counters_Value (m_succeeded m)\<rparr>"

lemmas metric_ops = Published_def Metric_Dispatched_def Failed_def Evicted_def Succeeded_def

datatype metric_event = EvPublished | EvDispatched | EvFailed | EvEvicted | EvSucceeded

fun metric_step :: "metrics \<Rightarrow> metric_event \<Rightarrow> metrics" where
  "metric_step m EvPublished = Published m"
| "metric_step m EvDispatched = Metric_Dispatched m"
| "metric_step m EvFailed = Failed m"
| "metric_step m EvEvicted = Evicted m"
| "metric_step m EvSucceeded = Succeeded m"

lemma count_step:
  "m_published (foldl metric_step m es) = m_published m + of_nat (count_list es EvPublished)"
  "m_dispatched (foldl metric_step m es) = m_dispatched m + of_nat (count_list es EvDispatched)"
  "m_failed (foldl metric_step m es) = m_failed m + of_nat (count_list es EvFailed)"
  "m_evicted (foldl metric_step m es) = m_evicted m + of_nat (count_list es EvEvicted)"
  "m_succeeded (foldl metric_step m es) = m_succeeded m + of_nat (count_list es EvSucceeded)"
proof (induction es arbitrary: m)
  case (Cons e es)
  { case 1 then show ?case by (cases e) (simp_all add: Cons metric_ops Inc_def) next
    case 2 then show ?case by (cases e) (simp_all add: Cons metric_ops Inc_def) next
    case 3 then show ?case by (cases e) (simp_all add: Cons metric_ops Inc_def) next
    case 4 then show ?case by (cases e) (simp_all add: Cons metric_ops Inc_def) next
    case 5 then show ?case by (cases e) (simp_all add: Cons metric_ops Inc_def) }
qed simp_all

lemma Value_of_nat: "Counters_Value (0 + of_nat n) = wrap64 (int n)"
proof -
  have "sint (word_of_int (int n) :: 64 word) = wrap64 (int n)"
    by (simp add: int_word_sint wrap64_def del: of_int_of_nat_eq)
  then show ?thesis by (simp add: Counters_Value_def)
qed

text \<open>
  The snapshot reports, for each counter, how often its event was recorded, wrapped to a signed
  64-bit integer; so the exact number as long as fewer than \<open>2 ^ 63\<close> were.
\<close>

theorem snapshot_counts_events:
  "Metric_Snapshot (foldl metric_step Metric_New es) =
     \<lparr>ms_Published = wrap64 (int (count_list es EvPublished)),
      ms_Dispatched = wrap64 (int (count_list es EvDispatched)),
      ms_Failed = wrap64 (int (count_list es EvFailed)),
      ms_Evicted = wrap64 (int (count_list es EvEvicted)),
      ms_Succeeded = wrap64 (int (count_list es EvSucceeded))\<rparr>"
proof -
  have zero: "m_published Metric_New = 0" "m_dispatched Metric_New = 0" "m_failed Metric_New = 0"
    "m_evicted Metric_New = 0" "m_succeeded Metric_New = 0"
    by (simp_all add: Metric_New_def NewCounters_def)
  show ?thesis by (simp only: Metric_Snapshot_def count_step zero Value_of_nat)
qed

end
