(* ===== verification/Executors.thy ===== *)
theory Executors
  imports Runner
begin

text \<open>
  The manager of the runners, \<open>internal/exec/manager.go\<close>.  The map holds pointers; a runner is only
  reached through its entry, so the model keeps the runners' states in the map and writes a changed
  one back.
\<close>

section \<open>The manager and its operations\<close>

record exec_manager =
  em_runners :: "(executor_id, runner) gomap"
  em_queueSize :: nat

definition NewManager :: "nat \<Rightarrow> exec_manager" where
  "NewManager queueSize = \<lparr>em_runners = [], em_queueSize = queueSize\<rparr>"

definition Manager_Add :: "exec_manager \<Rightarrow> executor_id \<Rightarrow> runner \<times> exec_manager" where
  "Manager_Add m exec =
     (case gget (em_runners m) exec of
        Some r \<Rightarrow> (r, m)
      | None \<Rightarrow>
          let r = NewRunner (em_queueSize m)
          in (r, m\<lparr>em_runners := gput exec r (em_runners m)\<rparr>))"

definition Manager_Get :: "exec_manager \<Rightarrow> executor_id \<Rightarrow> runner option" where
  "Manager_Get m exec = gget (em_runners m) exec"

definition Manager_Remove :: "exec_manager \<Rightarrow> executor_id \<Rightarrow> exec_manager" where
  "Manager_Remove m exec = m\<lparr>em_runners := gdel exec (em_runners m)\<rparr>"

text \<open>What a method call on the runner behind a pointer does to the manager's map.\<close>

definition Manager_Put :: "exec_manager \<Rightarrow> executor_id \<Rightarrow> runner \<Rightarrow> exec_manager" where
  "Manager_Put m exec r = m\<lparr>em_runners := gput exec r (em_runners m)\<rparr>"

definition Manager_Dispatch ::
  "wait \<Rightarrow> exec_manager \<Rightarrow> executor_id \<Rightarrow> inst \<Rightarrow> go_error option \<times> exec_manager" where
  "Manager_Dispatch w m exec i =
     (case Manager_Get m exec of
        None \<Rightarrow> (Some ErrNoExecutor, m)
      | Some r \<Rightarrow> (let (err, r) = Runner_Enqueue w r i in (err, Manager_Put m exec r)))"

definition Manager_Executors :: "exec_manager \<Rightarrow> executor_id list \<Rightarrow> executor_id list" where
  "Manager_Executors m ks = map fst (grange (em_runners m) ks)"

definition Manager_Count :: "exec_manager \<Rightarrow> nat" where
  "Manager_Count m = length (em_runners m)"

section \<open>Reading the map after each operation\<close>

lemma Manager_Get_simps [simp]:
  "Manager_Get (snd (Manager_Add m e)) e' =
     (if e' = e \<and> Manager_Get m e = None then Some (NewRunner (em_queueSize m)) else Manager_Get m e')"
  "Manager_Get (Manager_Remove m e) e' = (if e' = e then None else Manager_Get m e')"
  "Manager_Get (Manager_Put m e r) e' = (if e' = e then Some r else Manager_Get m e')"
  by (auto simp: Manager_Get_def Manager_Add_def Manager_Remove_def Manager_Put_def Let_def split: option.split)

lemma Manager_Get_Dispatch:
  "Manager_Get (snd (Manager_Dispatch w m e i)) e' =
     (if e' = e then map_option (\<lambda>r. snd (Runner_Enqueue w r i)) (Manager_Get m e) else Manager_Get m e')"
  by (auto simp: Manager_Dispatch_def split: option.split prod.split)

lemma Manager_queueSize [simp, frame]:
  "em_queueSize (snd (Manager_Add m e)) = em_queueSize m"
  "em_queueSize (Manager_Remove m e) = em_queueSize m"
  "em_queueSize (Manager_Put m e r) = em_queueSize m"
  "em_queueSize (snd (Manager_Dispatch w m e i)) = em_queueSize m"
  by (auto simp: Manager_Add_def Manager_Remove_def Manager_Put_def Manager_Dispatch_def Let_def
      split: option.split prod.split)

lemma Manager_gwf [simp]:
  "gwf (em_runners m) \<Longrightarrow> gwf (em_runners (snd (Manager_Add m e)))"
  "gwf (em_runners m) \<Longrightarrow> gwf (em_runners (Manager_Remove m e))"
  "gwf (em_runners m) \<Longrightarrow> gwf (em_runners (Manager_Put m e r))"
  "gwf (em_runners m) \<Longrightarrow> gwf (em_runners (snd (Manager_Dispatch w m e i)))"
  by (auto simp: Manager_Add_def Manager_Remove_def Manager_Put_def Manager_Dispatch_def Let_def
      split: option.split prod.split)

section \<open>The outcome of an enqueue\<close>

text \<open>
  What \<open>Enqueue\<close> of a runner does when it does not have to wait: the outcomes of its guards, in
  their order, and an instance at the end of the queue when they all pass.
\<close>

lemma Runner_Enqueue_room:
  "\<not> rn_closed r \<Longrightarrow> \<not> rn_replay r \<Longrightarrow> inst_DedupeKey i \<notin> rn_inflight r \<Longrightarrow> length (rn_in r) < rn_cap r \<Longrightarrow>
   Runner_Enqueue w r i =
     (None, r\<lparr>rn_inflight := insert (inst_DedupeKey i) (rn_inflight r), rn_in := rn_in r @ [i]\<rparr>)"
  by (simp add: Runner_Enqueue_def Enqueue_try_cases)

lemma Runner_Enqueue_replay:
  "\<not> rn_closed r \<Longrightarrow> rn_replay r \<Longrightarrow> inst_DedupeKey i \<notin> rn_inflight r \<Longrightarrow>
   Runner_Enqueue w r i = (None, r\<lparr>rn_buffer := rn_buffer r @ [i]\<rparr>)"
  by (simp add: Runner_Enqueue_def Enqueue_try_cases)

lemma Runner_Enqueue_refused:
  "rn_closed r \<Longrightarrow> Runner_Enqueue w r i = (Some ErrClosed, r)"
  "\<not> rn_closed r \<Longrightarrow> inst_DedupeKey i \<in> rn_inflight r \<Longrightarrow> Runner_Enqueue w r i = (Some ErrDuplicate, r)"
  by (simp_all add: Runner_Enqueue_def Enqueue_try_cases)

lemma ReplayWrite_room:
  "\<not> rn_closed r \<Longrightarrow> length (rn_in r) < rn_cap r \<Longrightarrow>
   ReplayWrite w r i =
     (None, r\<lparr>rn_inflight := insert (inst_DedupeKey i) (rn_inflight r), rn_in := rn_in r @ [i]\<rparr>)"
  by (simp add: ReplayWrite_def sendLocked_def reserve_def chan_send_def Let_def)

lemma sendLocked_room:
  "length (rn_in r) < rn_cap r \<Longrightarrow>
   sendLocked w r i =
     (None, r\<lparr>rn_inflight := insert (inst_DedupeKey i) (rn_inflight r), rn_in := rn_in r @ [i]\<rparr>)"
  by (simp add: sendLocked_def reserve_def chan_send_def Let_def)

end
