(* ===== verification/Broker.thy ===== *)
theory Broker
  imports Queue Store Registry Deps Lease Flow Metric Executors
begin

text \<open>
  The state the scheduler's parts share, and the publish pipeline \<open>internal/publish\<close>.  The Go
  objects point to each other; every component reads and writes the one record below, which
  \<open>Objects\<close> shows to be what they see through their pointers.
\<close>

section \<open>The shared state\<close>

record window_entry =
  we_version :: uint64
  we_tasks :: "task list option"

record system =
  sys_store :: store
  sys_queue :: queue
  sys_reg :: registry
  sys_deps :: graph
  sys_leases :: lease_manager
  sys_execs :: exec_manager
  sys_metrics :: metrics
  sys_flow :: limiter
  sys_progress :: cursor
  sys_cache :: "string \<rightharpoonup> window_entry"
  sys_hits :: uint64
  sys_misses :: uint64

section \<open>Publishing\<close>

definition Broker_Publish :: "system \<Rightarrow> task \<Rightarrow> (go_error + int64) \<times> system" where
  "Broker_Publish y t =
     (case Store_Append (sys_store y) t of
        (Inl err, st) \<Rightarrow> (Inl err, y\<lparr>sys_store := st\<rparr>)
      | (Inr seq, st) \<Rightarrow>
          let t = t\<lparr>task_Sequence := seq\<rparr>;
              y = y\<lparr>sys_store := Store_ClearTaskRecord st (task_ID t),
                    sys_reg := Registry_Register (sys_reg y) t\<rparr>;
              (err, q) = (if Graph_Ready (sys_deps y) (task_ID t)
                          then Queue_Enqueue (sys_queue y) t else (None, sys_queue y));
              y = y\<lparr>sys_queue := q\<rparr>
          in (case err of
                Some e \<Rightarrow> (Inl e, y)
              | None \<Rightarrow> (Inr seq, y\<lparr>sys_progress := Cursor_Advance (sys_progress y) seq,
                                     sys_metrics := Published (sys_metrics y)\<rparr>)))"

definition Broker_Progress :: "system \<Rightarrow> int64" where
  "Broker_Progress y = Cursor_Position (sys_progress y)"

text \<open>The outcome by what the store and the queue have room for.\<close>

definition published_task :: "system \<Rightarrow> task \<Rightarrow> task" where
  "published_task y t = t\<lparr>task_Sequence := s_seq (sys_store y) + 1\<rparr>"

lemma Publish_cases:
  assumes "store_inv (sys_store y)" and "s_seq (sys_store y) < max_int64"
  shows "Broker_Publish y t =
     (let st = snd (Store_Append (sys_store y) t); u = published_task y t
      in if \<not> Store_Len (sys_store y) < r_cap (s_ring (sys_store y))
         then (Inl StoreErrFull, y\<lparr>sys_store := st\<rparr>)
         else let z = y\<lparr>sys_store := Store_ClearTaskRecord st (task_ID t),
                        sys_reg := Registry_Register (sys_reg y) u\<rparr>;
                  done = (\<lambda>z. (Inr (task_Sequence u),
                    z\<lparr>sys_progress := Cursor_Advance (sys_progress y) (task_Sequence u),
                      sys_metrics := Published (sys_metrics y)\<rparr>))
              in if \<not> Graph_Ready (sys_deps y) (task_ID t) then done z
                 else if Queue_Len (sys_queue y) < q_limit (sys_queue y)
                 then done (z\<lparr>sys_queue := snd (Queue_Enqueue (sys_queue y) u)\<rparr>)
                 else (Inl QueueErrFull, z))"
  using Append_result [OF assms, of t]
  by (auto simp: Broker_Publish_def published_task_def Let_def Queue_Enqueue_def Queue_Len_def
      split: prod.splits)

lemma Publish_store:
  assumes "store_inv (sys_store y)" and "s_seq (sys_store y) < max_int64"
  shows "store_inv (sys_store (snd (Broker_Publish y t)))"
    "s_seq (sys_store (snd (Broker_Publish y t))) = s_seq (sys_store y) + 1"
    "store_items (sys_store (snd (Broker_Publish y t))) =
       (if Store_Len (sys_store y) < r_cap (s_ring (sys_store y))
        then store_items (sys_store y) @ [published_task y t] else store_items (sys_store y))"
proof -
  let ?st = "snd (Store_Append (sys_store y) t)"
  have st: "sys_store (snd (Broker_Publish y t)) \<in> {?st, Store_ClearTaskRecord ?st (task_ID t)}"
    by (simp add: Publish_cases [OF assms] Let_def)
  obtain res where res: "Store_Append (sys_store y) t = (res, ?st)" by (metis prod.collapse)
  have items: "store_items ?st = (if Store_Len (sys_store y) < r_cap (s_ring (sys_store y))
        then store_items (sys_store y) @ [published_task y t] else store_items (sys_store y))"
    using Append_items [OF assms res] Append_result [OF assms, of t] res
    by (auto simp: published_task_def split: if_splits)
  have inv: "store_inv ?st" using Append_inv [OF assms] .
  have seq: "s_seq ?st = s_seq (sys_store y) + 1" using Append_result [OF assms, of t] by simp
  show "store_inv (sys_store (snd (Broker_Publish y t)))" using st inv by auto
  show "s_seq (sys_store (snd (Broker_Publish y t))) = s_seq (sys_store y) + 1" using st seq by auto
  show "store_items (sys_store (snd (Broker_Publish y t))) =
       (if Store_Len (sys_store y) < r_cap (s_ring (sys_store y))
        then store_items (sys_store y) @ [published_task y t] else store_items (sys_store y))"
    using st items by (auto simp: store_items_def)
qed

lemma Publish_queue:
  "sys_queue (snd (Broker_Publish y t)) =
     (case fst (Store_Append (sys_store y) t) of
        Inl e \<Rightarrow> sys_queue y
      | Inr seq \<Rightarrow> if Graph_Ready (sys_deps y) (task_ID t)
                   then snd (Queue_Enqueue (sys_queue y) (t\<lparr>task_Sequence := seq\<rparr>)) else sys_queue y)"
  by (auto simp: Broker_Publish_def Let_def split: prod.split sum.split option.split)

lemma Publish_frames [simp, frame]:
  "sys_deps (snd (Broker_Publish y t)) = sys_deps y"
  "sys_leases (snd (Broker_Publish y t)) = sys_leases y"
  "sys_execs (snd (Broker_Publish y t)) = sys_execs y"
  "sys_flow (snd (Broker_Publish y t)) = sys_flow y"
  "sys_cache (snd (Broker_Publish y t)) = sys_cache y"
  by (simp_all add: Broker_Publish_def Let_def split: prod.split sum.split option.split)

text \<open>A small state for the witnesses.\<close>

definition sample_system :: system where
  "sample_system =
     \<lparr>sys_store = NewStore 4, sys_queue = Queue_New 4, sys_reg = Registry_New, sys_deps = Graph_New,
      sys_leases = Lease_New 5, sys_execs = NewManager 2, sys_metrics = Metric_New,
      sys_flow = NewLimiter id DefaultPolicy, sys_progress = NewCursor,
      sys_cache = Map.empty, sys_hits = 0, sys_misses = 0\<rparr>"

lemma sample_system_inv:
  "store_inv (sys_store sample_system)" "queue_inv (sys_queue sample_system)"
  "lease_inv (sys_leases sample_system)"
  by (simp_all add: sample_system_def store_inv_new queue_inv_new lease_inv_new)

section \<open>Properties\<close>

text \<open>
  C32: what a publish does, by the room there is.  A full store refuses it and nothing but the last
  sequence changes.  Otherwise the task is retained under the next sequence and registered; while
  it waits for a dependency it is accepted without entering the queue; ready, it enters the queue
  and is accepted if the queue has room; if not, the publish fails although the task stays retained
  and registered, and neither the progress nor the counter records it.
\<close>

theorem publish_outcomes:
  assumes "store_inv (sys_store y)" and "s_seq (sys_store y) < max_int64" and "queue_inv (sys_queue y)"
    and "Broker_Publish y t = (res, z)"
  shows "(if Store_Len (sys_store y) = r_cap (s_ring (sys_store y))
      then res = Inl StoreErrFull \<and> z = y\<lparr>sys_store := (sys_store y)\<lparr>s_seq := s_seq (sys_store y) + 1\<rparr>\<rparr>
      else store_items (sys_store z) = store_items (sys_store y) @ [published_task y t]
        \<and> Registry_Get (sys_reg z) (task_ID t) = Some (published_task y t)
        \<and> Store_TaskRecord (sys_store z) (task_ID t) = None
        \<and> (let ready = Graph_Ready (sys_deps y) (task_ID t);
               room = Queue_Len (sys_queue y) < q_limit (sys_queue y)
           in res = (if ready \<and> \<not> room then Inl QueueErrFull else Inr (s_seq (sys_store y) + 1))
            \<and> queue_contents (sys_queue z) =
                (if ready \<and> room then add_mset (published_task y t) (queue_contents (sys_queue y))
                 else queue_contents (sys_queue y))
            \<and> Broker_Progress z = (if ready \<and> \<not> room then Broker_Progress y
                else max (Broker_Progress y) (s_seq (sys_store y) + 1))
            \<and> sys_metrics z = (if ready \<and> \<not> room then sys_metrics y else Published (sys_metrics y))))"
proof -
  let ?full = "Store_Len (sys_store y) = r_cap (s_ring (sys_store y))"
  have le: "Store_Len (sys_store y) \<le> r_cap (s_ring (sys_store y))"
    using assms(1) ring.bounded [of "s_ring (sys_store y)"] by (simp add: store_inv_def store_items_def)
  note cases = Publish_cases [OF assms(1,2), of t]
  have z: "z = snd (Broker_Publish y t)" "res = fst (Broker_Publish y t)" using assms(4) by simp_all
  have append: "snd (Store_Append (sys_store y) t) = (sys_store y)\<lparr>s_seq := s_seq (sys_store y) + 1\<rparr>"
    if ?full using that Append_result [OF assms(1,2), of t] by simp
  show ?thesis
  proof (cases ?full)
    case True
    then show ?thesis using append by (simp add: z cases)
  next
    case False
    then have room: "Store_Len (sys_store y) < r_cap (s_ring (sys_store y))" using le by simp
    have items: "store_items (sys_store z) = store_items (sys_store y) @ [published_task y t]"
      using Publish_store(3) [OF assms(1,2), of t] room by (simp add: z)
    have rest: "Store_TaskRecord (sys_store z) (task_ID t) = None"
      "Registry_Get (sys_reg z) (task_ID t) = Some (published_task y t)"
      using room by (simp_all add: z cases Let_def Store_TaskRecord_def Store_ClearTaskRecord_def published_task_def)
    show ?thesis
      using room Enqueue_ok [of "sys_queue y" "published_task y t"]
      unfolding if_not_P [OF False] items
      by (simp add: rest) (simp add: z cases Let_def Broker_Progress_def Cursor_Position_def
          Cursor_Advance_def Queue_Len_def published_task_def max_def)
  qed
qed

theorem publish_outcomes_witness:
  "let (res, z) = Broker_Publish sample_system (sample_task ''a'' 5)
   in res = Inr 1 \<and> Broker_Progress z = 1 \<and> Queue_Len (sys_queue z) = 1"
proof -
  let ?y = sample_system and ?t = "sample_task ''a'' 5"
  obtain res z where r: "Broker_Publish ?y ?t = (res, z)" by fastforce
  have *: "s_seq (sys_store ?y) = 0" "Store_Len (sys_store ?y) \<noteq> r_cap (s_ring (sys_store ?y))"
    "Graph_Ready (sys_deps ?y) (task_ID ?t)" "Queue_Len (sys_queue ?y) < q_limit (sys_queue ?y)"
    "Broker_Progress ?y = 0" "q_items (sys_queue ?y) = []"
    by code_simp+
  then have "s_seq (sys_store ?y) < max_int64" by simp
  from publish_outcomes [OF sample_system_inv(1) this sample_system_inv(2) r] *
  have "res = Inr 1" "Broker_Progress z = 1" "queue_contents (sys_queue z) = {#published_task ?y ?t#}"
    by (simp_all add: Let_def queue_contents_def)
  moreover from this(3) have "Queue_Len (sys_queue z) = 1"
    by (metis Queue_Len_def of_nat_1 queue_contents_size size_single)
  ultimately show ?thesis by (simp add: r)
qed

end
