(* ===== verification/Clock.thy ===== *)
theory Clock
  imports Model
begin

text \<open>Scheduling windows of \<open>internal/clock/window.go\<close>: the half-open tick interval around an instant.\<close>

record window =
  win_Begin :: time
  win_End :: time

text \<open>\<open>Time.Truncate\<close> rounds down to a multiple of the duration since the zero time.\<close>

definition Time_Truncate :: "time \<Rightarrow> duration \<Rightarrow> time" where
  "Time_Truncate t d = (if d \<le> 0 then t else t - t mod d)"

definition NextWindow :: "time \<Rightarrow> duration \<Rightarrow> window" where
  "NextWindow now interval =
     (let start = Time_Truncate now interval
      in \<lparr>win_Begin = start, win_End = start + interval\<rparr>)"

definition Window_Contains :: "window \<Rightarrow> time \<Rightarrow> bool" where
  "Window_Contains w due \<longleftrightarrow> \<not> due < win_Begin w \<and> due < win_End w"

lemma NextWindow_simps [simp]:
  "win_Begin (NextWindow now d) = Time_Truncate now d"
  "win_End (NextWindow now d) = Time_Truncate now d + d"
  by (simp_all add: NextWindow_def Let_def)

lemma Time_Truncate_div: "0 < d \<Longrightarrow> Time_Truncate t d = d * (t div d)"
  by (simp add: Time_Truncate_def minus_mod_eq_mult_div)

lemma NextWindow_div:
  "0 < d \<Longrightarrow> Window_Contains (NextWindow now d) t \<longleftrightarrow> t div d = now div d"
proof -
  assume d: "0 < d"
  have "d * (now div d) \<le> t \<and> t < d * (now div d) + d \<longleftrightarrow> t div d = now div d"
  proof
    assume "d * (now div d) \<le> t \<and> t < d * (now div d) + d"
    then show "t div d = now div d"
      by (intro int_div_pos_eq [where r = "t - d * (now div d)"]) auto
  next
    assume "t div d = now div d"
    then have "d * (now div d) + t mod d = t"
      using mult_div_mod_eq [of d t] by simp
    then show "d * (now div d) \<le> t \<and> t < d * (now div d) + d"
      using pos_mod_bound [OF d, of t] pos_mod_sign [OF d, of t] by (intro conjI) linarith+
  qed
  then show ?thesis using d by (simp add: Window_Contains_def Time_Truncate_div not_less)
qed

lemma NextWindow_eq_iff: "0 < d \<Longrightarrow> NextWindow t d = NextWindow now d \<longleftrightarrow> t div d = now div d"
  by (auto simp: NextWindow_def Let_def Time_Truncate_div)

lemma NextWindow_self: "0 < d \<Longrightarrow> Window_Contains (NextWindow now d) now"
  by (simp add: NextWindow_div)

text \<open>
  The windows of one positive interval partition time.  An instant lies in the window of
  another exactly if the two have the same window, every instant lies in its own window, and the
  window of the instant at which one ends starts there.
\<close>

theorem windows_partition_time:
  assumes "0 < d"
  shows "(Window_Contains (NextWindow now d) t \<longleftrightarrow> NextWindow t d = NextWindow now d)
    \<and> Window_Contains (NextWindow now d) now
    \<and> win_Begin (NextWindow (win_End (NextWindow now d)) d) = win_End (NextWindow now d)"
  using assms by (simp add: NextWindow_div NextWindow_eq_iff Time_Truncate_div ring_distribs)

theorem windows_partition_time_witness:
  "Window_Contains (NextWindow 2500 1000) 2999 \<and> NextWindow 2999 1000 = NextWindow 2500 1000
   \<and> \<not> Window_Contains (NextWindow 2500 1000) 3000"
  using windows_partition_time [of 1000 2500 2999] windows_partition_time [of 1000 2500 3000]
  by (simp add: NextWindow_def Let_def Time_Truncate_def)

end
