(* ===== verification/Dispatch_Error.thy ===== *)
theory Dispatch_Error
  imports Model
begin

text \<open>
  The aggregated error of \<open>internal/dispatch/dispatch.go\<close> and the decimal rendering it uses, with its
  20-byte buffer; the texts of the sentinel errors of all packages.
\<close>

section \<open>Decimal rendering\<close>

definition digit_byte :: "int \<Rightarrow> char" where
  "digit_byte d = char_of (48 + nat d)"

text \<open>
  The loop writes digits from the end of the buffer.  \<open>None\<close> is the index panic of a write before
  its first byte.
\<close>

function itoa_loop :: "int \<Rightarrow> nat \<Rightarrow> char list \<Rightarrow> (nat \<times> char list) option" where
  "itoa_loop n i buf =
     (if n > 0
      then if i = 0 then None
           else itoa_loop (n div 10) (i - 1) (buf[i - 1 := digit_byte (n mod 10)])
      else Some (i, buf))"
  by pat_completeness auto
termination
  by (relation "measure (\<lambda>(n, i, buf). nat n)") auto

declare itoa_loop.simps [simp del]

definition itoa :: "int64 \<Rightarrow> string option" where
  "itoa n =
     (if n = 0 then Some ''0''
      else map_option (\<lambda>(i, buf). drop i buf) (itoa_loop n 20 (replicate 20 (char_of (0::nat)))))"

text \<open>Reading a decimal numeral back, as its reference.\<close>

definition parse_decimal :: "string \<Rightarrow> int" where
  "parse_decimal s = foldl (\<lambda>n c. 10 * n + (int (of_char c) - 48)) 0 s"

definition is_digit :: "char \<Rightarrow> bool" where
  "is_digit c \<longleftrightarrow> 48 \<le> (of_char c :: nat) \<and> (of_char c :: nat) \<le> 57"

lemma of_digit: "0 \<le> d \<Longrightarrow> d \<le> 9 \<Longrightarrow> (of_char (digit_byte d) :: nat) = 48 + nat d"
  by (simp add: digit_byte_def)

lemma parse_decimal_Cons:
  "0 \<le> d \<Longrightarrow> d \<le> 9 \<Longrightarrow>
   parse_decimal (digit_byte d # s) = d * 10 ^ length s + parse_decimal s"
proof -
  have shift: "foldl (\<lambda>n c. 10 * n + (int (of_char c) - 48)) a s =
      a * 10 ^ length s + foldl (\<lambda>n c. 10 * n + (int (of_char c) - 48)) 0 s" for a :: int and s :: string
  proof (induction s arbitrary: a)
    case (Cons c s)
    show ?case
      by (simp only: foldl_Cons) (subst Cons, subst (2) Cons, simp add: algebra_simps)
  qed simp
  assume "0 \<le> d" "d \<le> 9"
  then show ?thesis
    using shift [of d s] by (simp add: parse_decimal_def of_digit)
qed

text \<open>What the loop writes, as a reference without the buffer.\<close>

fun digits_from :: "nat \<Rightarrow> int \<Rightarrow> string \<Rightarrow> string" where
  "digits_from 0 n acc = acc"
| "digits_from (Suc k) n acc = (if n > 0 then digits_from k (n div 10) (digit_byte (n mod 10) # acc) else acc)"

lemma itoa_loop_digits:
  "n < 10 ^ i \<Longrightarrow> i \<le> length buf \<Longrightarrow>
   \<exists>j buf'. itoa_loop n i buf = Some (j, buf') \<and> drop j buf' = digits_from i n (drop i buf)"
proof (induction n i buf rule: itoa_loop.induct)
  case (1 n i buf)
  show ?case
  proof (cases "n > 0")
    case False
    then show ?thesis by (cases i) (simp_all add: itoa_loop.simps)
  next
    case True
    then obtain k where i: "i = Suc k" using "1.prems"(1) by (cases i) auto
    have less: "n div 10 < 10 ^ k"
    proof -
      have "n < 10 * 10 ^ k" using "1.prems"(1) by (simp add: i)
      then show ?thesis by simp
    qed
    have "drop k (buf[k := digit_byte (n mod 10)]) = digit_byte (n mod 10) # drop i buf"
      using "1.prems"(2) i by (simp add: Cons_nth_drop_Suc [symmetric])
    then show ?thesis
      using "1.IH" [OF True] less "1.prems"(2) True i by (subst itoa_loop.simps) simp
  qed
qed

lemma digits_from_parse:
  "0 \<le> n \<Longrightarrow> n < 10 ^ i \<Longrightarrow>
   parse_decimal (digits_from i n acc) = n * 10 ^ length acc + parse_decimal acc
   \<and> length (digits_from i n acc) \<le> i + length acc
   \<and> (list_all is_digit acc \<longrightarrow> list_all is_digit (digits_from i n acc))"
proof (induction i arbitrary: n acc)
  case (Suc i)
  show ?case
  proof (cases "n > 0")
    case True
    have less: "n div 10 < 10 ^ i" using Suc.prems(2) by simp
    have "is_digit (digit_byte (n mod 10))" by (auto simp: is_digit_def of_digit)
    moreover have "n * 10 ^ length acc = (n div 10) * 10 ^ Suc (length acc) + n mod 10 * 10 ^ length acc"
    proof -
      have "(10 * q + m) * p = q * (10 * p) + m * p" for q m p :: int by (simp add: algebra_simps)
      from this [of "n div 10" "n mod 10" "10 ^ length acc"] show ?thesis by simp
    qed
    ultimately show ?thesis
      using Suc.IH [of "n div 10" "digit_byte (n mod 10) # acc"] True less
        parse_decimal_Cons [of "n mod 10" acc] by simp
  next
    case False
    with Suc.prems show ?thesis by simp
  qed
qed simp

lemma digits_from_first:
  "0 < n \<Longrightarrow> n < 10 ^ i \<Longrightarrow> \<exists>d s. digits_from i n acc = digit_byte d # s \<and> 0 < d \<and> d \<le> 9"
proof (induction i arbitrary: n acc)
  case (Suc i)
  show ?case
  proof (cases "n div 10 > 0")
    case True
    then show ?thesis using Suc by simp
  next
    case False
    then have "n mod 10 = n" "n \<le> 9" using Suc.prems(1) by auto
    moreover have "digits_from i 0 s = s" for s by (cases i) simp_all
    ultimately show ?thesis using False Suc.prems(1) by (auto simp: pos_imp_zdiv_pos_iff)
  qed
qed simp

section \<open>Error texts\<close>

definition str_append_opt :: "string \<Rightarrow> string option \<Rightarrow> string \<Rightarrow> string option" where
  "str_append_opt a b c = map_option (\<lambda>s. a @ s @ c) b"

fun error_text :: "go_error \<Rightarrow> string option" where
  "error_text StoreErrFull = Some ''task store is full''"
| "error_text ErrInvalidSequence = Some ''commit sequence was never appended''"
| "error_text QueueErrFull = Some ''waiting queue is full''"
| "error_text ErrNoLease = Some ''executor has no lease''"
| "error_text ErrNoExecutor = Some ''unknown executor''"
| "error_text ErrClosed = Some ''executor slot is closed''"
| "error_text ErrDuplicate = Some ''task instance already in flight''"
| "error_text RunnerErrFull = Some ''executor queue is full''"
| "error_text ErrLimited = Some ''dispatch rate limit exceeded''"
| "error_text ErrOutOfOrder = Some ''dispatch batch is not ordered by due time''"
| "error_text ErrAlreadyReplaying = Some ''catch-up replay window is already open''"
| "error_text ErrTooManyRetries = Some ''retry budget exhausted''"
| "error_text ErrEmptyTaskID = Some ''task id is empty''"
| "error_text ErrEmptyDedupeKey = Some ''task dedupe key is empty''"
| "error_text (DispatchError failed cause) =
     (case error_text cause of
        None \<Rightarrow> None
      | Some c \<Rightarrow> str_append_opt ''dispatch failed for '' (itoa failed) ('' task(s): '' @ c))"

fun DispatchError_Unwrap :: "go_error \<Rightarrow> go_error option" where
  "DispatchError_Unwrap (DispatchError failed cause) = Some cause"
| "DispatchError_Unwrap _ = None"

text \<open>\<open>errors.Is\<close> follows the chain of causes; the targets are sentinels.\<close>

fun errors_Is :: "go_error \<Rightarrow> go_error \<Rightarrow> bool" where
  "errors_Is (DispatchError failed cause) target \<longleftrightarrow>
     DispatchError failed cause = target \<or> errors_Is cause target"
| "errors_Is e target \<longleftrightarrow> e = target"

section \<open>Properties\<close>

text \<open>
  The rendering is total on the counts the code renders and correct: for every non-negative
  64-bit integer it stays within its buffer and returns at most 19 digits, which read back as the
  number and do not start with a zero unless they are a single one.  (For a negative integer it
  returns the empty string.)
\<close>

theorem itoa_round_trip:
  assumes "n \<le> max_int64"
  shows "\<exists>s. itoa n = Some s \<and> length s \<le> 19 \<and> (if n < 0 then s = [] else
      parse_decimal s = n \<and> s \<noteq> [] \<and> list_all is_digit s \<and> (hd s = CHR ''0'' \<longrightarrow> s = ''0''))"
proof -
  consider "n < 0" | "n = 0" | "0 < n" by linarith
  then show ?thesis
  proof cases
    case 1
    then show ?thesis by (simp add: itoa_def itoa_loop.simps)
  next
    case 2
    then show ?thesis by (simp add: itoa_def parse_decimal_def is_digit_def)
  next
    case 3
    have bound: "n < 10 ^ 19" "n < 10 ^ 20" using assms by (simp_all add: max_int64_def)
    have more: "digits_from 20 n [] = digits_from 19 n []"
    proof -
      have "digits_from (Suc i) n acc = digits_from i n acc" if "n < 10 ^ i" "0 \<le> n" for i n acc
        using that by (induction i arbitrary: n acc) auto
      from this [of n 19 "[]"] show ?thesis using bound 3 by simp
    qed
    obtain j buf' where "itoa_loop n 20 (replicate 20 (char_of (0::nat))) = Some (j, buf')"
      "drop j buf' = digits_from 19 n []"
      using itoa_loop_digits [OF bound(2), of "replicate 20 (char_of (0::nat))"] more by auto
    then have itoa: "itoa n = Some (digits_from 19 n [])" using 3 by (simp add: itoa_def)
    obtain d s where first: "digits_from 19 n [] = digit_byte d # s" "0 < d" "d \<le> 9"
      using digits_from_first [OF 3 bound(1), of "[]"] by blast
    then have "digit_byte d \<noteq> CHR ''0''" using of_digit [of d] by auto
    then show ?thesis
      using itoa first digits_from_parse [of n 19 "[]"] bound 3 by (simp add: parse_decimal_def)
  qed
qed

theorem itoa_round_trip_witness:
  "\<exists>s. itoa 9223372036854775807 = Some s \<and> length s \<le> 19 \<and> parse_decimal s = 9223372036854775807"
  using itoa_round_trip [of 9223372036854775807] by (auto simp: max_int64_def)

end
