(* ===== verification/Dispatch.thy ===== *)
theory Dispatch
  imports Broker Clock Dispatch_Error
begin

text \<open>
  The dispatcher of \<open>internal/dispatch\<close>: the tick over the waiting queue, the batch dispatch with its
  cached group views, and the catch-up of an executor.  What comes from outside the state is an
  argument: for every hand-off the clock, the fresh instance id and what happens while an enqueue
  waits; the order in which the lease table is visited; the test hook \<open>onDispatched\<close>.
\<close>

section \<open>One hand-off\<close>

record handoff_env =
  he_now :: time
  he_uuid :: string
  he_wait :: wait

type_synonym hook = "task \<Rightarrow> system \<Rightarrow> system"

definition task_instance :: "handoff_env \<Rightarrow> task \<Rightarrow> inst" where
  "task_instance env t =
     (NewInstance (he_uuid env) (he_now env) t 1)\<lparr>inst_DedupeKey := task_DedupeKey t\<rparr>"

definition markDispatched :: "system \<Rightarrow> int64 \<Rightarrow> system" where
  "markDispatched y seq = y\<lparr>sys_store := Store_MarkDispatched (sys_store y) seq True\<rparr>"

definition dispatchOne ::
  "(rat \<Rightarrow> rat) \<Rightarrow> handoff_env \<Rightarrow> hook option \<Rightarrow> executor_id \<Rightarrow> task \<Rightarrow> system \<Rightarrow> go_error option \<times> system" where
  "dispatchOne fl env hook exec t y =
     (let (ok, lim) = Allow fl (sys_flow y) exec (he_now env);
          y = y\<lparr>sys_flow := lim\<rparr>
      in if \<not> ok then (Some ErrLimited, y)
         else
           let (err, em) = Manager_Dispatch (he_wait env) (sys_execs y) exec (task_instance env t);
               y = y\<lparr>sys_execs := em\<rparr>
           in (case err of
                 Some e \<Rightarrow> (Some e, y\<lparr>sys_metrics := Failed (sys_metrics y)\<rparr>)
               | None \<Rightarrow>
                   let y = markDispatched y (task_Sequence t);
                       (cerr, st) = Store_Commit (sys_store y) (task_Sequence t);
                       y = y\<lparr>sys_store := st\<rparr>
                   in (case cerr of
                         Some e \<Rightarrow> (Some e, y\<lparr>sys_metrics := Failed (sys_metrics y)\<rparr>)
                       | None \<Rightarrow>
                           let y = y\<lparr>sys_reg := Registry_SetState (sys_reg y) (task_ID t) TaskDispatched,
                                     sys_metrics := Metric_Dispatched (sys_metrics y)\<rparr>
                           in (None, (case hook of None \<Rightarrow> y | Some f \<Rightarrow> f t y)))))"

section \<open>The tick\<close>

fun Dispatcher_requeue :: "system \<Rightarrow> task list \<Rightarrow> system" where
  "Dispatcher_requeue y [] = y"
| "Dispatcher_requeue y (t # ts) =
     Dispatcher_requeue (y\<lparr>sys_queue := snd (Queue_Enqueue (sys_queue y) t)\<rparr>) ts"

fun tick_loop ::
  "(rat \<Rightarrow> rat) \<Rightarrow> (nat \<Rightarrow> handoff_env) \<Rightarrow> hook option \<Rightarrow> executor_id \<Rightarrow> window \<Rightarrow> nat \<Rightarrow>
   go_error option \<Rightarrow> task list \<Rightarrow> system \<Rightarrow> go_error option \<times> system" where
  "tick_loop fl envs hook exec win i firstErr [] y = (firstErr, y)"
| "tick_loop fl envs hook exec win i firstErr (t # ts) y =
     (if \<not> Window_Contains win (task_DueAt t) then (firstErr, Dispatcher_requeue y (t # ts))
      else
        let (err, y) = dispatchOne fl (envs i) hook exec t y
        in tick_loop fl envs hook exec win (i + 1)
             (if err \<noteq> None \<and> firstErr = None then err else firstErr) ts y)"

definition Tick ::
  "(rat \<Rightarrow> rat) \<Rightarrow> (nat \<Rightarrow> handoff_env) \<Rightarrow> hook option \<Rightarrow> executor_id list \<Rightarrow> window \<Rightarrow> system \<Rightarrow>
   go_error option \<times> system" where
  "Tick fl envs hook ks win y =
     (let (batch, q) = Queue_Drain (sys_queue y);
          y = y\<lparr>sys_queue := q\<rparr>
      in if length batch = 0 then (None, y)
         else
           let executors = Lease_Executors (sys_leases y) ks
           in if length executors = 0 then (None, Dispatcher_requeue y batch)
              else tick_loop fl envs hook (executors ! 0) win 0 None batch y)"

section \<open>Batches and the cached group views\<close>

text \<open>
  The loop of \<open>ordered\<close> over the ids of a group: the live tasks in registration order, or \<open>None\<close> (the
  nil slice) when one is due before its predecessor.
\<close>

fun ordered_loop :: "registry \<Rightarrow> string list \<Rightarrow> time \<Rightarrow> task list \<Rightarrow> task list option" where
  "ordered_loop r [] previous live = Some live"
| "ordered_loop r (tid # ids) previous live =
     (case Registry_Get r tid of
        None \<Rightarrow> ordered_loop r ids previous live
      | Some current \<Rightarrow>
          if \<not> Registry_Alive r tid then ordered_loop r ids previous live
          else if previous \<noteq> zero_time \<and> task_DueAt current < previous then None
          else ordered_loop r ids (task_DueAt current) (live @ [current]))"

definition dropGroup :: "system \<Rightarrow> string \<Rightarrow> system" where
  "dropGroup y grp = y\<lparr>sys_cache := (sys_cache y)(grp := None)\<rparr>"

definition Dispatcher_ordered :: "system \<Rightarrow> string \<Rightarrow> task list option \<times> system" where
  "Dispatcher_ordered y grp =
     (let version = Registry_Version (sys_reg y) grp;
          miss = (\<lambda>y.
            let y = y\<lparr>sys_misses := sys_misses y + 1\<rparr>;
                live = ordered_loop (sys_reg y) (Registry_GroupTasks (sys_reg y) grp) zero_time []
            in (live, y\<lparr>sys_cache := (sys_cache y)(grp \<mapsto> \<lparr>we_version = version, we_tasks = live\<rparr>)\<rparr>))
      in case sys_cache y grp of
           Some entry \<Rightarrow>
             if we_version entry = version
             then (we_tasks entry, y\<lparr>sys_hits := sys_hits y + 1\<rparr>)
             else miss (dropGroup y grp)
         | None \<Rightarrow> miss y)"

fun dispatchBatch_loop ::
  "(rat \<Rightarrow> rat) \<Rightarrow> (nat \<Rightarrow> handoff_env) \<Rightarrow> hook option \<Rightarrow> executor_id \<Rightarrow> nat \<Rightarrow> go_error option \<Rightarrow> int \<Rightarrow>
   int64 list \<Rightarrow> task list \<Rightarrow> system \<Rightarrow> go_error option \<times> system" where
  "dispatchBatch_loop fl envs hook exec i firstErr failed marked [] y =
     (let y = (if length marked > 0
               then y\<lparr>sys_store := Store_MarkDispatchedBatch (sys_store y) marked True\<rparr> else y)
      in (case firstErr of Some e \<Rightarrow> (Some (DispatchError failed e), y) | None \<Rightarrow> (None, y)))"
| "dispatchBatch_loop fl envs hook exec i firstErr failed marked (t # ts) y =
     (if task_DueAt t = zero_time then (Some ErrOutOfOrder, y)
      else (case dispatchOne fl (envs i) hook exec t y of
              (Some e, y) \<Rightarrow>
                dispatchBatch_loop fl envs hook exec (i + 1)
                  (if firstErr = None then Some e else firstErr) (failed + 1) marked ts y
            | (None, y) \<Rightarrow>
                dispatchBatch_loop fl envs hook exec (i + 1) firstErr failed
                  (marked @ [task_Sequence t]) ts y))"

definition dispatchBatch ::
  "(rat \<Rightarrow> rat) \<Rightarrow> (nat \<Rightarrow> handoff_env) \<Rightarrow> hook option \<Rightarrow> executor_id \<Rightarrow> task list \<Rightarrow> system \<Rightarrow>
   go_error option \<times> system" where
  "dispatchBatch fl envs hook exec tasks y = dispatchBatch_loop fl envs hook exec 0 None 0 [] tasks y"

definition Dispatcher_Dispatch ::
  "(rat \<Rightarrow> rat) \<Rightarrow> (nat \<Rightarrow> handoff_env) \<Rightarrow> hook option \<Rightarrow> executor_id list \<Rightarrow> task list \<Rightarrow> system \<Rightarrow>
   go_error option \<times> system" where
  "Dispatcher_Dispatch fl envs hook ks tasks y =
     (case tasks of
        [] \<Rightarrow> (None, y)
      | t # _ \<Rightarrow>
          (case Dispatcher_ordered y (task_Group t) of
             (None, y) \<Rightarrow> (Some ErrOutOfOrder, y)
           | (Some ordered, y) \<Rightarrow>
               let executors = Lease_Executors (sys_leases y) ks
               in if length executors = 0 then (None, y)
                  else dispatchBatch fl envs hook (executors ! 0) ordered y))"

definition CacheStats :: "system \<Rightarrow> uint64 \<times> uint64" where
  "CacheStats y = (sys_hits y, sys_misses y)"

section \<open>Catching up\<close>

text \<open>
  \<open>None\<close> is a source that does not return.  Between two replayed writes other goroutines may act on
  the runner, which is what \<open>live\<close> does to it.
\<close>

definition ReplayWindow ::
  "wait \<Rightarrow> runner \<Rightarrow> (runner \<Rightarrow> (go_error option \<times> runner) option) \<Rightarrow> (go_error option \<times> runner) option" where
  "ReplayWindow w r work =
     (case BeginReplay r of
        (False, r) \<Rightarrow> Some (Some ErrAlreadyReplaying, r)
      | (True, r) \<Rightarrow> map_option (\<lambda>(err, r). (err, EndReplay w r)) (work r))"

fun replay_loop ::
  "(nat \<Rightarrow> handoff_env) \<Rightarrow> (nat \<Rightarrow> runner \<Rightarrow> runner) \<Rightarrow> nat \<Rightarrow> task list \<Rightarrow> runner \<Rightarrow> go_error option \<times> runner" where
  "replay_loop envs live i [] r = (None, live i r)"
| "replay_loop envs live i (t # ts) r =
     (case ReplayWrite (he_wait (envs i)) (live i r) (task_instance (envs i) t) of
        (Some err, r) \<Rightarrow> (Some err, r)
      | (None, r) \<Rightarrow> replay_loop envs live (i + 1) ts r)"

definition CatchUpFrom ::
  "(nat \<Rightarrow> handoff_env) \<Rightarrow> (nat \<Rightarrow> runner \<Rightarrow> runner) \<Rightarrow> wait \<Rightarrow> system \<Rightarrow> executor_id \<Rightarrow> int64 \<Rightarrow>
   (int64 \<Rightarrow> (go_error + task list) option) \<Rightarrow> (go_error option \<times> system) option" where
  "CatchUpFrom envs live w y exec from source =
     (case Manager_Get (sys_execs y) exec of
        None \<Rightarrow> Some (Some ErrNoExecutor, y)
      | Some r \<Rightarrow>
          map_option (\<lambda>(err, r). (err, y\<lparr>sys_execs := Manager_Put (sys_execs y) exec r\<rparr>))
            (ReplayWindow w r (\<lambda>r.
               case source from of
                 None \<Rightarrow> None
               | Some (Inl err) \<Rightarrow> Some (Some err, r)
               | Some (Inr missed) \<Rightarrow> Some (replay_loop envs live 0 missed r))))"

definition CatchUp ::
  "(nat \<Rightarrow> handoff_env) \<Rightarrow> (nat \<Rightarrow> runner \<Rightarrow> runner) \<Rightarrow> wait \<Rightarrow> system \<Rightarrow> executor_id \<Rightarrow> int64 \<Rightarrow>
   (go_error option \<times> system) option" where
  "CatchUp envs live w y exec from =
     CatchUpFrom envs live w y exec from (Store_Since (sys_store y))"

section \<open>What one hand-off changes\<close>

lemma requeue_enq_all: "Dispatcher_requeue y ts = y\<lparr>sys_queue := wq.enq_all (sys_queue y) ts\<rparr>"
  by (induction ts arbitrary: y) simp_all

lemma dispatchOne_frames [simp, frame]:
  "sys_queue (snd (dispatchOne fl env None exec t y)) = sys_queue y"
  "sys_leases (snd (dispatchOne fl env None exec t y)) = sys_leases y"
  "sys_deps (snd (dispatchOne fl env None exec t y)) = sys_deps y"
  "sys_progress (snd (dispatchOne fl env None exec t y)) = sys_progress y"
  "sys_cache (snd (dispatchOne fl env None exec t y)) = sys_cache y"
  by (simp_all add: dispatchOne_def markDispatched_def Let_def split: prod.split option.split)

text \<open>The hand-offs of a list of tasks, without the window test.\<close>

fun handoff_all ::
  "(rat \<Rightarrow> rat) \<Rightarrow> (nat \<Rightarrow> handoff_env) \<Rightarrow> hook option \<Rightarrow> executor_id \<Rightarrow> nat \<Rightarrow> go_error option \<Rightarrow>
   task list \<Rightarrow> system \<Rightarrow> go_error option \<times> system" where
  "handoff_all fl envs hook exec i firstErr [] y = (firstErr, y)"
| "handoff_all fl envs hook exec i firstErr (t # ts) y =
     (let (err, y) = dispatchOne fl (envs i) hook exec t y
      in handoff_all fl envs hook exec (i + 1) (if firstErr = None then err else firstErr) ts y)"

abbreviation in_window :: "window \<Rightarrow> task \<Rightarrow> bool" where
  "in_window win t \<equiv> Window_Contains win (task_DueAt t)"

lemma tick_loop_split:
  "tick_loop fl envs hook exec win i err ts y =
     (let (e, z) = handoff_all fl envs hook exec i err (takeWhile (in_window win) ts) y
      in (e, Dispatcher_requeue z (dropWhile (in_window win) ts)))"
proof (induction ts arbitrary: i err y)
  case (Cons t ts)
  show ?case
  proof (cases "in_window win t")
    case True
    have "(if e \<noteq> None \<and> err = None then e else err) = (if err = None then e else err)" for e :: "go_error option"
      by auto
    with True show ?thesis by (simp add: Cons.IH Let_def split: prod.split)
  qed simp
qed simp

lemma handoff_keeps:
  "sys_queue (snd (handoff_all fl envs None exec i err ts y)) = sys_queue y \<and>
   sys_leases (snd (handoff_all fl envs None exec i err ts y)) = sys_leases y \<and>
   sys_deps (snd (handoff_all fl envs None exec i err ts y)) = sys_deps y \<and>
   sys_progress (snd (handoff_all fl envs None exec i err ts y)) = sys_progress y"
proof (induction ts arbitrary: i err y)
  case (Cons t ts)
  obtain e z where d: "dispatchOne fl (envs i) None exec t y = (e, z)" by fastforce
  then show ?case using Cons [of "i + 1" _ z] dispatchOne_frames [of fl "envs i" exec t y] by simp
qed simp

lemmas handoff_frames [simp, frame] =
  handoff_keeps [THEN conjunct1] handoff_keeps [THEN conjunct2, THEN conjunct1]
  handoff_keeps [THEN conjunct2, THEN conjunct2, THEN conjunct1]
  handoff_keeps [THEN conjunct2, THEN conjunct2, THEN conjunct2]

definition tick_batch :: "system \<Rightarrow> task list" where
  "tick_batch y = fst (Queue_Drain (sys_queue y))"

definition drained :: "system \<Rightarrow> system" where
  "drained y = y\<lparr>sys_queue := (sys_queue y)\<lparr>q_items := []\<rparr>\<rparr>"

lemma Tick_cases:
  assumes "queue_inv (sys_queue y)"
  shows "Tick fl envs hook ks win y =
     (case Lease_Executors (sys_leases y) ks of
        [] \<Rightarrow> (None, Dispatcher_requeue (drained y) (tick_batch y))
      | exec # _ \<Rightarrow>
          (let (e, z) = handoff_all fl envs hook exec 0 None (takeWhile (in_window win) (tick_batch y)) (drained y)
           in (e, Dispatcher_requeue z (dropWhile (in_window win) (tick_batch y)))))"
proof -
  obtain out q where d: "Queue_Drain (sys_queue y) = (out, q)" by fastforce
  have q: "q = (sys_queue y)\<lparr>q_items := []\<rparr>" using Drain_spec(3) [OF assms d] .
  have "executors ! 0 = hd executors" if "executors \<noteq> []" for executors :: "executor_id list"
    using that by (simp add: hd_conv_nth)
  then show ?thesis
    by (cases "out = []")
      (auto simp: Tick_def Let_def d q tick_batch_def drained_def tick_loop_split split: list.split)
qed

lemma batch_props:
  assumes "queue_inv (sys_queue y)"
  shows "mset (tick_batch y) = queue_contents (sys_queue y)" "sorted (map task_due_key (tick_batch y))"
    "queue_inv (sys_queue (drained y))" "queue_contents (sys_queue (drained y)) = {#}"
    "q_limit (sys_queue (drained y)) = q_limit (sys_queue y)"
  using assms wq.drain_out wq.drain_sorted
  by (simp_all add: tick_batch_def drained_def queue_contents_def queue_inv_def due.heap_on_def)

lemma requeue_contents:
  assumes "queue_inv (sys_queue z)" and "queue_contents (sys_queue z) = {#}"
    and "int (length ts) \<le> q_limit (sys_queue z)"
  shows "queue_contents (sys_queue (Dispatcher_requeue z ts)) = mset ts"
    "queue_inv (sys_queue (Dispatcher_requeue z ts))"
  using wq.enq_all_contents [OF assms(1), of ts] wq.enq_all_inv [OF assms(1), of ts] assms(2,3)
  by (simp_all add: requeue_enq_all)

lemma batch_length: "queue_inv (sys_queue y) \<Longrightarrow> int (length (tick_batch y)) \<le> q_limit (sys_queue y)"
  using batch_props(1) [of y] queue_inv_limit [of "sys_queue y"]
  by (metis queue_contents_size size_mset)

text \<open>The tasks a tick puts back: all of them without an executor, else from the first one out of the window.\<close>

definition tick_rest :: "executor_id list \<Rightarrow> window \<Rightarrow> system \<Rightarrow> task list" where
  "tick_rest ks win y =
     (if Lease_Executors (sys_leases y) ks = [] then tick_batch y
      else dropWhile (in_window win) (tick_batch y))"

lemma Tick_requeues:
  assumes "queue_inv (sys_queue y)"
  shows "\<exists>z. sys_queue z = sys_queue (drained y) \<and>
    snd (Tick fl envs None ks win y) = Dispatcher_requeue z (tick_rest ks win y)"
proof (cases "Lease_Executors (sys_leases y) ks")
  case Nil
  then show ?thesis by (auto simp: Tick_cases [OF assms] tick_rest_def)
next
  case (Cons exec es)
  let ?h = "handoff_all fl envs None exec 0 None (takeWhile (in_window win) (tick_batch y)) (drained y)"
  have "snd (Tick fl envs None ks win y) = Dispatcher_requeue (snd ?h) (tick_rest ks win y)"
    by (simp add: Tick_cases [OF assms] tick_rest_def Cons Let_def split: prod.split)
  then show ?thesis by (intro exI [of _ "snd ?h"]) simp
qed

lemma Tick_None_queue:
  assumes "queue_inv (sys_queue y)"
  shows "queue_contents (sys_queue (snd (Tick fl envs None ks win y))) = mset (tick_rest ks win y)"
    "queue_inv (sys_queue (snd (Tick fl envs None ks win y)))"
    "q_limit (sys_queue (snd (Tick fl envs None ks win y))) = q_limit (sys_queue y)"
proof -
  note inv = batch_props(3-5) [OF assms(1)]
  have "length (tick_rest ks win y) \<le> length (tick_batch y)"
    by (simp add: tick_rest_def length_dropWhile_le)
  then have len: "int (length (tick_rest ks win y)) \<le> q_limit (sys_queue y)"
    using batch_length [OF assms(1)] by linarith
  obtain z where "sys_queue z = sys_queue (drained y)"
    "snd (Tick fl envs None ks win y) = Dispatcher_requeue z (tick_rest ks win y)"
    using Tick_requeues [OF assms] by blast
  then show "queue_contents (sys_queue (snd (Tick fl envs None ks win y))) = mset (tick_rest ks win y)"
    "queue_inv (sys_queue (snd (Tick fl envs None ks win y)))"
    "q_limit (sys_queue (snd (Tick fl envs None ks win y))) = q_limit (sys_queue y)"
    using requeue_contents [of z "tick_rest ks win y"] inv len by (simp_all add: requeue_enq_all wq.enq_all_limit)
qed

text \<open>Concrete arguments for the witnesses: an environment, two queued tasks, and an executor.\<close>

definition sample_env :: handoff_env where
  "sample_env = \<lparr>he_now = 7, he_uuid = ''i'', he_wait = (\<lambda>r. (Timer, r))\<rparr>"

definition sample_queued :: system where
  "sample_queued = foldl (\<lambda>y t. snd (Broker_Publish y t)) sample_system
     [sample_task ''b'' 12, sample_task ''a'' 5, sample_task ''c'' 8]"

definition sample_leased :: system where
  "sample_leased = sample_queued\<lparr>
     sys_leases := snd (Lease_Acquire (sys_leases sample_queued) ''w'' 1),
     sys_execs := snd (Manager_Add (sys_execs sample_queued) ''w'')\<rparr>"

lemma sample_queue_inv: "queue_inv (sys_queue sample_queued)" "queue_inv (sys_queue sample_leased)"
proof -
  have step: "queue_inv (sys_queue y) \<Longrightarrow> queue_inv (sys_queue (snd (Broker_Publish y t)))" for y t
    by (auto simp: Publish_queue Enqueue_inv split: sum.split)
  show "queue_inv (sys_queue sample_queued)"
    unfolding sample_queued_def foldl_Cons foldl_Nil by (intro step sample_system_inv)
  then show "queue_inv (sys_queue sample_leased)" by (simp add: sample_leased_def)
qed

section \<open>Properties of the tick\<close>

text \<open>
  C11: the batch of a tick is fixed when it starts.  Whatever the callback between two hand-offs does
  (a publish that enqueues, for one), the tasks handed off are exactly the longest prefix, in due
  order, of the tasks queued at the start that lies in the window, each once; the rest of that batch
  is put back.  Without a callback nothing is lost on the way back: the tasks handed off and the
  tasks in the queue afterwards are together the ones queued before; without an executor, the queue
  is as it was.
\<close>

theorem tick_takes_window_prefix:
  assumes "queue_inv (sys_queue y)"
    and "batch = fst (Queue_Drain (sys_queue y))"
  shows "mset batch = queue_contents (sys_queue y) \<and> sorted (map task_due_key batch)
    \<and> (\<forall>exec es. Lease_Executors (sys_leases y) ks = exec # es \<longrightarrow>
        (\<exists>z err. handoff_all fl envs hook exec 0 None (takeWhile (in_window win) batch)
              (y\<lparr>sys_queue := (sys_queue y)\<lparr>q_items := []\<rparr>\<rparr>) = (err, z)
          \<and> Tick fl envs hook ks win y = (err, Dispatcher_requeue z (dropWhile (in_window win) batch)))
        \<and> queue_contents (sys_queue (snd (Tick fl envs None ks win y))) + mset (takeWhile (in_window win) batch)
            = queue_contents (sys_queue y))
    \<and> (Lease_Executors (sys_leases y) ks = [] \<longrightarrow>
        queue_contents (sys_queue (snd (Tick fl envs hook ks win y))) = queue_contents (sys_queue y)
        \<and> fst (Tick fl envs hook ks win y) = None)"
proof -
  have b: "batch = tick_batch y" using assms(2) by (simp add: tick_batch_def)
  have split: "mset (dropWhile P xs) + mset (takeWhile P xs) = mset xs" for P and xs :: "task list"
    by (metis add.commute mset_append takeWhile_dropWhile_id)
  have "\<exists>z err. handoff_all fl envs hook exec 0 None (takeWhile (in_window win) batch)
              (y\<lparr>sys_queue := (sys_queue y)\<lparr>q_items := []\<rparr>\<rparr>) = (err, z)
          \<and> Tick fl envs hook ks win y = (err, Dispatcher_requeue z (dropWhile (in_window win) batch))"
    if "Lease_Executors (sys_leases y) ks = exec # es" for exec es
    using that by (simp add: Tick_cases [OF assms(1)] b drained_def Let_def split: prod.split)
  moreover have "queue_contents (sys_queue (snd (Tick fl envs None ks win y))) + mset (takeWhile (in_window win) batch)
      = queue_contents (sys_queue y)" if "Lease_Executors (sys_leases y) ks = exec # es" for exec es
    using that Tick_None_queue(1) [OF assms(1), of fl envs ks win] split batch_props(1) [OF assms(1)]
    by (simp add: b tick_rest_def)
  moreover have "queue_contents (sys_queue (snd (Tick fl envs hook ks win y))) = queue_contents (sys_queue y)
        \<and> fst (Tick fl envs hook ks win y) = None" if "Lease_Executors (sys_leases y) ks = []"
    using that requeue_contents(1) [OF batch_props(3,4) [OF assms(1)]] batch_length [OF assms(1)]
      batch_props(1,5) [OF assms(1)] by (simp add: Tick_cases [OF assms(1)])
  ultimately show ?thesis using batch_props(1,2) [OF assms(1)] b by blast
qed

theorem tick_takes_window_prefix_witness:
  "map task_ID (fst (Queue_Drain (sys_queue sample_leased))) = [''a'', ''c'', ''b'']
   \<and> image_mset task_ID (queue_contents (sys_queue
        (snd (Tick id (\<lambda>n. sample_env) None [''w''] \<lparr>win_Begin = 0, win_End = 10\<rparr> sample_leased))))
     = {#''b''#}"
proof -
  let ?y = sample_leased and ?win = "\<lparr>win_Begin = 0, win_End = 10\<rparr>"
  let ?b = "fst (Queue_Drain (sys_queue ?y))"
  let ?z = "snd (Tick id (\<lambda>n. sample_env) None [''w''] ?win ?y)"
  have e: "Lease_Executors (sys_leases ?y) [''w''] = [''w'']" by code_simp
  have b: "map task_ID ?b = [''a'', ''c'', ''b'']" "map task_ID (takeWhile (in_window ?win) ?b) = [''a'', ''c'']"
    by code_simp+
  have all: "mset ?b = queue_contents (sys_queue ?y)
    \<and> queue_contents (sys_queue ?z) + mset (takeWhile (in_window ?win) ?b) = queue_contents (sys_queue ?y)"
    using tick_takes_window_prefix [OF sample_queue_inv(2) refl,
        where fl = id and envs = "\<lambda>n. sample_env" and ks = "[''w'']" and win = ?win] e by blast
  have "queue_contents (sys_queue ?z) + mset (takeWhile (in_window ?win) ?b) = mset ?b"
    using all by (elim conjE) (simp only:)
  from arg_cong [OF this, of "image_mset task_ID"]
  have "image_mset task_ID (queue_contents (sys_queue ?z)) + mset (map task_ID (takeWhile (in_window ?win) ?b))
      = mset (map task_ID ?b)"
    by (simp only: image_mset_union mset_map)
  moreover have "mset [''a'', ''c'', ''b''] = {#''b''#} + mset [''a'', ''c'']" by simp
  ultimately show ?thesis unfolding b by (metis add_right_cancel)
qed

text \<open>
  The drain and the requeue of a tick each lock the queue, but other goroutines may publish between
  them.
\<close>

lemma enq_all_overflow:
  "queue_inv q \<Longrightarrow>
   queue_contents (wq.enq_all q ts) = queue_contents q + mset (take (nat (q_limit q - Queue_Len q)) ts)"
proof (induction ts arbitrary: q)
  case (Cons t ts)
  show ?case
  proof (cases "Queue_Len q < q_limit q")
    case True
    have inv: "queue_inv (snd (Queue_Enqueue q t))" using Cons.prems by (simp add: Enqueue_inv)
    have add: "queue_contents (snd (Queue_Enqueue q t)) = add_mset t (queue_contents q)"
      using Enqueue_ok(2) [of q t] True by (simp add: Queue_Len_def)
    then have "Queue_Len (snd (Queue_Enqueue q t)) = Queue_Len q + 1"
      by (metis Queue_Len_def add.commute of_nat_Suc queue_contents_size size_add_mset)
    moreover have "nat (q_limit q - Queue_Len q) = Suc (nat (q_limit q - (Queue_Len q + 1)))" using True by simp
    ultimately show ?thesis using Cons.IH [OF inv] add by simp
  next
    case False
    then have "snd (Queue_Enqueue q t) = q" using Enqueue_full [of q t] by (simp add: Queue_Len_def)
    then show ?thesis using Cons.IH [OF Cons.prems] False by simp
  qed
qed simp

lemma publishes_queue:
  "queue_inv (sys_queue y) \<Longrightarrow>
   queue_inv (sys_queue (foldl (\<lambda>y t. snd (Broker_Publish y t)) y ts)) \<and>
   q_limit (sys_queue (foldl (\<lambda>y t. snd (Broker_Publish y t)) y ts)) = q_limit (sys_queue y)"
proof (induction ts arbitrary: y)
  case (Cons t ts)
  have "queue_inv (sys_queue (snd (Broker_Publish y t)))"
    "q_limit (sys_queue (snd (Broker_Publish y t))) = q_limit (sys_queue y)"
    using Cons.prems by (auto simp: Publish_queue Enqueue_inv split: sum.split)
  with Cons.IH [of "snd (Broker_Publish y t)"] show ?case by simp
qed simp

text \<open>
  Publishing during a tick can push out tasks that were queued before.  When a tick without an
  executor puts its batch back, after other goroutines published in between, the queue holds what
  they enqueued and only as much of the batch, earliest first, as its limit leaves room for; the
  rest of the batch is dropped although the tick reports no error, and nothing else changes.
\<close>

theorem requeue_drops_overflow:
  assumes "queue_inv (sys_queue y)" and "Queue_Drain (sys_queue y) = (batch, q)"
    and "y1 = foldl (\<lambda>y t. snd (Broker_Publish y t)) (y\<lparr>sys_queue := q\<rparr>) arriving"
    and "z = Dispatcher_requeue y1 batch"
  shows "queue_contents (sys_queue z) =
      queue_contents (sys_queue y1) + mset (take (nat (q_limit (sys_queue y) - Queue_Len (sys_queue y1))) batch)
    \<and> mset batch = queue_contents (sys_queue y) \<and> z\<lparr>sys_queue := sys_queue y1\<rparr> = y1"
proof -
  have q: "y\<lparr>sys_queue := q\<rparr> = drained y" using Drain_spec(3) [OF assms(1,2)] by (simp add: drained_def)
  note drained = batch_props [OF assms(1)]
  have y1: "queue_inv (sys_queue y1)" "q_limit (sys_queue y1) = q_limit (sys_queue y)"
    using publishes_queue [OF drained(3), of arriving] drained(5) assms(3) by (simp_all add: q)
  have batch: "batch = tick_batch y" using assms(2) by (simp add: tick_batch_def)
  have "queue_contents (sys_queue z) =
      queue_contents (sys_queue y1) + mset (take (nat (q_limit (sys_queue y) - Queue_Len (sys_queue y1))) batch)"
    using enq_all_overflow [OF y1(1), of batch] y1(2) by (simp add: assms(4) requeue_enq_all)
  moreover have "z\<lparr>sys_queue := sys_queue y1\<rparr> = y1" by (simp add: assms(4) requeue_enq_all)
  ultimately show ?thesis using drained(1) batch by simp
qed

theorem requeue_drops_overflow_witness:
  "let y = foldl (\<lambda>y t. snd (Broker_Publish y t)) (sample_system\<lparr>sys_queue := Queue_New 2\<rparr>)
         [sample_task ''b'' 12, sample_task ''a'' 5];
       (batch, q) = Queue_Drain (sys_queue y);
       z = Dispatcher_requeue (snd (Broker_Publish (y\<lparr>sys_queue := q\<rparr>) (sample_task ''c'' 20))) batch
   in image_mset task_ID (queue_contents (sys_queue z)) = {#''c'', ''a''#}"
proof -
  define y where "y = foldl (\<lambda>y t. snd (Broker_Publish y t)) (sample_system\<lparr>sys_queue := Queue_New 2\<rparr>)
      [sample_task ''b'' 12, sample_task ''a'' 5]"
  obtain batch q where d: "Queue_Drain (sys_queue y) = (batch, q)" by fastforce
  define y1 where "y1 = foldl (\<lambda>y t. snd (Broker_Publish y t)) (y\<lparr>sys_queue := q\<rparr>) [sample_task ''c'' 20]"
  have "queue_inv (sys_queue (sample_system\<lparr>sys_queue := Queue_New 2\<rparr>))" by (simp add: queue_inv_new)
  from publishes_queue [OF this] have inv: "queue_inv (sys_queue y)" unfolding y_def by blast
  have r: "batch = fst (Queue_Drain (sys_queue y))" "q = snd (Queue_Drain (sys_queue y))" using d by simp_all
  have c: "map task_ID (q_items (sys_queue y1)) = [''c'']" "Queue_Len (sys_queue y1) = 1"
    "q_limit (sys_queue y) = 2" "map task_ID batch = [''a'', ''b'']"
    unfolding y1_def r y_def by code_simp+
  from requeue_drops_overflow [OF inv d y1_def refl] c(2,3)
  have "queue_contents (sys_queue (Dispatcher_requeue y1 batch)) = queue_contents (sys_queue y1) + mset (take 1 batch)"
    by simp
  from arg_cong [OF this, of "image_mset task_ID"]
  have "image_mset task_ID (queue_contents (sys_queue (Dispatcher_requeue y1 batch))) =
      mset (map task_ID (q_items (sys_queue y1))) + mset (take 1 (map task_ID batch))"
    by (simp only: image_mset_union mset_map queue_contents_def take_map)
  then have "image_mset task_ID (queue_contents (sys_queue (Dispatcher_requeue y1 batch))) = {#''c'', ''a''#}"
    unfolding c by simp
  moreover have "y1 = snd (Broker_Publish (y\<lparr>sys_queue := q\<rparr>) (sample_task ''c'' 20))" by (simp add: y1_def)
  ultimately show ?thesis unfolding Let_def y_def [symmetric] d prod.case by simp
qed

text \<open>Ticks interleaved with publishes.\<close>

datatype sched_event =
  EvTick "nat \<Rightarrow> handoff_env" "executor_id list" window
| EvPublish task

fun sched_step :: "(rat \<Rightarrow> rat) \<Rightarrow> system \<Rightarrow> sched_event \<Rightarrow> system" where
  "sched_step fl y (EvTick envs ks win) = snd (Tick fl envs None ks win y)"
| "sched_step fl y (EvPublish t) = snd (Broker_Publish y t)"

fun tick_begins_after :: "time \<Rightarrow> sched_event \<Rightarrow> bool" where
  "tick_begins_after due (EvTick envs ks win) \<longleftrightarrow> due < win_Begin win"
| "tick_begins_after due (EvPublish t) \<longleftrightarrow> True"

text \<open>What only a hand-off changes.\<close>

definition handed_state :: "system \<Rightarrow> exec_manager \<times> limiter \<times> int64 \<times> int64 set \<times> counters \<times> counters" where
  "handed_state y = (sys_execs y, sys_flow y, Store_Cursor (sys_store y), s_dispatched (sys_store y),
     m_dispatched (sys_metrics y), m_failed (sys_metrics y))"

lemma tick_overdue:
  assumes "queue_inv (sys_queue y)" and "t \<in># queue_contents (sys_queue y)" and "task_DueAt t < win_Begin win"
  shows "takeWhile (in_window win) (tick_batch y) = []" "tick_rest ks win y = tick_batch y"
proof -
  have t: "t \<in> set (tick_batch y)" using assms(2) batch_props(1) [OF assms(1)] by (metis set_mset_mset)
  then obtain u ts where u: "tick_batch y = u # ts" by (cases "tick_batch y") auto
  have "task_due_key u \<le> task_due_key t" using batch_props(2) [OF assms(1)] t u by auto
  then have "\<not> in_window win u" using due_key_le_time assms(3) by (fastforce simp: Window_Contains_def)
  then show "takeWhile (in_window win) (tick_batch y) = []" "tick_rest ks win y = tick_batch y"
    using u by (simp_all add: tick_rest_def)
qed

lemma overdue_step:
  assumes "queue_inv (sys_queue y)" and "t \<in># queue_contents (sys_queue y)" and "tick_begins_after (task_DueAt t) ev"
  shows "queue_inv (sys_queue (sched_step fl y ev))" "t \<in># queue_contents (sys_queue (sched_step fl y ev))"
    "handed_state (sched_step fl y ev) = handed_state y"
proof -
  have "queue_inv (sys_queue (sched_step fl y ev)) \<and> t \<in># queue_contents (sys_queue (sched_step fl y ev))
      \<and> handed_state (sched_step fl y ev) = handed_state y"
  proof (cases ev)
    case (EvTick envs ks win)
    have win: "task_DueAt t < win_Begin win" using assms(3) EvTick by simp
    note od = tick_overdue [OF assms(1,2) win]
    have "dropWhile (in_window win) (tick_batch y) = tick_batch y"
      using od(1) by (metis append_Nil takeWhile_dropWhile_id)
    then have "snd (Tick fl envs None ks win y) = Dispatcher_requeue (drained y) (tick_batch y)"
      using od(1) by (simp add: Tick_cases [OF assms(1)] split: list.split)
    then have "handed_state (sched_step fl y ev) = handed_state y"
      by (simp add: EvTick handed_state_def requeue_enq_all drained_def)
    then show ?thesis
      using Tick_None_queue(1,2) [OF assms(1), of fl envs ks win] od(2) assms EvTick batch_props(1) [OF assms(1)]
      by simp
  next
    case (EvPublish u)
    have grow: "t \<in># queue_contents (snd (Queue_Enqueue (sys_queue y) v))" for v
      using assms(2) Enqueue_ok(2) [of "sys_queue y" v] Enqueue_full [of "sys_queue y" v]
      by (cases "int (length (q_items (sys_queue y))) < q_limit (sys_queue y)") simp_all
    have q: "sys_queue (snd (Broker_Publish y u)) = sys_queue y \<or>
        (\<exists>v. sys_queue (snd (Broker_Publish y u)) = snd (Queue_Enqueue (sys_queue y) v))"
      by (auto simp: Publish_queue split: sum.split)
    moreover have "handed_state (snd (Broker_Publish y u)) = handed_state y"
    proof -
      obtain res st where a: "Store_Append (sys_store y) u = (res, st)" by fastforce
      have "s_committed st = s_committed (sys_store y)" "s_dispatched st = s_dispatched (sys_store y)"
        using Append_frames [of "sys_store y" u] a by simp_all
      then show ?thesis
        by (auto simp: Broker_Publish_def a Let_def handed_state_def Store_Cursor_def Published_def
            split: prod.split sum.split option.split)
    qed
    ultimately show ?thesis
      using assms(1,2) Enqueue_inv grow by (auto simp: EvPublish)
  qed
  then show "queue_inv (sys_queue (sched_step fl y ev))" "t \<in># queue_contents (sys_queue (sched_step fl y ev))"
    "handed_state (sched_step fl y ev) = handed_state y" by auto
qed

text \<open>
  C30: one overdue task stops the scheduler.  Once a queued task is due before the windows of the
  ticks begin, no tick hands off anything, ever: through any number of ticks (with or without
  executors) and publishes, the task stays in the queue, and no executor, limiter, cursor, mark or
  dispatch counter changes.
\<close>

theorem overdue_task_blocks_all:
  assumes "queue_inv (sys_queue y)" and "t \<in> set (q_items (sys_queue y))"
    and "\<forall>ev \<in> set evs. tick_begins_after (task_DueAt t) ev"
  shows "t \<in> set (q_items (sys_queue (foldl (sched_step fl) y evs)))
    \<and> handed_state (foldl (sched_step fl) y evs) = handed_state y"
proof -
  have "queue_inv (sys_queue y) \<Longrightarrow> t \<in># queue_contents (sys_queue y) \<Longrightarrow>
      t \<in># queue_contents (sys_queue (foldl (sched_step fl) y evs))
      \<and> handed_state (foldl (sched_step fl) y evs) = handed_state y"
    using assms(3)
  proof (induction evs arbitrary: y)
    case (Cons ev evs)
    note step = overdue_step [OF Cons.prems(1,2), where ev = ev and fl = fl]
    then show ?case using Cons.IH [of "sched_step fl y ev"] Cons.prems(3) by simp
  qed simp
  then show ?thesis using assms(1,2) by (simp add: queue_contents_def)
qed

theorem overdue_task_blocks_all_witness:
  "\<exists>t \<in> set (q_items (sys_queue sample_leased)). task_ID t = ''a''
     \<and> t \<in> set (q_items (sys_queue (foldl (sched_step id) sample_leased
          [EvTick (\<lambda>n. sample_env) [''w''] \<lparr>win_Begin = 6, win_End = 20\<rparr>, EvPublish (sample_task ''d'' 15),
           EvTick (\<lambda>n. sample_env) [''w''] \<lparr>win_Begin = 10, win_End = 30\<rparr>])))"
proof -
  have "''a'' \<in> set (map task_ID (filter (\<lambda>t. task_DueAt t < 6) (q_items (sys_queue sample_leased))))"
    by code_simp
  then obtain t where t: "t \<in> set (q_items (sys_queue sample_leased))" "task_ID t = ''a''" "task_DueAt t < 6"
    by auto
  have "\<forall>ev \<in> set [EvTick (\<lambda>n. sample_env) [''w''] \<lparr>win_Begin = 6, win_End = 20\<rparr>, EvPublish (sample_task ''d'' 15),
           EvTick (\<lambda>n. sample_env) [''w''] \<lparr>win_Begin = 10, win_End = 30\<rparr>]. tick_begins_after (task_DueAt t) ev"
    using t(3) by simp
  from overdue_task_blocks_all [OF sample_queue_inv(2) t(1) this, of id] t(1,2) show ?thesis by blast
qed

section \<open>Hand-offs into a runner with room\<close>

text \<open>The state after a hand-off that passes every guard.\<close>

definition runner_with :: "runner \<Rightarrow> inst list \<Rightarrow> runner" where
  "runner_with r is = r\<lparr>rn_inflight := rn_inflight r \<union> inst_DedupeKey ` set is, rn_in := rn_in r @ is\<rparr>"

lemma runner_with_simps [simp]:
  "runner_with r [] = r" "runner_with (runner_with r is) js = runner_with r (is @ js)"
  "rn_in (runner_with r is) = rn_in r @ is" "rn_cap (runner_with r is) = rn_cap r"
  "rn_inflight (runner_with r is) = rn_inflight r \<union> inst_DedupeKey ` set is"
  "rn_closed (runner_with r is) = rn_closed r" "rn_replay (runner_with r is) = rn_replay r"
  by (simp_all add: runner_with_def image_Un Un_assoc)

definition handed_off :: "limiter \<Rightarrow> handoff_env \<Rightarrow> executor_id \<Rightarrow> runner \<Rightarrow> task \<Rightarrow> system \<Rightarrow> system" where
  "handed_off l env exec r t y = y\<lparr>sys_flow := l,
      sys_execs := Manager_Put (sys_execs y) exec (runner_with r [task_instance env t]),
      sys_store := snd (Store_Commit (Store_MarkDispatched (sys_store y) (task_Sequence t) True) (task_Sequence t)),
      sys_reg := Registry_SetState (sys_reg y) (task_ID t) TaskDispatched,
      sys_metrics := Metric_Dispatched (sys_metrics y)\<rparr>"

lemma task_instance_simps [simp]:
  "inst_DedupeKey (task_instance env t) = task_DedupeKey t"
  "inst_TaskID (task_instance env t) = task_ID t" "inst_Attempt (task_instance env t) = 1"
  by (simp_all add: task_instance_def NewInstance_def)

lemma dispatchOne_room:
  assumes "fst (Allow fl (sys_flow y) exec (he_now env))"
    and "Manager_Get (sys_execs y) exec = Some r"
    and "\<not> rn_closed r" and "\<not> rn_replay r" and "length (rn_in r) < rn_cap r"
    and "task_DedupeKey t \<notin> rn_inflight r" and "task_Sequence t \<le> s_seq (sys_store y)"
  shows "dispatchOne fl env None exec t y =
    (None, handed_off (snd (Allow fl (sys_flow y) exec (he_now env))) env exec r t y)"
proof -
  have lim: "Allow fl (sys_flow y) exec (he_now env) = (True, snd (Allow fl (sys_flow y) exec (he_now env)))"
    using assms(1) by (metis prod.collapse)
  have run: "Manager_Dispatch (he_wait env) (sys_execs y) exec (task_instance env t) =
      (None, Manager_Put (sys_execs y) exec (runner_with r [task_instance env t]))"
    using assms(2-6) by (simp add: Manager_Dispatch_def Runner_Enqueue_room runner_with_def)
  have commit: "fst (Store_Commit (Store_MarkDispatched (sys_store y) (task_Sequence t) True) (task_Sequence t)) = None"
    using assms(7) by (simp add: Store_Commit_def)
  then show ?thesis
    by (simp add: dispatchOne_def markDispatched_def Let_def run case_prod_beta handed_off_def assms(1))
qed

lemma handed_off_store:
  assumes "task_Sequence t \<le> s_seq (sys_store y)"
  shows "s_dispatched (sys_store (handed_off l env exec r t y)) = insert (task_Sequence t) (s_dispatched (sys_store y))"
    "s_committed (sys_store (handed_off l env exec r t y)) = max (s_committed (sys_store y)) (task_Sequence t)"
    "s_seq (sys_store (handed_off l env exec r t y)) = s_seq (sys_store y)"
  using assms by (auto simp: handed_off_def Store_MarkDispatched_def Store_Commit_def)

section \<open>Properties of the hand-off\<close>

text \<open>
  C23: a hand-off that succeeds does all its effects.  When the limiter grants it and the runner of
  the executor is open, not replaying, has room and does not have the key in flight, the call
  reports no error for a sequence the store assigned: the instance, with the task's own key, is last
  in the runner's queue, the sequence is marked and the cursor reaches it, the registry shows the
  task as dispatched, and exactly one dispatch is counted.
\<close>

theorem handoff_success:
  assumes "fst (Allow fl (sys_flow y) exec (he_now env))"
    and "Manager_Get (sys_execs y) exec = Some r"
    and "\<not> rn_closed r" and "\<not> rn_replay r" and "length (rn_in r) < rn_cap r"
    and "task_DedupeKey t \<notin> rn_inflight r" and "task_Sequence t \<le> s_seq (sys_store y)"
    and "dispatchOne fl env None exec t y = (err, z)"
  shows "err = None
    \<and> (\<exists>r' i. Manager_Get (sys_execs z) exec = Some r' \<and> rn_in r' = rn_in r @ [i]
        \<and> inst_DedupeKey i = task_DedupeKey t \<and> inst_TaskID i = task_ID t \<and> inst_Attempt i = 1
        \<and> rn_inflight r' = insert (task_DedupeKey t) (rn_inflight r))
    \<and> Store_Dispatched (sys_store z) (task_Sequence t)
    \<and> Store_Cursor (sys_store z) = max (Store_Cursor (sys_store y)) (task_Sequence t)
    \<and> map_option task_State (Registry_Get (sys_reg z) (task_ID t)) =
        map_option (\<lambda>_. TaskDispatched) (Registry_Get (sys_reg y) (task_ID t))
    \<and> sys_metrics z = Metric_Dispatched (sys_metrics y)"
proof -
  note room = dispatchOne_room [OF assms(1-7)]
  define l where "l = snd (Allow fl (sys_flow y) exec (he_now env))"
  have z: "err = None" "z = handed_off l env exec r t y" using room assms(8) by (simp_all add: l_def)
  have "map_option task_State (Registry_Get (Registry_SetState (sys_reg y) (task_ID t) TaskDispatched) (task_ID t)) =
        map_option (\<lambda>_. TaskDispatched) (Registry_Get (sys_reg y) (task_ID t))"
    by (simp add: SetState_reads option.map_comp comp_def)
  moreover have "Manager_Get (sys_execs z) exec = Some (runner_with r [task_instance env t])"
    "sys_metrics z = Metric_Dispatched (sys_metrics y)"
    "sys_reg z = Registry_SetState (sys_reg y) (task_ID t) TaskDispatched"
    by (simp_all add: z handed_off_def)
  ultimately show ?thesis
    using handed_off_store [OF assms(7), of l env exec r]
    by (simp add: z(1) Store_Dispatched_def Store_Cursor_def) (simp add: z)
qed

theorem handoff_success_witness:
  "let (err, z) = dispatchOne id sample_env None ''w'' ((sample_task ''a'' 5)\<lparr>task_Sequence := 2\<rparr>) sample_leased
   in err = None \<and> Store_Dispatched (sys_store z) 2 \<and> Store_Cursor (sys_store z) = 2"
proof -
  let ?y = sample_leased and ?t = "(sample_task ''a'' 5)\<lparr>task_Sequence := 2\<rparr>"
  obtain err z where d: "dispatchOne id sample_env None ''w'' ?t ?y = (err, z)" by fastforce
  have *: "fst (Allow id (sys_flow ?y) ''w'' (he_now sample_env))" "task_Sequence ?t \<le> s_seq (sys_store ?y)"
    "Store_Cursor (sys_store ?y) = 0"
    by code_simp+
  have r: "Manager_Get (sys_execs ?y) ''w'' = Some (NewRunner 2)"
  proof -
    have "em_queueSize (sys_execs sample_queued) = 2" by code_simp
    moreover have "sys_execs sample_queued = sys_execs sample_system" by (simp add: sample_queued_def)
    ultimately show ?thesis
      by (simp add: sample_leased_def) (simp add: sample_system_def NewManager_def Manager_Get_def)
  qed
  have n: "\<not> rn_closed (NewRunner 2)" "\<not> rn_replay (NewRunner 2)" "length (rn_in (NewRunner 2)) < rn_cap (NewRunner 2)"
    "task_DedupeKey ?t \<notin> rn_inflight (NewRunner 2)"
    by (simp_all add: NewRunner_def)
  from handoff_success [OF *(1) r n *(2) d] *(3)
  have "err = None" "Store_Dispatched (sys_store z) 2" "Store_Cursor (sys_store z) = 2" by simp_all
  then show ?thesis by (simp add: d)
qed

lemma handoff_no_runner:
  assumes "Manager_Get (sys_execs y) exec = None"
  shows "fst (dispatchOne fl env hook exec t y) \<in> {Some ErrLimited, Some ErrNoExecutor}
    \<and> sys_store (snd (dispatchOne fl env hook exec t y)) = sys_store y
    \<and> sys_reg (snd (dispatchOne fl env hook exec t y)) = sys_reg y
    \<and> sys_execs (snd (dispatchOne fl env hook exec t y)) = sys_execs y"
  using assms by (simp add: dispatchOne_def Manager_Dispatch_def Let_def split: prod.split)

lemma handoff_all_no_runner:
  "Manager_Get (sys_execs y) exec = None \<Longrightarrow>
   (ts \<noteq> [] \<or> err \<noteq> None \<longrightarrow> fst (handoff_all fl envs hook exec i err ts y) \<noteq> None)
   \<and> sys_store (snd (handoff_all fl envs hook exec i err ts y)) = sys_store y
   \<and> sys_reg (snd (handoff_all fl envs hook exec i err ts y)) = sys_reg y
   \<and> sys_execs (snd (handoff_all fl envs hook exec i err ts y)) = sys_execs y"
proof (induction ts arbitrary: i err y)
  case (Cons t ts)
  obtain e z where d: "dispatchOne fl (envs i) hook exec t y = (e, z)" by fastforce
  have z: "e \<noteq> None" "sys_store z = sys_store y" "sys_reg z = sys_reg y" "sys_execs z = sys_execs y"
    using handoff_no_runner [OF Cons.prems, of fl "envs i" hook t] d by auto
  show ?case
    using Cons.IH [of z "if err = None then e else err" "i + 1"] Cons.prems z by (simp add: d)
qed simp

lemma handoff_all_append:
  "handoff_all fl envs hook exec i err (ts @ us) y =
     (let (e, z) = handoff_all fl envs hook exec i err ts y
      in handoff_all fl envs hook exec (i + length ts) e us z)"
  by (induction ts arbitrary: i err y) (simp_all add: Let_def split: prod.split)

lemma handoff_all_err: "err \<noteq> None \<Longrightarrow> fst (handoff_all fl envs hook exec i err ts y) \<noteq> None"
proof (induction ts arbitrary: i err y)
  case (Cons t ts)
  obtain e z where "dispatchOne fl (envs i) hook exec t y = (e, z)" by fastforce
  with Cons.IH [of err "i + 1" z] Cons.prems show ?case by auto
qed simp

text \<open>What a hand-off leaves of the store, and what a refused one changes.\<close>

lemma dispatchOne_store:
  "s_seq (sys_store (snd (dispatchOne fl env None exec t y))) = s_seq (sys_store y)"
  "store_items (sys_store (snd (dispatchOne fl env None exec t y))) = store_items (sys_store y)"
  "q \<noteq> task_Sequence t \<Longrightarrow>
   Store_Dispatched (sys_store (snd (dispatchOne fl env None exec t y))) q = Store_Dispatched (sys_store y) q"
  by (auto simp: dispatchOne_def markDispatched_def Let_def Store_Commit_def Store_MarkDispatched_def
      Store_Dispatched_def store_items_def split: prod.split option.split)

lemma dispatchOne_refused:
  assumes "dispatchOne fl env None exec t y = (Some e, z)" and "task_Sequence t \<le> s_seq (sys_store y)"
  shows "sys_store z = sys_store y" "sys_reg z = sys_reg y"
  using assms
  by (auto simp: dispatchOne_def markDispatched_def Let_def Store_Commit_def Store_MarkDispatched_def
      split: prod.splits option.splits if_splits)

lemma handoff_all_store:
  "s_seq (sys_store (snd (handoff_all fl envs None exec i err ts y))) = s_seq (sys_store y)
   \<and> store_items (sys_store (snd (handoff_all fl envs None exec i err ts y))) = store_items (sys_store y)
   \<and> (q \<notin> task_Sequence ` set ts \<longrightarrow>
        Store_Dispatched (sys_store (snd (handoff_all fl envs None exec i err ts y))) q = Store_Dispatched (sys_store y) q)"
proof (induction ts arbitrary: i err y)
  case (Cons t ts)
  obtain e z where d: "dispatchOne fl (envs i) None exec t y = (e, z)" by fastforce
  show ?case
    using Cons.IH [of "i + 1" "if err = None then e else err" z] d
      dispatchOne_store(1,2) [of fl "envs i" exec t y] dispatchOne_store(3) [of q t fl "envs i" exec y] by simp
qed simp

text \<open>
  C39: a hand-off that is refused forgets the task.  Take any task of the window whose hand-off a tick
  finds refused, whatever the reason (the rate limit, no runner, a duplicate key, a full or closed
  runner), in a state whose queued tasks have assigned sequences.  The tick reports an error and puts
  back no task of the window; the refused hand-off itself changes neither the store nor the registry
  nor the queue, so unless another task of the window has its sequence, the task is marked after the
  tick as it was before; and it is among the pending tasks of the store exactly if the store retains
  it and the committed cursor has not reached its sequence.  In particular, when the executor that the
  lease table lists first has no runner (it was evicted), every hand-off of the tick is refused, and
  after it the store, the registry and the runners are as before.
\<close>

theorem tick_drops_refused:
  assumes "queue_inv (sys_queue y)" and "Lease_Executors (sys_leases y) ks = exec # es"
    and "\<forall>u \<in># queue_contents (sys_queue y). task_Sequence u \<le> s_seq (sys_store y)"
    and "taken = takeWhile (in_window win) (fst (Queue_Drain (sys_queue y)))"
    and "Tick fl envs None ks win y = (err, z)"
    and "k < length taken" and "t = taken ! k"
    and "b = snd (handoff_all fl envs None exec 0 None (take k taken) (drained y))"
    and "dispatchOne fl (envs k) None exec t b = (Some e, a)"
  shows "err \<noteq> None \<and> queue_contents (sys_queue z) + mset taken = queue_contents (sys_queue y)
    \<and> sys_store a = sys_store b \<and> sys_reg a = sys_reg b \<and> sys_queue a = sys_queue b
    \<and> ((\<forall>j < length taken. j \<noteq> k \<longrightarrow> task_Sequence (taken ! j) \<noteq> task_Sequence t) \<longrightarrow>
        Store_Dispatched (sys_store z) (task_Sequence t) = Store_Dispatched (sys_store y) (task_Sequence t))
    \<and> (t \<in> set (Store_Pending (sys_store z)) \<longleftrightarrow>
        t \<in> set (store_items (sys_store y)) \<and> Store_Cursor (sys_store z) < task_Sequence t)
    \<and> (Manager_Get (sys_execs y) exec = None \<longrightarrow>
        sys_store z = sys_store y \<and> sys_reg z = sys_reg y \<and> sys_execs z = sys_execs y)"
proof -
  have taken: "taken = takeWhile (in_window win) (tick_batch y)" using assms(4) by (simp add: tick_batch_def)
  let ?h = "handoff_all fl envs None exec 0 None taken (drained y)"
  have keep: "sys_store (drained y) = sys_store y" "sys_reg (drained y) = sys_reg y" "sys_execs (drained y) = sys_execs y"
    by (simp_all add: drained_def)
  have z: "err = fst ?h" "z = Dispatcher_requeue (snd ?h) (dropWhile (in_window win) (tick_batch y))"
    using assms(5) by (simp_all add: Tick_cases [OF assms(1)] assms(2) taken Let_def split: prod.splits)
  then have sz: "sys_store z = sys_store (snd ?h)" "sys_reg z = sys_reg (snd ?h)" "sys_execs z = sys_execs (snd ?h)"
    by (simp_all add: requeue_enq_all)
  have split: "taken = take k taken @ t # drop (Suc k) taken" using assms(6,7) by (simp add: id_take_nth_drop)
  obtain e0 where b: "handoff_all fl envs None exec 0 None (take k taken) (drained y) = (e0, b)"
    using assms(8) by (metis prod.collapse)
  have h: "?h = handoff_all fl envs None exec (k + 1) (if e0 = None then Some e else e0) (drop (Suc k) taken) a"
    using assms(6) by (subst split) (simp add: handoff_all_append b assms(9))
  have seq: "task_Sequence t \<le> s_seq (sys_store b)"
  proof -
    have "t \<in> set (tick_batch y)" using assms(6,7) taken by (metis nth_mem set_takeWhileD)
    then have "t \<in># queue_contents (sys_queue y)" using batch_props(1) [OF assms(1)] by (metis set_mset_mset)
    moreover have "s_seq (sys_store b) = s_seq (sys_store y)"
      using handoff_all_store [of fl envs exec 0 None "take k taken" "drained y"] b keep by simp
    ultimately show ?thesis using assms(3) by simp
  qed
  note refused = dispatchOne_refused [OF assms(9) seq]
  have "err \<noteq> None" using z(1) h handoff_all_err [of "if e0 = None then Some e else e0"] by simp
  moreover have "queue_contents (sys_queue z) + mset taken = queue_contents (sys_queue y)"
    using Tick_None_queue(1) [OF assms(1), of fl envs ks win] assms(2,5) batch_props(1) [OF assms(1)]
    by (simp add: tick_rest_def taken) (metis add.commute mset_append takeWhile_dropWhile_id)
  moreover have "sys_queue a = sys_queue b" using dispatchOne_frames(1) [of fl "envs k" exec t b] assms(9) by simp
  moreover have "Store_Dispatched (sys_store z) (task_Sequence t) = Store_Dispatched (sys_store y) (task_Sequence t)"
    if only: "\<forall>j < length taken. j \<noteq> k \<longrightarrow> task_Sequence (taken ! j) \<noteq> task_Sequence t"
  proof -
    have "task_Sequence u \<noteq> task_Sequence t" if "u \<in> set (take k taken) \<union> set (drop (Suc k) taken)" for u
      using nth_others [OF that assms(6)] only by blast
    then have "task_Sequence t \<notin> task_Sequence ` set (take k taken)" "task_Sequence t \<notin> task_Sequence ` set (drop (Suc k) taken)"
      by (metis UnCI imageE)+
    then show ?thesis
      using handoff_all_store [of fl envs exec 0 None "take k taken" "drained y" "task_Sequence t"]
        handoff_all_store [of fl envs exec "k + 1" "if e0 = None then Some e else e0" "drop (Suc k) taken" a "task_Sequence t"]
        b h keep refused sz by simp
  qed
  moreover have "store_items (sys_store z) = store_items (sys_store y)"
    using handoff_all_store [of fl envs exec 0 None taken "drained y"] keep sz by simp
  then have "t \<in> set (Store_Pending (sys_store z)) \<longleftrightarrow>
      t \<in> set (store_items (sys_store y)) \<and> Store_Cursor (sys_store z) < task_Sequence t"
    by (auto simp: Store_Pending_filter Store_Cursor_def)
  moreover have "Manager_Get (sys_execs y) exec = None \<longrightarrow>
      sys_store z = sys_store y \<and> sys_reg z = sys_reg y \<and> sys_execs z = sys_execs y"
    using handoff_all_no_runner [of "drained y" exec taken None fl envs None 0] keep sz by simp
  ultimately show ?thesis using refused by blast
qed

theorem tick_drops_refused_witness:
  "let y = sample_leased\<lparr>sys_execs := Manager_Remove (sys_execs sample_leased) ''w''\<rparr>;
       (err, z) = Tick id (\<lambda>n. sample_env) None [''w''] \<lparr>win_Begin = 0, win_End = 10\<rparr> y
   in err \<noteq> None \<and> sys_store z = sys_store y \<and> sys_execs z = sys_execs y
     \<and> size (queue_contents (sys_queue z)) < size (queue_contents (sys_queue y))"
proof -
  let ?y = "sample_leased\<lparr>sys_execs := Manager_Remove (sys_execs sample_leased) ''w''\<rparr>"
  let ?win = "\<lparr>win_Begin = 0, win_End = 10\<rparr>"
  let ?taken = "takeWhile (in_window ?win) (fst (Queue_Drain (sys_queue ?y)))"
  obtain err z where t: "Tick id (\<lambda>n. sample_env) None [''w''] ?win ?y = (err, z)" by fastforce
  have q: "queue_inv (sys_queue ?y)" using sample_queue_inv(2) by simp
  have e: "Lease_Executors (sys_leases ?y) [''w''] = [''w'']" by code_simp
  have r: "Manager_Get (sys_execs ?y) ''w'' = None" by simp
  have "map task_ID ?taken \<noteq> []" by code_simp
  then have ne: "?taken \<noteq> []" by simp
  then have k: "0 < length ?taken" by simp
  have "list_all (\<lambda>u. task_Sequence u \<le> s_seq (sys_store ?y)) (q_items (sys_queue ?y))" by code_simp
  then have s: "\<forall>u \<in># queue_contents (sys_queue ?y). task_Sequence u \<le> s_seq (sys_store ?y)"
    by (simp add: list_all_iff queue_contents_def)
  obtain x a where d: "dispatchOne id sample_env None ''w'' (?taken ! 0) (drained ?y) = (Some x, a)"
    using handoff_no_runner [of "drained ?y" "''w''" id sample_env None "?taken ! 0"] r
    by (cases "dispatchOne id sample_env None ''w'' (?taken ! 0) (drained ?y)") (auto simp: drained_def)
  have b: "drained ?y = snd (handoff_all id (\<lambda>n. sample_env) None ''w'' 0 None (take 0 ?taken) (drained ?y))" by simp
  note all = tick_drops_refused [OF q e s refl t k refl b d]
  have "size (queue_contents (sys_queue z) + mset ?taken) = size (queue_contents (sys_queue ?y))"
    using all by (simp only:)
  then have "size (queue_contents (sys_queue z)) < size (queue_contents (sys_queue ?y))"
    using ne unfolding size_union size_mset by (metis length_greater_0_conv less_add_same_cancel1)
  with all r show ?thesis unfolding Let_def t prod.case by blast
qed

text \<open>
  A success hides an earlier failure.  The cursor a hand-off commits is the highest sequence, not
  the end of a gapless prefix: after one succeeds, no task of a lower sequence is pending any more,
  in particular none that was refused before and never marked as handed off, so neither the backlog
  nor its retryable count shows it.
\<close>

theorem commit_hides_earlier:
  assumes "store_inv (sys_store y)" and "0 < task_Sequence t"
    and "dispatchOne fl env None exec t y = (None, z)"
    and "u \<in> set (store_items (sys_store y))" and "task_Sequence u < task_Sequence t"
  shows "u \<in> set (store_items (sys_store z)) \<and> u \<notin> set (Store_Pending (sys_store z))
    \<and> Store_Dispatched (sys_store z) (task_Sequence u) = Store_Dispatched (sys_store y) (task_Sequence u)"
proof -
  have z: "sys_store z = snd (Store_Commit (Store_MarkDispatched (sys_store y) (task_Sequence t) True) (task_Sequence t))
      \<and> task_Sequence t \<le> s_seq (sys_store y)"
    using assms(3)
    by (auto simp: dispatchOne_def markDispatched_def Let_def Store_Commit_def split: prod.splits option.splits if_splits)
  then have "task_Sequence t \<le> s_committed (sys_store z)" by (simp add: Commit_cursor)
  then show ?thesis
    using z assms(4,5)
    by (auto simp: store_items_def Store_Pending_filter Store_Dispatched_def Store_MarkDispatched_def)
qed

theorem commit_hides_earlier_witness:
  "let (err, z) = dispatchOne id sample_env None ''w'' ((sample_task ''a'' 5)\<lparr>task_Sequence := 2\<rparr>) sample_leased
   in err = None \<and> (\<exists>u \<in> set (store_items (sys_store z)). task_ID u = ''b''
       \<and> \<not> Store_Dispatched (sys_store z) (task_Sequence u) \<and> u \<notin> set (Store_Pending (sys_store z)))"
proof -
  let ?y = sample_leased and ?t = "(sample_task ''a'' 5)\<lparr>task_Sequence := 2\<rparr>"
  obtain err z where d: "dispatchOne id sample_env None ''w'' ?t ?y = (err, z)" by fastforce
  have err: "err = None"
  proof -
    have "fst (dispatchOne id sample_env None ''w'' ?t ?y) = None" by code_simp
    then show ?thesis by (simp add: d)
  qed
  have inv: "store_inv (sys_store ?y)"
  proof -
    have s: "store_inv (sys_store z) \<and> s_seq (sys_store z) = n \<Longrightarrow> n < max_int64 \<Longrightarrow>
        store_inv (sys_store (snd (Broker_Publish z t))) \<and> s_seq (sys_store (snd (Broker_Publish z t))) = n + 1"
      for z n t using Publish_store [of z t] by simp
    have 0: "store_inv (sys_store sample_system) \<and> s_seq (sys_store sample_system) = 0"
      using sample_system_inv(1) by (simp add: sample_system_def NewStore_def)
    have "store_inv (sys_store sample_queued)"
      unfolding sample_queued_def foldl_Cons foldl_Nil
      using s [OF s [OF s [OF 0]]] by (simp add: max_int64_def)
    then show ?thesis by (simp add: sample_leased_def)
  qed
  have "''b'' \<in> set (map task_ID (filter (\<lambda>t. task_Sequence t = 1 \<and> \<not> Store_Dispatched (sys_store ?y) (task_Sequence t))
      (store_items (sys_store ?y))))" by code_simp
  then obtain u where u: "u \<in> set (store_items (sys_store ?y))" "task_ID u = ''b''" "task_Sequence u = 1"
    "\<not> Store_Dispatched (sys_store ?y) (task_Sequence u)" by auto
  have "0 < task_Sequence ?t" "task_Sequence u < task_Sequence ?t" using u(3) by simp_all
  from commit_hides_earlier [OF inv this(1) d [unfolded err] u(1) this(2)] u(2,4) err
  show ?thesis by (auto simp: d)
qed

end
