(* ===== verification/Group_Views.thy ===== *)
theory Group_Views
  imports Dispatch
begin

text \<open>
  The cached group views of the dispatcher (\<open>ordered\<close> in \<open>internal/dispatch/dispatch.go\<close>): what the
  cache relies on the registry's versions for, as an interface, and what a cached view is worth.
\<close>

section \<open>Versioned views\<close>

text \<open>
  A table whose entries are read through views, each under a version that never decreases and that
  moves whenever the view changes.  A cache that remembers a view with its version is coherent if no
  remembered version is ahead and every remembered view of the current version is the current view.
\<close>

locale versioned_view =
  fixes step :: "'r \<Rightarrow> 'c \<Rightarrow> 'r"
    and ok :: "'r \<Rightarrow> 'c \<Rightarrow> bool"
    and inv :: "'r \<Rightarrow> bool"
    and version :: "'r \<Rightarrow> 'k \<Rightarrow> 'v::linorder"
    and view :: "'r \<Rightarrow> 'k \<Rightarrow> 'w"
  assumes step_inv: "inv r \<Longrightarrow> ok r c \<Longrightarrow> inv (step r c)"
    and step_version: "inv r \<Longrightarrow> ok r c \<Longrightarrow> version r k \<le> version (step r c) k"
    and step_view: "inv r \<Longrightarrow> ok r c \<Longrightarrow> version (step r c) k = version r k \<Longrightarrow> view (step r c) k = view r k"
begin

definition coherent :: "'r \<Rightarrow> ('k \<rightharpoonup> 'v \<times> 'w) \<Rightarrow> bool" where
  "coherent r cache \<longleftrightarrow>
     (\<forall>k v w. cache k = Some (v, w) \<longrightarrow> v \<le> version r k \<and> (v = version r k \<longrightarrow> w = view r k))"

lemma coherent_empty: "coherent r Map.empty"
  by (simp add: coherent_def)

lemma coherent_step:
  assumes "inv r" and "ok r c" and "coherent r cache"
  shows "coherent (step r c) cache"
  unfolding coherent_def
proof (intro allI impI)
  fix k v w assume "cache k = Some (v, w)"
  then have v: "v \<le> version r k" "v = version r k \<Longrightarrow> w = view r k"
    using assms(3) by (auto simp: coherent_def)
  note up = step_version [OF assms(1,2), of k]
  have "w = view (step r c) k" if "v = version (step r c) k"
  proof -
    have "version (step r c) k = version r k" using that v(1) up by simp
    then show ?thesis using step_view [OF assms(1,2)] v(2) that by simp
  qed
  then show "v \<le> version (step r c) k \<and> (v = version (step r c) k \<longrightarrow> w = view (step r c) k)"
    using v(1) up by auto
qed

lemma coherent_fill: "coherent r cache \<Longrightarrow> coherent r (cache(k \<mapsto> (version r k, view r k)))"
  by (simp add: coherent_def)

lemma coherent_hit: "coherent r cache \<Longrightarrow> cache k = Some (version r k, w) \<Longrightarrow> w = view r k"
  by (simp add: coherent_def)

end

section \<open>The registry as a table of versioned views\<close>

definition group_view :: "registry \<Rightarrow> string \<Rightarrow> task list option" where
  "group_view r g = ordered_loop r (Registry_GroupTasks r g) zero_time []"

text \<open>
  A call keeps the view sound if it does not move an id to another group and no version is at its
  64-bit end, from where the next one would be 0.
\<close>

definition registry_ok :: "registry \<Rightarrow> registry_call \<Rightarrow> bool" where
  "registry_ok r c \<longleftrightarrow> keeps_group r c \<and> (\<forall>g. Registry_Version r g < - 1)"

lemma ordered_loop_cong:
  "(\<And>tid. tid \<in> set ids \<Longrightarrow> Registry_Get r' tid = Registry_Get r tid) \<Longrightarrow>
   ordered_loop r' ids previous live = ordered_loop r ids previous live"
  by (induction ids arbitrary: previous live) (auto simp: Alive_Get split: option.split)

lemma version_step:
  assumes "registry_ok r c"
  shows "Registry_Version r g \<le> Registry_Version (registry_step r c) g"
    and "Registry_Version (registry_step r c) g = Registry_Version r g \<Longrightarrow>
      (case c of CallRegister t \<Rightarrow> task_Group t \<noteq> g
       | CallDelete tid \<Rightarrow> \<forall>t. Registry_Get r tid = Some t \<longrightarrow> task_Group t \<noteq> g
       | CallSetState tid st \<Rightarrow> \<forall>t. Registry_Get r tid = Some t \<longrightarrow> task_Group t \<noteq> g)"
proof -
  have less: "Registry_Version r g < Registry_Version r g + 1" for g
    using assms word_succ_greater [of "Registry_Version r g" "- 1"] by (simp add: registry_ok_def)
  show "Registry_Version r g \<le> Registry_Version (registry_step r c) g"
    using less_imp_le [OF less] by (cases c) (auto simp: Delete_reads SetState_reads split: option.split)
  have neq: "Registry_Version r g + 1 \<noteq> Registry_Version r g" using less [of g] by simp
  assume "Registry_Version (registry_step r c) g = Registry_Version r g"
  then show "case c of CallRegister t \<Rightarrow> task_Group t \<noteq> g
       | CallDelete tid \<Rightarrow> \<forall>t. Registry_Get r tid = Some t \<longrightarrow> task_Group t \<noteq> g
       | CallSetState tid st \<Rightarrow> \<forall>t. Registry_Get r tid = Some t \<longrightarrow> task_Group t \<noteq> g"
    using neq by (cases c) (simp_all add: Delete_reads SetState_reads split: if_splits option.splits)
qed

lemma view_step:
  assumes "groups_pure r" and "registry_ok r c"
    and "Registry_Version (registry_step r c) g = Registry_Version r g"
  shows "group_view (registry_step r c) g = group_view r g"
proof -
  note touched = version_step(2) [OF assms(2,3)]
  have in_g: "\<exists>t. Registry_Get r tid = Some t \<and> task_Group t = g" if "tid \<in> set (Registry_GroupTasks r g)" for tid
    using assms(1) that by (simp add: groups_pure_def)
  have keep: "keeps_group r c" using assms(2) by (simp add: registry_ok_def)
  have ids: "Registry_GroupTasks (registry_step r c) g = Registry_GroupTasks r g"
    using touched by (cases c) (auto simp: Delete_reads SetState_reads split: option.split)
  have "Registry_Get (registry_step r c) tid = Registry_Get r tid" if "tid \<in> set (Registry_GroupTasks r g)" for tid
    using in_g [OF that] touched keep
    by (cases c) (auto simp: Delete_reads SetState_reads)
  then have "ordered_loop (registry_step r c) (Registry_GroupTasks r g) zero_time [] =
      ordered_loop r (Registry_GroupTasks r g) zero_time []"
    by (rule ordered_loop_cong)
  then show ?thesis by (simp add: group_view_def ids)
qed

interpretation gv: versioned_view registry_step registry_ok groups_pure Registry_Version group_view
  by unfold_locales (auto simp: registry_ok_def groups_pure_step intro: version_step view_step)

section \<open>What a view holds\<close>

definition live_tasks :: "registry \<Rightarrow> string \<Rightarrow> task list" where
  "live_tasks r g = List.map_filter
     (\<lambda>tid. if Registry_Alive r tid then Registry_Get r tid else None) (Registry_GroupTasks r g)"

text \<open>Due order as the loop tests it: an unset due time has no predecessor and no successor to respect.\<close>

definition due_ordered :: "task list \<Rightarrow> bool" where
  "due_ordered ts \<longleftrightarrow> successively (\<lambda>a b. task_DueAt a = zero_time \<or> task_DueAt a \<le> task_DueAt b) ts"

lemma ordered_loop_live:
  "ordered_loop r ids previous acc =
     (let live = List.map_filter (\<lambda>tid. if Registry_Alive r tid then Registry_Get r tid else None) ids
      in if due_ordered live \<and> (live = [] \<or> previous = zero_time \<or> previous \<le> task_DueAt (hd live))
         then Some (acc @ live) else None)"
proof (induction ids arbitrary: previous acc)
  case Nil
  then show ?case by (simp add: List.map_filter_simps due_ordered_def)
next
  case (Cons tid ids)
  show ?case
  proof (cases "Registry_Alive r tid")
    case False
    then show ?thesis
      by (simp add: Cons.IH List.map_filter_simps split: option.split)
  next
    case True
    then obtain t where "Registry_Get r tid = Some t" by (auto simp: Alive_Get)
    with True show ?thesis
      by (auto simp: Cons.IH List.map_filter_simps due_ordered_def successively_Cons Let_def not_less)
  qed
qed

lemma group_view_live:
  "group_view r g = (if due_ordered (live_tasks r g) then Some (live_tasks r g) else None)"
  by (simp add: group_view_def ordered_loop_live live_tasks_def Let_def)

section \<open>Runs of registry calls and reads\<close>

datatype view_call = ViewReg registry_call | ViewOrdered string

fun view_step :: "system \<Rightarrow> view_call \<Rightarrow> system" where
  "view_step y (ViewReg c) = y\<lparr>sys_reg := registry_step (sys_reg y) c\<rparr>"
| "view_step y (ViewOrdered g) = snd (Dispatcher_ordered y g)"

fun view_ok :: "system \<Rightarrow> view_call list \<Rightarrow> bool" where
  "view_ok y [] \<longleftrightarrow> True"
| "view_ok y (c # cs) \<longleftrightarrow>
     (case c of ViewReg rc \<Rightarrow> registry_ok (sys_reg y) rc | ViewOrdered g \<Rightarrow> True) \<and> view_ok (view_step y c) cs"

definition cache_pairs :: "(string \<rightharpoonup> window_entry) \<Rightarrow> string \<rightharpoonup> uint64 \<times> task list option" where
  "cache_pairs cache g = map_option (\<lambda>e. (we_version e, we_tasks e)) (cache g)"

definition cache_inv :: "system \<Rightarrow> bool" where
  "cache_inv y \<longleftrightarrow> groups_pure (sys_reg y) \<and> gv.coherent (sys_reg y) (cache_pairs (sys_cache y))"

lemma cache_pairs_upd: "cache_pairs (c(g \<mapsto> e)) = (cache_pairs c)(g \<mapsto> (we_version e, we_tasks e))"
  by (auto simp: cache_pairs_def fun_eq_iff)

lemma coherent_drop: "gv.coherent r c \<Longrightarrow> gv.coherent r (c(g := None))"
  by (simp add: gv.coherent_def)

lemma cache_pairs_drop: "cache_pairs (c(g := None)) = (cache_pairs c)(g := None)"
  by (auto simp: cache_pairs_def fun_eq_iff)

lemma ordered_spec:
  assumes "cache_inv y"
  shows "fst (Dispatcher_ordered y g) = group_view (sys_reg y) g"
    and "cache_inv (snd (Dispatcher_ordered y g))" and "sys_reg (snd (Dispatcher_ordered y g)) = sys_reg y"
proof -
  let ?fill = "\<lambda>c. c(g \<mapsto> \<lparr>we_version = Registry_Version (sys_reg y) g, we_tasks = group_view (sys_reg y) g\<rparr>)"
  have coh: "gv.coherent (sys_reg y) (cache_pairs (sys_cache y))" using assms by (simp add: cache_inv_def)
  then have fill: "gv.coherent (sys_reg y) (cache_pairs (?fill (sys_cache y)))"
    "gv.coherent (sys_reg y) (cache_pairs (?fill ((sys_cache y)(g := None))))"
    by (simp_all add: cache_pairs_upd gv.coherent_fill del: fun_upd_upd)
  have hit: "we_tasks e = group_view (sys_reg y) g"
    if "sys_cache y g = Some e" "we_version e = Registry_Version (sys_reg y) g" for e
    using gv.coherent_hit [OF coh, of g "we_tasks e"] that by (simp add: cache_pairs_def)
  show "fst (Dispatcher_ordered y g) = group_view (sys_reg y) g"
    using hit by (simp add: Dispatcher_ordered_def Let_def group_view_def dropGroup_def split: option.split)
  show "cache_inv (snd (Dispatcher_ordered y g))"
    using assms fill by (simp add: cache_inv_def Dispatcher_ordered_def Let_def group_view_def dropGroup_def
        split: option.split)
  show "sys_reg (snd (Dispatcher_ordered y g)) = sys_reg y"
    by (simp add: Dispatcher_ordered_def Let_def dropGroup_def split: option.split)
qed

lemma view_run_inv: "cache_inv y \<Longrightarrow> view_ok y cs \<Longrightarrow> cache_inv (foldl view_step y cs)"
proof (induction cs arbitrary: y)
  case (Cons c cs)
  have "cache_inv (view_step y c)"
  proof (cases c)
    case (ViewReg rc)
    then show ?thesis
      using Cons.prems gv.step_inv [of "sys_reg y" rc] gv.coherent_step [of "sys_reg y" rc]
      by (simp add: cache_inv_def)
  next
    case (ViewOrdered g)
    then show ?thesis using Cons.prems(1) by (simp add: ordered_spec(2))
  qed
  with Cons show ?case by simp
qed simp

section \<open>Properties\<close>

text \<open>
  C20: a cached group view is never stale.  On a new registry and an empty cache, after any registry
  calls interleaved with any reads, a read of a group returns the group's live tasks in registration
  order, as the registry has them now, if these are in due order, and reports a batch out of order
  if they are not, whether it was served from the cache or not; provided no id is registered again
  under another group and no version reaches its 64-bit end.
\<close>

theorem cached_view_is_fresh:
  assumes "sys_reg y0 = Registry_New" and "sys_cache y0 = Map.empty" and "view_ok y0 calls"
    and "y = foldl view_step y0 calls"
  shows "fst (Dispatcher_ordered y g) =
      (if due_ordered (live_tasks (sys_reg y) g) then Some (live_tasks (sys_reg y) g) else None)
    \<and> fst (Dispatcher_ordered (snd (Dispatcher_ordered y g)) g) = fst (Dispatcher_ordered y g)
    \<and> sys_hits (snd (Dispatcher_ordered (snd (Dispatcher_ordered y g)) g)) =
        sys_hits (snd (Dispatcher_ordered y g)) + 1"
proof -
  have "cache_inv y0"
    using assms(1,2) by (simp add: cache_inv_def groups_pure_new cache_pairs_def gv.coherent_def)
  then have y: "cache_inv y" using view_run_inv assms(3,4) by simp
  let ?z = "snd (Dispatcher_ordered y g)"
  have "\<exists>e. sys_cache ?z g = Some e \<and> we_version e = Registry_Version (sys_reg ?z) g"
    by (simp add: Dispatcher_ordered_def Let_def dropGroup_def split: option.split)
  then have "sys_hits (snd (Dispatcher_ordered ?z g)) = sys_hits ?z + 1"
    by (auto simp: Dispatcher_ordered_def [of ?z])
  then show ?thesis
    using ordered_spec [OF y] ordered_spec(1) [of ?z g] by (simp add: group_view_live)
qed

theorem cached_view_is_fresh_witness:
  "map_option (map task_ID) (fst (Dispatcher_ordered (foldl view_step sample_system
      [ViewReg (CallRegister (sample_task ''a'' 5)), ViewOrdered ''batch'',
       ViewReg (CallRegister (sample_task ''c'' 8)), ViewReg (CallSetState ''a'' TaskRemoved)]) ''batch''))
   = Some [''c'']"
  (is "map_option _ (fst (Dispatcher_ordered (foldl view_step ?y ?calls) _)) = _")
proof -
  have empty: "sys_reg ?y = Registry_New" "sys_cache ?y = Map.empty" by (simp_all add: sample_system_def)
  have new: "Registry_Version Registry_New g = 0" "Registry_Get Registry_New i = None" for g i
    by (simp_all add: Registry_New_def Registry_Version_def Registry_Get_def counter_at_def)
  have small: "(0 :: uint64) < - 1" "(1 :: uint64) < - 1" "(2 :: uint64) < - 1" by code_simp+
  have reg: "sys_reg (snd (Dispatcher_ordered z g)) = sys_reg z" for z g
    by (simp add: Dispatcher_ordered_def Let_def dropGroup_def split: option.split)
  have "view_ok ?y ?calls"
    by (simp add: registry_ok_def new small reg empty sample_task_def NewTask_def)
  from cached_view_is_fresh [OF empty this refl, of "''batch''"]
  have fresh: "fst (Dispatcher_ordered (foldl view_step ?y ?calls) ''batch'') =
      (if due_ordered (live_tasks (sys_reg (foldl view_step ?y ?calls)) ''batch'')
       then Some (live_tasks (sys_reg (foldl view_step ?y ?calls)) ''batch'') else None)"
    by blast
  have "map task_ID (live_tasks (sys_reg (foldl view_step ?y ?calls)) ''batch'') = [''c'']"
    "due_ordered (live_tasks (sys_reg (foldl view_step ?y ?calls)) ''batch'')"
    by code_simp+
  then show ?thesis by (simp only: fresh if_True option.map)
qed

end
