(* ===== verification/Batch.thy ===== *)
theory Batch
  imports Group_Views
begin

text \<open>
  The batch dispatch of \<open>internal/dispatch/dispatch.go\<close> (\<open>Dispatch\<close>, \<open>dispatchBatch\<close>): equivalent to
  one hand-off after the other of the live tasks of a group, with the failures aggregated.
\<close>

section \<open>The hand-offs of a batch and their results\<close>

fun handoff_results ::
  "(rat \<Rightarrow> rat) \<Rightarrow> (nat \<Rightarrow> handoff_env) \<Rightarrow> executor_id \<Rightarrow> nat \<Rightarrow> task list \<Rightarrow> system \<Rightarrow> go_error option list \<times> system" where
  "handoff_results fl envs exec i [] y = ([], y)"
| "handoff_results fl envs exec i (t # ts) y =
     (let (e, z) = dispatchOne fl (envs i) None exec t y; (es, z') = handoff_results fl envs exec (i + 1) ts z
      in (e # es, z'))"

definition failures :: "go_error option list \<Rightarrow> go_error list" where
  "failures es = List.map_filter id es"

lemma failures_simps [simp]:
  "failures [] = []" "failures (None # es) = failures es" "failures (Some e # es) = e # failures es"
  by (simp_all add: failures_def List.map_filter_simps)

text \<open>The error of a batch: how many hand-offs failed, and the first failure.\<close>

definition batch_error :: "go_error list \<Rightarrow> go_error option" where
  "batch_error es = (case es of [] \<Rightarrow> None | e # _ \<Rightarrow> Some (DispatchError (int (length es)) e))"

lemma dispatched_grow:
  "s_dispatched (sys_store y) \<subseteq> s_dispatched (sys_store (snd (dispatchOne fl env None exec t y)))"
  "fst (dispatchOne fl env None exec t y) = None \<Longrightarrow>
     task_Sequence t \<in> s_dispatched (sys_store (snd (dispatchOne fl env None exec t y)))"
  by (auto simp: dispatchOne_def markDispatched_def Store_MarkDispatched_def Store_Commit_def Let_def
      split: prod.splits option.splits if_splits)

lemma mark_again:
  "set qs \<subseteq> s_dispatched s \<Longrightarrow> Store_MarkDispatchedBatch s qs True = s"
proof (induction qs)
  case (Cons q qs)
  then have "s\<lparr>s_dispatched := insert q (s_dispatched s)\<rparr> = s" by (simp add: insert_absorb)
  with Cons show ?case by simp
qed simp

lemma batch_loop:
  assumes "\<forall>t \<in> set ts. task_DueAt t \<noteq> zero_time" and "set marked \<subseteq> s_dispatched (sys_store y)"
    and "failed = int (length es)" and "first = (case es of [] \<Rightarrow> None | e # _ \<Rightarrow> Some e)"
  shows "dispatchBatch_loop fl envs None exec i first failed marked ts y =
    (let (rs, z) = handoff_results fl envs exec i ts y in (batch_error (es @ failures rs), z))"
  using assms
proof (induction ts arbitrary: i first failed marked es y)
  case Nil
  have "y\<lparr>sys_store := sys_store y\<rparr> = y" by simp
  with Nil show ?case by (cases es) (simp_all add: mark_again batch_error_def)
next
  case (Cons t ts)
  obtain e z where d: "dispatchOne fl (envs i) None exec t y = (e, z)" by fastforce
  have due: "task_DueAt t \<noteq> zero_time" "\<forall>t \<in> set ts. task_DueAt t \<noteq> zero_time" using Cons.prems(1) by simp_all
  have grow: "set marked \<subseteq> s_dispatched (sys_store z)"
    using Cons.prems(2) dispatched_grow(1) [of y fl "envs i" exec t] d by auto
  show ?case
  proof (cases e)
    case None
    then have "set (marked @ [task_Sequence t]) \<subseteq> s_dispatched (sys_store z)"
      using grow dispatched_grow(2) [of fl "envs i" exec t y] d by simp
    from Cons.IH [OF due(2) this Cons.prems(3,4), of "i + 1"] show ?thesis
      using None due(1) by (simp add: d Let_def case_prod_beta)
  next
    case (Some err)
    have "failed + 1 = int (length (es @ [err]))" using Cons.prems(3) by simp
    moreover have "(if first = None then Some err else first) =
        (case es @ [err] of [] \<Rightarrow> None | e # _ \<Rightarrow> Some e)" using Cons.prems(4) by (cases es) simp_all
    ultimately show ?thesis
      using Cons.IH [OF due(2) grow, of "failed + 1" "es @ [err]" _ "i + 1"] Some due(1)
      by (simp add: d Let_def case_prod_beta)
  qed
qed

lemma marks_of_results:
  "(es, z) = handoff_results fl envs exec i ts y \<Longrightarrow>
   length es = length ts \<and> s_dispatched (sys_store y) \<subseteq> s_dispatched (sys_store z) \<and>
   (\<forall>k < length ts. es ! k = None \<longrightarrow> Store_Dispatched (sys_store z) (task_Sequence (ts ! k)))"
proof (induction ts arbitrary: i es y)
  case (Cons t ts)
  obtain e w where d: "dispatchOne fl (envs i) None exec t y = (e, w)" by fastforce
  obtain es' where es: "es = e # es'" "(es', z) = handoff_results fl envs exec (i + 1) ts w"
    using Cons.prems by (auto simp: d split: prod.splits)
  note IH = Cons.IH [OF es(2)]
  have "s_dispatched (sys_store y) \<subseteq> s_dispatched (sys_store z)"
    using IH dispatched_grow(1) [of y fl "envs i" exec t] d by auto
  moreover have "e = None \<Longrightarrow> task_Sequence t \<in> s_dispatched (sys_store z)"
    using IH dispatched_grow(2) [of fl "envs i" exec t y] d by auto
  ultimately show ?case
    using IH by (auto simp: es(1) Store_Dispatched_def nth_Cons split: nat.split)
qed simp

section \<open>Properties\<close>

text \<open>
  C12: a batch dispatch is the hand-offs of a group.  Whatever tasks are passed, after any registry
  calls and reads, the call is equivalent to handing off, one after the other and to the first
  executor, the live tasks the registry has in the group of the first of them, provided these are
  in due order and each has a due time; if they are out of order nothing is handed off and the call
  says so.  Its error is none if no hand-off failed, else the number of failures with the first as
  its cause; every task whose hand-off succeeded is marked, so that marking the batch again at the
  end has no effect.
\<close>

theorem batch_is_handoffs:
  assumes "sys_reg y0 = Registry_New" and "sys_cache y0 = Map.empty" and "view_ok y0 calls"
    and "y = foldl view_step y0 calls"
    and "Lease_Executors (sys_leases y) ks = exec # es" and "live = live_tasks (sys_reg y) (task_Group t)"
    and "\<forall>u \<in> set live. task_DueAt u \<noteq> zero_time"
    and "(results, z) = handoff_results fl envs exec 0 live (snd (Dispatcher_ordered y (task_Group t)))"
  shows "Dispatcher_Dispatch fl envs None ks (t # rest) y =
      (if due_ordered live then (batch_error (failures results), z)
       else (Some ErrOutOfOrder, snd (Dispatcher_ordered y (task_Group t))))
    \<and> length results = length live
    \<and> (\<forall>k < length live. results ! k = None \<longrightarrow> Store_Dispatched (sys_store z) (task_Sequence (live ! k)))"
proof -
  have "cache_inv y0"
    using assms(1,2) by (simp add: cache_inv_def groups_pure_new cache_pairs_def gv.coherent_def)
  then have y: "cache_inv y" using view_run_inv assms(3,4) by simp
  define w where "w = snd (Dispatcher_ordered y (task_Group t))"
  have view: "Dispatcher_ordered y (task_Group t) = (if due_ordered live then Some live else None, w)"
    using ordered_spec(1) [OF y, of "task_Group t"] assms(6) by (simp add: prod_eq_iff group_view_live w_def)
  have leases: "sys_leases w = sys_leases y"
    by (simp add: w_def Dispatcher_ordered_def Let_def dropGroup_def split: option.split)
  have loop: "dispatchBatch fl envs None exec live w = (batch_error (failures results), z)"
    using batch_loop [OF assms(7), of "[]" w 0 "[]" None fl envs exec 0] assms(8)[folded w_def]
    by (simp add: dispatchBatch_def split: prod.splits)
  have "Dispatcher_Dispatch fl envs None ks (t # rest) y =
      (if due_ordered live then (batch_error (failures results), z) else (Some ErrOutOfOrder, w))"
    by (simp add: Dispatcher_Dispatch_def view leases assms(5) loop)
  then show ?thesis using marks_of_results [OF assms(8)] unfolding w_def by blast
qed

text \<open>A registry of three tasks in due order, for a runner with room for two.\<close>

definition sample_calls :: "view_call list" where
  "sample_calls = map (\<lambda>(i, due, seq). ViewReg (CallRegister ((sample_task i due)\<lparr>task_Sequence := seq\<rparr>)))
     [(''a'', 5, 2), (''c'', 8, 3), (''b'', 12, 1)]"

theorem batch_is_handoffs_witness:
  "fst (Dispatcher_Dispatch id (\<lambda>n. sample_env) None [''w''] [sample_task ''x'' 1]
      (foldl view_step (sample_leased\<lparr>sys_reg := Registry_New\<rparr>) sample_calls))
   = Some (DispatchError 1 RunnerErrFull)"
proof -
  let ?y0 = "sample_leased\<lparr>sys_reg := Registry_New\<rparr>" and ?t = "sample_task ''x'' 1"
  define y where "y = foldl view_step ?y0 sample_calls"
  define live where "live = live_tasks (sys_reg y) (task_Group ?t)"
  obtain results z where r:
    "(results, z) = handoff_results id (\<lambda>n. sample_env) ''w'' 0 live (snd (Dispatcher_ordered y (task_Group ?t)))"
    by (metis prod.exhaust)
  have new: "Registry_Version Registry_New g = 0" "Registry_Get Registry_New i = None" for g i
    by (simp_all add: Registry_New_def Registry_Version_def Registry_Get_def counter_at_def)
  have small: "(0 :: uint64) < - 1" "(1 :: uint64) < - 1" "(2 :: uint64) < - 1" by code_simp+
  have empty: "sys_cache ?y0 = Map.empty" by (simp add: sample_leased_def sample_queued_def) (simp add: sample_system_def)
  have ok: "view_ok ?y0 sample_calls"
    by (simp add: sample_calls_def registry_ok_def new small sample_task_def NewTask_def)
  have e: "Lease_Executors (sys_leases y) [''w''] = [''w'']" unfolding y_def by code_simp
  have due: "due_ordered live" "\<forall>u \<in> set live. task_DueAt u \<noteq> zero_time" unfolding live_def y_def by code_simp+
  have "fst (handoff_results id (\<lambda>n. sample_env) ''w'' 0 live (snd (Dispatcher_ordered y (task_Group ?t))))
      = [None, None, Some RunnerErrFull]"
    unfolding live_def y_def by code_simp
  then have "results = [None, None, Some RunnerErrFull]" using r by (metis fst_conv)
  moreover have "Dispatcher_Dispatch id (\<lambda>n. sample_env) None [''w''] (?t # []) y = (batch_error (failures results), z)"
    using batch_is_handoffs [OF _ empty ok y_def e live_def due(2) r, of "[]"] due(1) by simp
  ultimately show ?thesis unfolding y_def by (simp add: batch_error_def)
qed

end
