(* ===== verification/Heartbeat.thy ===== *)
theory Heartbeat
  imports Broker
begin

text \<open>
  The heartbeat and the evictor of \<open>internal/heartbeat\<close>.  The instant of a sweep, the instant each
  renewal reads from the clock, the orders in which the lease table is visited, and what a runner's
  worker does while it is shut down are arguments; the log lines are left out.
\<close>

section \<open>Evicting and sweeping\<close>

definition Evictor_Evict :: "(runner \<Rightarrow> runner) \<Rightarrow> system \<Rightarrow> executor_id \<Rightarrow> system" where
  "Evictor_Evict drain y exec =
     (case Lease_Evict (sys_leases y) exec of
        (False, m) \<Rightarrow> y\<lparr>sys_leases := m\<rparr>
      | (True, m) \<Rightarrow>
          let y = y\<lparr>sys_leases := m\<rparr>;
              execs = (case Manager_Get (sys_execs y) exec of
                         Some r \<Rightarrow> Manager_Put (sys_execs y) exec (Shutdown drain r)
                       | None \<Rightarrow> sys_execs y)
          in y\<lparr>sys_execs := Manager_Remove execs exec, sys_metrics := Evicted (sys_metrics y)\<rparr>)"

definition Heartbeat_expired :: "system \<Rightarrow> executor_id \<Rightarrow> time \<Rightarrow> bool" where
  "Heartbeat_expired y exec now = Lease_Expired (sys_leases y) exec now"

definition Heartbeat_Renew :: "system \<Rightarrow> executor_id \<Rightarrow> time \<Rightarrow> bool \<times> system" where
  "Heartbeat_Renew y exec clock_now =
     (let (ok, m) = Lease_Renew (sys_leases y) exec clock_now in (ok, y\<lparr>sys_leases := m\<rparr>))"

fun renew_loop :: "time \<Rightarrow> (executor_id \<Rightarrow> time) \<Rightarrow> executor_id list \<Rightarrow> system \<Rightarrow> system" where
  "renew_loop now clock [] y = y"
| "renew_loop now clock (e # es) y =
     (if Heartbeat_expired y e now then renew_loop now clock es y
      else renew_loop now clock es (snd (Heartbeat_Renew y e (clock e))))"

definition Heartbeat_sweep ::
  "(runner \<Rightarrow> runner) \<Rightarrow> time \<Rightarrow> (executor_id \<Rightarrow> time) \<Rightarrow> executor_id list \<Rightarrow> executor_id list \<Rightarrow> system \<Rightarrow> system" where
  "Heartbeat_sweep drain now clock ks ks' y =
     (let y = foldl (Evictor_Evict drain) y (Lease_ExpiredLeases (sys_leases y) now ks)
      in renew_loop now clock (Lease_Executors (sys_leases y) ks') y)"

text \<open>
  \<open>Run\<close> as a function of what its \<open>select\<close> receives: ticks, each with the arguments of its sweep, and
  the cancellation, which ends it.  The result says whether it has returned.
\<close>

type_synonym sweep = "(runner \<Rightarrow> runner) \<times> time \<times> (executor_id \<Rightarrow> time) \<times> executor_id list \<times> executor_id list"

datatype heart_event = HeartTick sweep | HeartDone

fun Heartbeat_Run :: "heart_event list \<Rightarrow> system \<Rightarrow> bool \<times> system" where
  "Heartbeat_Run [] y = (False, y)"
| "Heartbeat_Run (HeartDone # evs) y = (True, y)"
| "Heartbeat_Run (HeartTick (drain, now, clock, ks, ks') # evs) y =
     Heartbeat_Run evs (Heartbeat_sweep drain now clock ks ks' y)"

section \<open>What an eviction and a sweep change\<close>

lemma Evict_leases: "sys_leases (Evictor_Evict drain y e) = snd (Lease_Evict (sys_leases y) e)"
  by (simp add: Evictor_Evict_def Let_def split: prod.split bool.split)

lemma Evict_execs:
  "Manager_Get (sys_execs (Evictor_Evict drain y e)) e' =
     (if e' = e \<and> Lease_Lease (sys_leases y) e \<noteq> None then None else Manager_Get (sys_execs y) e')"
proof (cases "Lease_Evict (sys_leases y) e")
  case (Pair hit m)
  have "hit \<longleftrightarrow> Lease_Lease (sys_leases y) e \<noteq> None"
    using lt.evict_hit [of "sys_leases y" e] Pair by simp
  then show ?thesis
    by (cases hit) (simp_all add: Evictor_Evict_def Pair Let_def split: option.split)
qed

lemma Evict_metric:
  "sys_metrics (Evictor_Evict drain y e) =
     (if Lease_Lease (sys_leases y) e \<noteq> None then Evicted (sys_metrics y) else sys_metrics y)"
proof (cases "Lease_Evict (sys_leases y) e")
  case (Pair hit m)
  have "hit \<longleftrightarrow> Lease_Lease (sys_leases y) e \<noteq> None"
    using lt.evict_hit [of "sys_leases y" e] Pair by simp
  then show ?thesis by (cases hit) (simp_all add: Evictor_Evict_def Pair Let_def)
qed

lemma evict_fold_leases:
  "sys_leases (foldl (Evictor_Evict drain) y es) = lt.evict_all (sys_leases y) es"
  by (induction es arbitrary: y) (simp_all add: Evict_leases)

lemma evict_fold_execs:
  "Manager_Get (sys_execs (foldl (Evictor_Evict drain) y es)) e =
     (if e \<in> set es \<and> Lease_Lease (sys_leases y) e \<noteq> None then None else Manager_Get (sys_execs y) e)"
  by (induction es arbitrary: y) (auto simp: Evict_execs Evict_leases Evict_of)

lemma evict_fold_metric:
  "\<forall>e \<in> set es. Lease_Lease (sys_leases y) e \<noteq> None \<Longrightarrow>
   m_evicted (sys_metrics (foldl (Evictor_Evict drain) y es)) = m_evicted (sys_metrics y) + of_nat (length es)"
proof (induction es arbitrary: y)
  case (Cons e es)
  have "\<forall>e' \<in> set es. Lease_Lease (sys_leases (Evictor_Evict drain y e)) e' \<noteq> None"
    using Cons.prems by (auto simp: Evict_leases Evict_of)
  from Cons.IH [OF this] show ?case
    using Cons.prems by (simp add: Evict_metric Evicted_def Inc_def add.assoc)
qed simp

lemma renew_loop_frames [simp, frame]:
  "sys_execs (renew_loop now clock es y) = sys_execs y"
  "sys_metrics (renew_loop now clock es y) = sys_metrics y"
  "sys_store (renew_loop now clock es y) = sys_store y"
  "sys_queue (renew_loop now clock es y) = sys_queue y"
  "sys_reg (renew_loop now clock es y) = sys_reg y"
  "sys_deps (renew_loop now clock es y) = sys_deps y"
  "sys_flow (renew_loop now clock es y) = sys_flow y"
  "sys_progress (renew_loop now clock es y) = sys_progress y"
  by (induction es arbitrary: y) (simp_all add: Heartbeat_Renew_def split: prod.split)

lemma lapsed_evict: "lease_lapsed (evict_lease l) now"
  by (simp add: lease_lapsed_def evict_lease_def)

lemma Expired_lapsed:
  "Lease_Expired m e now \<longleftrightarrow> (case Lease_Lease m e of None \<Rightarrow> True | Some l \<Rightarrow> lease_lapsed l now)"
  by (simp add: Lease_Expired_def Lease_Lease_def)

lemma renew_loop_of:
  "distinct es \<Longrightarrow>
   lm_timeout (sys_leases (renew_loop now clock es y)) = lm_timeout (sys_leases y) \<and>
   Lease_Lease (sys_leases (renew_loop now clock es y)) e =
     (if e \<in> set es \<and> \<not> Lease_Expired (sys_leases y) e now
      then map_option (renew_lease (clock e + lm_timeout (sys_leases y))) (Lease_Lease (sys_leases y) e)
      else Lease_Lease (sys_leases y) e)"
proof (induction es arbitrary: y)
  case (Cons a es)
  let ?y = "if Heartbeat_expired y a now then y else snd (Heartbeat_Renew y a (clock a))"
  have y: "renew_loop now clock (a # es) y = renew_loop now clock es ?y" by simp
  have l: "sys_leases ?y = (if Lease_Expired (sys_leases y) a now then sys_leases y
      else snd (Lease_Renew (sys_leases y) a (clock a)))"
    by (simp add: Heartbeat_expired_def Heartbeat_Renew_def split: prod.split)
  have t: "lm_timeout (sys_leases ?y) = lm_timeout (sys_leases y)"
    by (simp add: l lt.renew_timeout)
  have le: "Lease_Lease (sys_leases ?y) e' =
      (if e' = a \<and> \<not> Lease_Expired (sys_leases y) a now
       then map_option (renew_lease (clock a + lm_timeout (sys_leases y))) (Lease_Lease (sys_leases y) a)
       else Lease_Lease (sys_leases y) e')" for e'
    by (simp add: l lt.renew_of)
  have ex: "e \<noteq> a \<Longrightarrow> Lease_Expired (sys_leases ?y) e now = Lease_Expired (sys_leases y) e now"
    by (simp add: Expired_lapsed le)
  have "distinct es" "a \<notin> set es" using Cons.prems by simp_all
  with Cons.IH [of ?y] show ?case
    unfolding y t by (cases "e = a") (auto simp: le ex)
qed simp

lemma sweep_leases:
  assumes "lease_inv (sys_leases y)" and "range_order (lm_leases (sys_leases y)) ks"
    and "z = foldl (Evictor_Evict drain) y (Lease_ExpiredLeases (sys_leases y) now ks)"
    and "range_order (lm_leases (sys_leases z)) ks'"
  shows "Lease_Lease (sys_leases (Heartbeat_sweep drain now clock ks ks' y)) e =
      map_option (\<lambda>l. if lease_lapsed l now then evict_lease l
        else renew_lease (clock e + lm_timeout (sys_leases y)) l) (Lease_Lease (sys_leases y) e)"
    and "lm_timeout (sys_leases (Heartbeat_sweep drain now clock ks ks' y)) = lm_timeout (sys_leases y)"
proof -
  let ?ex = "Lease_ExpiredLeases (sys_leases y) now ks"
  have ex: "set ?ex = {e. \<exists>l. Lease_Lease (sys_leases y) e = Some l \<and> lease_lapsed l now}"
    using assms(2) by (rule ExpiredLeases_set)
  have z: "sys_leases z = lt.evict_all (sys_leases y) ?ex" using assms(3) by (simp add: evict_fold_leases)
  have inv: "lease_inv (sys_leases z)" using z evict_all_inv [OF assms(1)] by simp
  have le: "Lease_Lease (sys_leases z) e' = map_option (\<lambda>l. if lease_lapsed l now then evict_lease l else l)
      (Lease_Lease (sys_leases y) e')" for e'
    by (cases "Lease_Lease (sys_leases y) e'") (auto simp: z lt.evict_all_of ex)
  have t: "lm_timeout (sys_leases z) = lm_timeout (sys_leases y)" by (simp add: z lt.evict_all_timeout)
  have d: "distinct (Lease_Executors (sys_leases z) ks')"
    using range_order_distinct [OF _ assms(4)] inv by (simp add: Lease_Executors_def fst_grange lease_inv_def)
  have mem: "e \<in> set (Lease_Executors (sys_leases z) ks') \<longleftrightarrow> Lease_Lease (sys_leases z) e \<noteq> None"
    using Executors_set [OF assms(4)] by simp
  have sweep: "Heartbeat_sweep drain now clock ks ks' y = renew_loop now clock (Lease_Executors (sys_leases z) ks') z"
    by (simp add: Heartbeat_sweep_def Let_def assms(3))
  note loop = renew_loop_of [OF d, of now clock z e, folded sweep]
  show "lm_timeout (sys_leases (Heartbeat_sweep drain now clock ks ks' y)) = lm_timeout (sys_leases y)"
    using loop t by simp
  show "Lease_Lease (sys_leases (Heartbeat_sweep drain now clock ks ks' y)) e =
      map_option (\<lambda>l. if lease_lapsed l now then evict_lease l
        else renew_lease (clock e + lm_timeout (sys_leases y)) l) (Lease_Lease (sys_leases y) e)"
    by (cases "Lease_Lease (sys_leases y) e")
      (auto simp: loop mem t Expired_lapsed le lapsed_evict)
qed

lemma sweep_execs:
  assumes "range_order (lm_leases (sys_leases y)) ks"
  shows "Manager_Get (sys_execs (Heartbeat_sweep drain now clock ks ks' y)) e =
      (case Lease_Lease (sys_leases y) e of
         Some l \<Rightarrow> if lease_lapsed l now then None else Manager_Get (sys_execs y) e
       | None \<Rightarrow> Manager_Get (sys_execs y) e)"
  using ExpiredLeases_set [OF assms, of now]
  by (auto simp: Heartbeat_sweep_def Let_def evict_fold_execs split: option.split)

lemma sweep_metric:
  assumes "range_order (lm_leases (sys_leases y)) ks"
  shows "m_evicted (sys_metrics (Heartbeat_sweep drain now clock ks ks' y)) =
      m_evicted (sys_metrics y) + of_nat (length (Lease_ExpiredLeases (sys_leases y) now ks))"
proof -
  have "\<forall>e \<in> set (Lease_ExpiredLeases (sys_leases y) now ks). Lease_Lease (sys_leases y) e \<noteq> None"
    using ExpiredLeases_set [OF assms, of now] by auto
  from evict_fold_metric [OF this, of drain] show ?thesis by (simp add: Heartbeat_sweep_def Let_def)
qed

section \<open>Properties\<close>

text \<open>
  C33: what a sweep does to every lease.  Whatever order the table is visited in, a lease that has
  lapsed (its expiry passed, or evicted before) is evicted and the executor's runner is gone; every
  other lease is renewed by the sweep itself, from the clock at that instant, and its runner stays;
  and the counter of evictions goes up by the number of lapsed leases, those evicted long before
  included.
\<close>

theorem sweep_evicts_or_renews:
  assumes "lease_inv (sys_leases y)" and "range_order (lm_leases (sys_leases y)) ks"
    and "range_order (lm_leases (sys_leases
          (foldl (Evictor_Evict drain) y (Lease_ExpiredLeases (sys_leases y) now ks)))) ks'"
    and "z = Heartbeat_sweep drain now clock ks ks' y"
  shows "(\<forall>e l. Lease_Lease (sys_leases y) e = Some l \<longrightarrow>
        (if lease_State l = LeaseEvicted \<or> now > lease_Expires l
         then Lease_Lease (sys_leases z) e = Some (l\<lparr>lease_State := LeaseEvicted, lease_Expires := zero_time\<rparr>)
           \<and> Manager_Get (sys_execs z) e = None
         else Lease_Lease (sys_leases z) e =
             Some (l\<lparr>lease_State := LeaseLeased, lease_Expires := clock e + lm_timeout (sys_leases y)\<rparr>)
           \<and> Manager_Get (sys_execs z) e = Manager_Get (sys_execs y) e))
    \<and> (\<forall>e. Lease_Lease (sys_leases y) e = None \<longrightarrow> Lease_Lease (sys_leases z) e = None)
    \<and> m_evicted (sys_metrics z) =
        m_evicted (sys_metrics y) + of_nat (length (Lease_ExpiredLeases (sys_leases y) now ks))"
proof -
  note leases = sweep_leases(1) [OF assms(1,2) refl assms(3), folded assms(4)]
  have ok: "lease_State l = LeaseLeased \<or> lease_State l = LeaseEvicted" if "Lease_Lease (sys_leases y) e = Some l" for e l
    using assms(1) that by (auto simp: lease_inv_def lease_ok_def)
  have "if lease_State l = LeaseEvicted \<or> now > lease_Expires l
         then Lease_Lease (sys_leases z) e = Some (l\<lparr>lease_State := LeaseEvicted, lease_Expires := zero_time\<rparr>)
           \<and> Manager_Get (sys_execs z) e = None
         else Lease_Lease (sys_leases z) e =
             Some (l\<lparr>lease_State := LeaseLeased, lease_Expires := clock e + lm_timeout (sys_leases y)\<rparr>)
           \<and> Manager_Get (sys_execs z) e = Manager_Get (sys_execs y) e"
    if l: "Lease_Lease (sys_leases y) e = Some l" for e l
    using ok [OF l] l sweep_execs [OF assms(2), of drain now clock ks' e]
    by (auto simp: leases assms(4) lease_lapsed_def evict_lease_def renew_lease_def)
  moreover have "m_evicted (sys_metrics z) =
      m_evicted (sys_metrics y) + of_nat (length (Lease_ExpiredLeases (sys_leases y) now ks))"
    using sweep_metric [OF assms(2)] by (simp add: assms(4))
  moreover have "\<forall>e. Lease_Lease (sys_leases y) e = None \<longrightarrow> Lease_Lease (sys_leases z) e = None"
    by (simp add: leases assms(4))
  ultimately show ?thesis by blast
qed

text \<open>Two executors that register at the instants 1 and 4, with a timeout of 5.\<close>

definition sample_pair :: system where
  "sample_pair = sample_system\<lparr>
     sys_leases := snd (Lease_Acquire (snd (Lease_Acquire (sys_leases sample_system) ''v'' 1)) ''w'' 4),
     sys_execs := snd (Manager_Add (snd (Manager_Add (sys_execs sample_system) ''v'')) ''w'')\<rparr>"

lemma sample_pair_inv: "lease_inv (sys_leases sample_pair)"
proof -
  have "lease_inv (foldl lease_step (Lease_New 5) [CallAcquire ''v'' 1, CallAcquire ''w'' 4])"
    by (rule lease_calls_new) (simp add: max_int64_def)
  then show ?thesis by (simp add: sample_pair_def sample_system_def)
qed

lemma sample_pair_leases:
  "\<exists>l. Lease_Lease (sys_leases sample_pair) ''v'' = Some l \<and> lease_State l = LeaseLeased \<and> lease_Expires l = 6"
  "\<exists>l. Lease_Lease (sys_leases sample_pair) ''w'' = Some l \<and> lease_Expires l = 9 \<and> lease_State l \<noteq> LeaseEvicted"
proof -
  have "lm_slotOf (Lease_New 5) e = None" "lm_timeout (Lease_New 5) = 5" for e by (simp_all add: Lease_New_def)
  then show "\<exists>l. Lease_Lease (sys_leases sample_pair) ''v'' = Some l \<and> lease_State l = LeaseLeased \<and> lease_Expires l = 6"
    "\<exists>l. Lease_Lease (sys_leases sample_pair) ''w'' = Some l \<and> lease_Expires l = 9 \<and> lease_State l \<noteq> LeaseEvicted"
    by (simp_all add: sample_pair_def sample_system_def Acquire_reads)
qed

theorem sweep_evicts_or_renews_witness:
  "let z = Heartbeat_sweep id 7 (\<lambda>e. 8) [''w'', ''v''] [''v'', ''w''] sample_pair
   in map_option lease_State (Lease_Lease (sys_leases z) ''v'') = Some LeaseEvicted
    \<and> map_option lease_Expires (Lease_Lease (sys_leases z) ''w'') = Some 13
    \<and> m_evicted (sys_metrics z) = 1"
proof -
  have o: "range_order (lm_leases (sys_leases sample_pair)) [''w'', ''v'']"
    "range_order (lm_leases (sys_leases (foldl (Evictor_Evict id) sample_pair
       (Lease_ExpiredLeases (sys_leases sample_pair) 7 [''w'', ''v''])))) [''v'', ''w'']"
    by code_simp+
  define z where "z = Heartbeat_sweep id 7 (\<lambda>e. 8) [''w'', ''v''] [''v'', ''w''] sample_pair"
  note sweep = sweep_evicts_or_renews [OF sample_pair_inv o z_def]
  have d: "lm_timeout (sys_leases sample_pair) = 5" "m_evicted (sys_metrics sample_pair) = 0"
    "length (Lease_ExpiredLeases (sys_leases sample_pair) 7 [''w'', ''v'']) = 1"
    by code_simp+
  obtain v w where "Lease_Lease (sys_leases sample_pair) ''v'' = Some v" "lease_Expires v = 6"
    "Lease_Lease (sys_leases sample_pair) ''w'' = Some w" "lease_Expires w = 9" "lease_State w \<noteq> LeaseEvicted"
    using sample_pair_leases by blast
  then have "map_option lease_State (Lease_Lease (sys_leases z) ''v'') = Some LeaseEvicted"
    "map_option lease_Expires (Lease_Lease (sys_leases z) ''w'') = Some 13"
    using sweep by (simp_all add: d)
  moreover have "m_evicted (sys_metrics z) = 1" using sweep by (simp add: d)
  ultimately show ?thesis by (simp add: z_def Let_def)
qed

text \<open>Sweeps one after the other, each with its instant, clock, visiting orders and worker.\<close>

fun sweep_step :: "system \<Rightarrow> sweep \<Rightarrow> system" where
  "sweep_step y (drain, now, clock, ks, ks') = Heartbeat_sweep drain now clock ks ks' y"

lemma Run_sweeps:
  "Heartbeat_Run (map HeartTick sweeps @ later) y = Heartbeat_Run later (foldl sweep_step y sweeps)"
  by (induction sweeps arbitrary: y) auto

text \<open>
  The orders are orders of the table, the clock is not behind the instant of the sweep, and each
  sweep starts within the timeout after the instant of the one before (\<open>prev\<close> for the first).
\<close>

fun sweeps_regular :: "time \<Rightarrow> system \<Rightarrow> sweep list \<Rightarrow> bool" where
  "sweeps_regular prev y [] \<longleftrightarrow> True"
| "sweeps_regular prev y ((drain, now, clock, ks, ks') # sweeps) \<longleftrightarrow>
     now \<le> prev + lm_timeout (sys_leases y) \<and> (\<forall>e. now \<le> clock e) \<and>
     range_order (lm_leases (sys_leases y)) ks \<and>
     range_order (lm_leases (sys_leases
       (foldl (Evictor_Evict drain) y (Lease_ExpiredLeases (sys_leases y) now ks)))) ks' \<and>
     sweeps_regular now (Heartbeat_sweep drain now clock ks ks' y) sweeps"

lemma Heartbeat_Renew_leases: "sys_leases (snd (Heartbeat_Renew y e t)) = snd (Lease_Renew (sys_leases y) e t)"
  by (simp add: Heartbeat_Renew_def split: prod.split)

lemma sweep_inv:
  assumes "lease_inv (sys_leases y)"
  shows "lease_inv (sys_leases (Heartbeat_sweep drain now clock ks ks' y))"
proof -
  have "lease_inv (sys_leases (renew_loop now clock es z))" if "lease_inv (sys_leases z)" for es z
    using that by (induction es arbitrary: z) (simp_all add: Heartbeat_Renew_leases Renew_inv)
  moreover have "lease_inv (sys_leases (foldl (Evictor_Evict drain) z es))" if "lease_inv (sys_leases z)" for es z
    using that by (induction es arbitrary: z) (simp_all add: Evict_leases Evict_inv)
  ultimately show ?thesis using assms by (simp add: Heartbeat_sweep_def Let_def)
qed

lemma sweeps_keep:
  assumes "lease_inv (sys_leases y)" and "sweeps_regular start y sweeps"
    and "Lease_Lease (sys_leases y) e = Some l" and "lease_State l = LeaseLeased"
    and "start + lm_timeout (sys_leases y) \<le> lease_Expires l"
    and "z = foldl sweep_step y sweeps"
  shows "(\<exists>l'. Lease_Lease (sys_leases z) e = Some l' \<and> lease_State l' = LeaseLeased \<and> lease_Slot l' = lease_Slot l)
    \<and> Manager_Get (sys_execs z) e = Manager_Get (sys_execs y) e"
  using assms
proof (induction sweeps arbitrary: y start l)
  case (Cons sw sweeps)
  obtain drain now clock ks ks' where sw: "sw = (drain, now, clock, ks, ks')" by (metis prod.exhaust)
  let ?y = "Heartbeat_sweep drain now clock ks ks' y"
  have reg: "now \<le> start + lm_timeout (sys_leases y)" "now \<le> clock e" "range_order (lm_leases (sys_leases y)) ks"
    "range_order (lm_leases (sys_leases
       (foldl (Evictor_Evict drain) y (Lease_ExpiredLeases (sys_leases y) now ks)))) ks'"
    "sweeps_regular now ?y sweeps"
    using Cons.prems(2) by (simp_all add: sw)
  have live: "\<not> lease_lapsed l now" using Cons.prems(4,5) reg(1) by (simp add: lease_lapsed_def)
  note le = sweep_leases [OF Cons.prems(1) reg(3) refl reg(4), of clock]
  let ?l = "l\<lparr>lease_State := LeaseLeased, lease_Expires := clock e + lm_timeout (sys_leases y)\<rparr>"
  have l: "Lease_Lease (sys_leases ?y) e = Some ?l"
    using le(1) [of e] Cons.prems(3,4) live by (simp add: renew_lease_def)
  have "Manager_Get (sys_execs ?y) e = Manager_Get (sys_execs y) e"
    using sweep_execs [OF reg(3), of drain now clock ks' e] Cons.prems(3) live by simp
  moreover have "now + lm_timeout (sys_leases ?y) \<le> lease_Expires ?l" using reg(2) le(2) by simp
  ultimately show ?case
    using Cons.IH [OF sweep_inv [OF Cons.prems(1)] reg(5) l] Cons.prems(6) by (simp add: sw)
qed simp

text \<open>
  C40: a lease never lapses while the sweeps come in time.  The sweep renews every lease it does not
  evict, so while \<open>Run\<close> receives ticks at most a timeout apart, until it is cancelled and returns,
  the lease of an executor that once held one stays leased and its runner stays in place, although
  none of the steps is a call of the executor: an executor that is gone is never evicted.
\<close>

theorem regular_sweeps_keep_all:
  assumes "lease_inv (sys_leases y)" and "sweeps_regular start y sweeps"
    and "Lease_Lease (sys_leases y) e = Some l" and "lease_State l = LeaseLeased"
    and "start + lm_timeout (sys_leases y) \<le> lease_Expires l"
    and "Heartbeat_Run (map HeartTick sweeps @ HeartDone # later) y = (stopped, z)"
  shows "stopped
    \<and> (\<exists>l'. Lease_Lease (sys_leases z) e = Some l' \<and> lease_State l' = LeaseLeased \<and> lease_Slot l' = lease_Slot l)
    \<and> Manager_Get (sys_execs z) e = Manager_Get (sys_execs y) e"
proof -
  have z: "stopped" "z = foldl sweep_step y sweeps" using assms(6) by (simp_all add: Run_sweeps)
  show ?thesis using sweeps_keep [OF assms(1-5) z(2)] z(1) by simp
qed

theorem regular_sweeps_keep_all_witness:
  "let z = snd (Heartbeat_Run (map HeartTick
         [(id, 6, \<lambda>e. 7, [''v'', ''w''], [''w'', ''v'']), (id, 11, \<lambda>e. 11, [''v'', ''w''], [''v'', ''w''])]
         @ [HeartDone]) sample_pair)
   in map_option lease_State (Lease_Lease (sys_leases z) ''v'') = Some LeaseLeased"
  (is "let z = snd (Heartbeat_Run (map _ ?sweeps @ _) _) in _")
proof -
  let ?y = "Heartbeat_sweep id 6 (\<lambda>e. 7) [''v'', ''w''] [''w'', ''v''] sample_pair"
  have "range_order (lm_leases (sys_leases sample_pair)) [''v'', ''w'']"
    "range_order (lm_leases (sys_leases (foldl (Evictor_Evict id) sample_pair
       (Lease_ExpiredLeases (sys_leases sample_pair) 6 [''v'', ''w''])))) [''w'', ''v'']"
    "range_order (lm_leases (sys_leases ?y)) [''v'', ''w'']"
    "range_order (lm_leases (sys_leases (foldl (Evictor_Evict id) ?y
       (Lease_ExpiredLeases (sys_leases ?y) 11 [''v'', ''w''])))) [''v'', ''w'']"
    by code_simp+
  moreover have "lm_timeout (sys_leases sample_pair) = 5" "lm_timeout (sys_leases ?y) = 5" by code_simp+
  ultimately have reg: "sweeps_regular 1 sample_pair ?sweeps" by simp
  obtain l where l: "Lease_Lease (sys_leases sample_pair) ''v'' = Some l" "lease_State l = LeaseLeased"
    "lease_Expires l = 6" using sample_pair_leases(1) by blast
  have start: "1 + lm_timeout (sys_leases sample_pair) \<le> lease_Expires l" unfolding l(3) by code_simp
  obtain stopped z where z: "Heartbeat_Run (map HeartTick ?sweeps @ [HeartDone]) sample_pair = (stopped, z)" by fastforce
  from regular_sweeps_keep_all [OF sample_pair_inv reg l(1,2) start z]
  show ?thesis unfolding z Let_def by auto
qed

end
