(* ===== verification/Server.thy ===== *)
theory Server
  imports Dispatch Heartbeat
begin

text \<open>
  The program of \<open>cmd/jobsched\<close>: its configuration, the wiring of \<open>main\<close>, the HTTP handlers of
  \<open>server.go\<close> as functions from a decoded request to a response and the next state, and the startup
  probe.  Here a handler receives what the decoder made of the body (\<open>None\<close> for an error), and a
  response is the value that is encoded; \<open>Wire\<close> adds the bytes of both.
\<close>

section \<open>Configuration and wiring\<close>

record config =
  cfg_Addr :: string
  cfg_TickInterval :: duration
  cfg_HeartbeatEvery :: duration
  cfg_LeaseTimeout :: duration
  cfg_QueueSize :: int
  cfg_StoreCapacity :: int
  cfg_RunnerQueue :: nat
  cfg_RunnerTimeout :: duration
  cfg_MaxAttempts :: int
  cfg_Flow :: policy

definition Load :: "string \<Rightarrow> config" where
  "Load addr =
     \<lparr>cfg_Addr = addr, cfg_TickInterval = second, cfg_HeartbeatEvery = 2 * second,
      cfg_LeaseTimeout = 15 * second, cfg_QueueSize = 1024, cfg_StoreCapacity = 2048,
      cfg_RunnerQueue = 64, cfg_RunnerTimeout = 2 * second, cfg_MaxAttempts = 3,
      cfg_Flow = DefaultPolicy\<rparr>"

definition main_state :: "(rat \<Rightarrow> rat) \<Rightarrow> config \<Rightarrow> system" where
  "main_state fl cfg =
     \<lparr>sys_store = NewStore (cfg_StoreCapacity cfg), sys_queue = Queue_New (cfg_QueueSize cfg),
      sys_reg = Registry_New, sys_deps = Graph_New, sys_leases = Lease_New (cfg_LeaseTimeout cfg),
      sys_execs = NewManager (cfg_RunnerQueue cfg), sys_metrics = Metric_New,
      sys_flow = NewLimiter fl (cfg_Flow cfg), sys_progress = NewCursor,
      sys_cache = Map.empty, sys_hits = 0, sys_misses = 0\<rparr>"

text \<open>The handler every runner calls, and the step of the ticking goroutine.\<close>

definition main_handler :: "inst \<Rightarrow> system \<Rightarrow> system" where
  "main_handler i y =
     y\<lparr>sys_store := Store_RecordTaskExecution (sys_store y) i, sys_metrics := Succeeded (sys_metrics y)\<rparr>"

definition main_tick ::
  "(rat \<Rightarrow> rat) \<Rightarrow> config \<Rightarrow> (nat \<Rightarrow> handoff_env) \<Rightarrow> executor_id list \<Rightarrow> time \<Rightarrow> system \<Rightarrow> system" where
  "main_tick fl cfg envs ks now y =
     snd (Tick fl envs None ks (NextWindow now (cfg_TickInterval cfg)) y)"

text \<open>
  The ticking goroutine as a function of what its \<open>select\<close> receives: ticks of its ticker, each with
  the instant and the arguments of the tick, and the cancellation, which ends it.  The result says
  whether it has returned; the errors of ticks are only logged.
\<close>

datatype ticker_event = TickerFired "nat \<Rightarrow> handoff_env" "executor_id list" time | TickerDone

fun main_ticker :: "(rat \<Rightarrow> rat) \<Rightarrow> config \<Rightarrow> ticker_event list \<Rightarrow> system \<Rightarrow> bool \<times> system" where
  "main_ticker fl cfg [] y = (False, y)"
| "main_ticker fl cfg (TickerDone # evs) y = (True, y)"
| "main_ticker fl cfg (TickerFired envs ks now # evs) y =
     main_ticker fl cfg evs (main_tick fl cfg envs ks now y)"

text \<open>
  One turn of a runner's worker when no one else runs: it takes the next instance of an open
  runner, calls the handler and releases the key.  (The worker of a closed runner has returned, for
  \<open>Shutdown\<close> has closed \<open>stop\<close>; the interleavings are in \<open>Runner\<close>.)
\<close>

definition worker_turn :: "executor_id \<Rightarrow> system \<Rightarrow> system" where
  "worker_turn exec y =
     (case Manager_Get (sys_execs y) exec of
        None \<Rightarrow> y
      | Some r \<Rightarrow>
          (case rn_in r of
             [] \<Rightarrow> y
           | i # rest \<Rightarrow>
               if rn_closed r then y
               else (main_handler i y)\<lparr>sys_execs :=
                      Manager_Put (sys_execs y) exec (release (r\<lparr>rn_in := rest\<rparr>) i)\<rparr>))"

section \<open>Blank strings\<close>

text \<open>
  \<open>strings.TrimSpace(s) == ""\<close>: the bytes of \<open>s\<close> are the UTF-8 encodings of white space only.
\<close>

definition space3 :: "nat \<Rightarrow> nat \<Rightarrow> nat \<Rightarrow> bool" where
  "space3 a b c \<longleftrightarrow>
     (a = 225 \<and> b = 154 \<and> c = 128) \<or>
     (a = 226 \<and> b = 128 \<and> (128 \<le> c \<and> c \<le> 138 \<or> c = 168 \<or> c = 169 \<or> c = 175)) \<or>
     (a = 226 \<and> b = 129 \<and> c = 159) \<or>
     (a = 227 \<and> b = 128 \<and> c = 128)"

fun blank_bytes :: "nat list \<Rightarrow> bool" where
  "blank_bytes [] = True"
| "blank_bytes [a] = (a \<in> {9, 10, 11, 12, 13, 32})"
| "blank_bytes [a, b] =
     (if a \<in> {9, 10, 11, 12, 13, 32} then blank_bytes [b]
      else a = 194 \<and> (b = 133 \<or> b = 160))"
| "blank_bytes (a # b # c # s) =
     (if a \<in> {9, 10, 11, 12, 13, 32} then blank_bytes (b # c # s)
      else if a = 194 \<and> (b = 133 \<or> b = 160) then blank_bytes (c # s)
      else if space3 a b c then blank_bytes s else False)"

definition trims_to_empty :: "string \<Rightarrow> bool" where
  "trims_to_empty s = blank_bytes (map of_char s)"

section \<open>Handlers\<close>

record publish_request =
  pr_Group :: string
  pr_Payload :: "8 word list"
  pr_DueAfter :: int64
  pr_DependsOn :: "string list"

record status_page =
  sp_tasks :: "task_view list"
  sp_executors :: "executor_id list"
  sp_lease_count :: nat
  sp_metrics :: metrics_snapshot
  sp_backlog :: backlog
  sp_cache_hits :: uint64
  sp_cache_misses :: uint64
  sp_progress :: int64

datatype response =
  RespMethodNotAllowed
| RespBadRequest string
| RespAccepted int64 string
| RespRegistered executor_id int
| RespStatus status_page
| RespHealth string string
| RespPage string
| RespNotFound

definition error_response :: "go_error \<Rightarrow> response" where
  "error_response e = RespBadRequest (case error_text e of None \<Rightarrow> [] | Some s \<Rightarrow> s)"

fun add_deps :: "graph \<Rightarrow> string \<Rightarrow> string list \<Rightarrow> graph" where
  "add_deps g tid [] = g"
| "add_deps g tid (d # ds) = add_deps (Graph_Add g tid [d]) tid ds"

text \<open>
  The clock is read twice, for the due time and by \<open>NewTask\<close>; the two ids are fresh uuids.  The
  product of the requested delay and a millisecond wraps as 64-bit integers do.
\<close>

definition handlePublish ::
  "string \<Rightarrow> string \<Rightarrow> time \<Rightarrow> time \<Rightarrow> string \<Rightarrow> publish_request option \<Rightarrow> system \<Rightarrow> response \<times> system" where
  "handlePublish id_uuid key_uuid now created method_name decoded y =
     (if method_name \<noteq> ''POST'' then (RespMethodNotAllowed, y)
      else (case decoded of
              None \<Rightarrow> (RespBadRequest ''bad request'', y)
            | Some req \<Rightarrow>
                if trims_to_empty (pr_Group req) then (RespBadRequest ''group is required'', y)
                else
                  let t = NewTask id_uuid key_uuid created (pr_Group req) (pr_Payload req)
                            (now + wrap64 (pr_DueAfter req * millisecond));
                      y = y\<lparr>sys_deps := add_deps (sys_deps y) (task_ID t) (pr_DependsOn req)\<rparr>
                  in (case Broker_Publish y t of
                        (Inl e, y) \<Rightarrow> (error_response e, y)
                      | (Inr seq, y) \<Rightarrow> (RespAccepted seq (task_ID t), y))))"

definition handleExecutor ::
  "time \<Rightarrow> string \<Rightarrow> string option \<Rightarrow> system \<Rightarrow> response \<times> system" where
  "handleExecutor now method_name decoded y =
     (if method_name \<noteq> ''POST'' then (RespMethodNotAllowed, y)
      else (case decoded of
              None \<Rightarrow> (RespBadRequest ''bad request'', y)
            | Some executor \<Rightarrow>
                if executor = [] then (RespBadRequest ''executor id is required'', y)
                else
                  let y = y\<lparr>sys_execs := snd (Manager_Add (sys_execs y) executor)\<rparr>;
                      ((slot, ok), m) = Lease_Acquire (sys_leases y) executor now
                  in (RespRegistered executor slot, y\<lparr>sys_leases := m\<rparr>)))"

definition handleStatus ::
  "(time \<Rightarrow> string) \<Rightarrow> string list \<Rightarrow> executor_id list \<Rightarrow> system \<Rightarrow> response" where
  "handleStatus format ks es y =
     RespStatus \<lparr>sp_tasks = Registry_Snapshot format (sys_reg y) ks,
       sp_executors = Lease_Executors (sys_leases y) es, sp_lease_count = Lease_Count (sys_leases y),
       sp_metrics = Metric_Snapshot (sys_metrics y), sp_backlog = BacklogInfo (sys_store y),
       sp_cache_hits = fst (CacheStats y), sp_cache_misses = snd (CacheStats y),
       sp_progress = Broker_Progress y\<rparr>"

definition handleHealth :: "string \<Rightarrow> response" where
  "handleHealth now_text = RespHealth ''ok'' now_text"

definition handleConsole :: "string \<Rightarrow> string \<Rightarrow> response" where
  "handleConsole console_html path = (if path \<noteq> ''/'' then RespNotFound else RespPage console_html)"

section \<open>The startup probe\<close>

datatype http_result = HTTPError string | HTTPReadError string | HTTPResponse int string string

datatype probe_error = ProbeTransport string | ProbeStatus string string | ProbeEmptyBody | ProbeNoMarker

fun trim_right_slash :: "string \<Rightarrow> string" where
  "trim_right_slash s = rev (dropWhile (\<lambda>c. c = CHR ''/'') (rev s))"

fun str_prefix :: "string \<Rightarrow> string \<Rightarrow> bool" where
  "str_prefix [] s = True"
| "str_prefix (p # ps) [] = False"
| "str_prefix (p # ps) (c # s) = (p = c \<and> str_prefix ps s)"

fun str_contains :: "string \<Rightarrow> string \<Rightarrow> bool" where
  "str_contains [] p = str_prefix p []"
| "str_contains (c # s) p = (str_prefix p (c # s) \<or> str_contains s p)"

definition Probe :: "(string \<Rightarrow> http_result) \<Rightarrow> string \<Rightarrow> probe_error option" where
  "Probe get base =
     (case get (trim_right_slash base @ ''/healthz'') of
        HTTPError e \<Rightarrow> Some (ProbeTransport e)
      | HTTPReadError e \<Rightarrow> Some (ProbeTransport e)
      | HTTPResponse code status body \<Rightarrow>
          if code \<noteq> 200 then Some (ProbeStatus ''healthz'' status)
          else if length (take 512 body) = 0 then Some ProbeEmptyBody
          else (case get (trim_right_slash base @ ''/'') of
                  HTTPError e \<Rightarrow> Some (ProbeTransport e)
                | HTTPReadError e \<Rightarrow> Some (ProbeTransport e)
                | HTTPResponse code status page \<Rightarrow>
                    if code \<noteq> 200 then Some (ProbeStatus ''console'' status)
                    else if \<not> str_contains (take 8192 page) ''JobScheduler Console'' then Some ProbeNoMarker
                    else None))"

text \<open>The attempts \<open>k\<close>, \<open>k + 1\<close>, ... each see the server as it is then; the last error is kept.\<close>

fun probe_attempts ::
  "(nat \<Rightarrow> string \<Rightarrow> http_result) \<Rightarrow> string \<Rightarrow> nat \<Rightarrow> nat \<Rightarrow> probe_error option \<Rightarrow> probe_error option" where
  "probe_attempts get base k 0 prev = prev"
| "probe_attempts get base k (Suc n) prev =
     (case Probe (get k) base of
        None \<Rightarrow> None
      | Some e \<Rightarrow> probe_attempts get base (k + 1) n (Some e))"

definition probeWithRetry ::
  "(nat \<Rightarrow> string \<Rightarrow> http_result) \<Rightarrow> string \<Rightarrow> nat \<Rightarrow> probe_error option" where
  "probeWithRetry get base attempts = probe_attempts get base 0 attempts None"

lemma probe_attempts_iff:
  "0 < n \<Longrightarrow> probe_attempts get base k n prev = None \<longleftrightarrow> (\<exists>i < n. Probe (get (k + i)) base = None)"
proof (induction n arbitrary: k prev)
  case (Suc n)
  show ?case
  proof (cases "Probe (get k) base")
    case None
    then show ?thesis by force
  next
    case (Some e)
    show ?thesis
    proof (cases n)
      case 0
      with Some show ?thesis by simp
    next
      case (Suc m)
      then have "probe_attempts get base (k + 1) n (Some e) = None \<longleftrightarrow>
          (\<exists>i < n. Probe (get (k + 1 + i)) base = None)"
        by (intro Suc.IH) simp
      also have "\<dots> \<longleftrightarrow> (\<exists>i < Suc n. Probe (get (k + i)) base = None)"
      proof
        assume "\<exists>i < n. Probe (get (k + 1 + i)) base = None"
        then show "\<exists>i < Suc n. Probe (get (k + i)) base = None" by (metis Suc_less_eq add.assoc plus_1_eq_Suc)
      next
        assume "\<exists>i < Suc n. Probe (get (k + i)) base = None"
        then obtain i where i: "i < Suc n" "Probe (get (k + i)) base = None" by blast
        then have "i \<noteq> 0" using Some by (metis add.right_neutral option.distinct(1))
        then show "\<exists>i < n. Probe (get (k + 1 + i)) base = None"
          using i by (intro exI [of _ "i - 1"]) simp
      qed
      finally show ?thesis using Some by simp
    qed
  qed
qed simp

lemma probe_attempts_last:
  "probe_attempts get base k n prev \<noteq> None \<Longrightarrow> 0 < n \<Longrightarrow>
   probe_attempts get base k n prev = Probe (get (k + n - 1)) base"
proof (induction n arbitrary: k prev)
  case (Suc n)
  then obtain e where e: "Probe (get k) base = Some e" by (auto split: option.splits)
  show ?case
  proof (cases n)
    case 0
    with e show ?thesis by simp
  next
    case (Suc m)
    then have "probe_attempts get base (k + 1) n (Some e) = Probe (get (k + 1 + n - 1)) base"
      using Suc.prems(1) e by (intro Suc.IH) simp_all
    with e show ?thesis by simp
  qed
qed simp

text \<open>
  The startup probe succeeds exactly if one of its attempts does (or if it makes none), and otherwise
  reports the error of the last attempt.
\<close>

theorem probe_retries:
  "probeWithRetry get base attempts =
     (if attempts = 0 \<or> (\<exists>i < attempts. Probe (get i) base = None) then None
      else Probe (get (attempts - 1)) base)"
proof (cases "attempts = 0 \<or> (\<exists>i < attempts. Probe (get i) base = None)")
  case True
  then show ?thesis using probe_attempts_iff [of attempts get base 0 None] by (auto simp: probeWithRetry_def)
next
  case False
  then show ?thesis
    using probe_attempts_iff [of attempts get base 0 None] probe_attempts_last [of get base 0 attempts None]
    by (simp add: probeWithRetry_def)
qed

end
