(* ===== verification/System.thy ===== *)
theory System
  imports Server
begin

text \<open>
  The running program: the events the goroutines of \<open>cmd/jobsched/main.go\<close> and its HTTP server cause,
  one after the other, and the invariant that ties the components together.
\<close>

section \<open>Events\<close>

text \<open>
  A publish request, an executor request, a tick of the ticking goroutine, a sweep of the heartbeat,
  and a turn of the worker of a runner.  Each is one call; the calls of different goroutines are
  taken to follow each other here (\<open>Goroutines\<close> has their interleaving, of which the runs of events are
  particular schedules, \<open>events_are_schedules\<close>).  A registration (\<open>Add\<close>, then \<open>Acquire\<close>) and a sweep (scan,
  then \<open>Evict\<close> and \<open>Remove\<close> lease by lease) take several critical sections in the program, between which
  other goroutines run: what is proved of a run of events is claimed for runs of whole calls only.
\<close>

datatype sys_event =
  EvPublishReq string string time time string "publish_request option"
| EvExecutorReq time string "string option"
| EvClockTick "nat \<Rightarrow> handoff_env" "executor_id list" time
| EvSweep "runner \<Rightarrow> runner" time "executor_id \<Rightarrow> time" "executor_id list" "executor_id list"
| EvWorker executor_id

fun sys_step :: "(rat \<Rightarrow> rat) \<Rightarrow> config \<Rightarrow> system \<Rightarrow> sys_event \<Rightarrow> system" where
  "sys_step fl cfg y (EvPublishReq i k now created m req) = snd (handlePublish i k now created m req y)"
| "sys_step fl cfg y (EvExecutorReq now m req) = snd (handleExecutor now m req y)"
| "sys_step fl cfg y (EvClockTick envs ks now) = main_tick fl cfg envs ks now y"
| "sys_step fl cfg y (EvSweep drain now clock ks ks') = Heartbeat_sweep drain now clock ks ks' y"
| "sys_step fl cfg y (EvWorker exec) = worker_turn exec y"

text \<open>
  The two loops of the program as runs of events: until they are cancelled, the ticking goroutine is
  a series of ticks and the heartbeat a series of sweeps.
\<close>

lemma main_ticker_events:
  "main_ticker fl cfg (map (\<lambda>(envs, ks, now). TickerFired envs ks now) ticks @ TickerDone # later) y =
     (True, foldl (sys_step fl cfg) y (map (\<lambda>(envs, ks, now). EvClockTick envs ks now) ticks))"
  by (induction ticks arbitrary: y) auto

lemma Heartbeat_Run_events:
  "Heartbeat_Run (map HeartTick sweeps @ HeartDone # later) y =
     (True, foldl (sys_step fl cfg) y
        (map (\<lambda>(drain, now, clock, ks, ks'). EvSweep drain now clock ks ks') sweeps))"
  by (induction sweeps arbitrary: y) auto

text \<open>
  While an enqueue waits in its slow path, the worker of the runner may take instances; no other
  caller touches the runner, because the events follow each other.
\<close>

definition wait_ok :: "wait \<Rightarrow> bool" where
  "wait_ok w \<longleftrightarrow> (\<forall>r. rn_closed (snd (w r)) = rn_closed r \<and> rn_replay (snd (w r)) = rn_replay r \<and>
     rn_buffer (snd (w r)) = rn_buffer r \<and> rn_cap (snd (w r)) = rn_cap r \<and>
     set (rn_in (snd (w r))) \<subseteq> set (rn_in r) \<and> length (rn_in (snd (w r))) \<le> length (rn_in r))"

fun event_ok :: "sys_event \<Rightarrow> bool" where
  "event_ok (EvClockTick envs ks now) \<longleftrightarrow> (\<forall>n. wait_ok (he_wait (envs n)))"
| "event_ok _ \<longleftrightarrow> True"

section \<open>The invariant\<close>

definition runner_ok :: "runner \<Rightarrow> bool" where
  "runner_ok r \<longleftrightarrow> \<not> rn_closed r \<and> \<not> rn_replay r \<and> rn_buffer r = [] \<and> length (rn_in r) \<le> rn_cap r"

definition execs_ok :: "exec_manager \<Rightarrow> bool" where
  "execs_ok m \<longleftrightarrow> (\<forall>e r. Manager_Get m e = Some r \<longrightarrow> runner_ok r)"

definition leased_run :: "system \<Rightarrow> bool" where
  "leased_run y \<longleftrightarrow> (\<forall>e. lm_slotOf (sys_leases y) e \<noteq> None \<longrightarrow> Manager_Get (sys_execs y) e \<noteq> None)"

definition queued_ok :: "system \<Rightarrow> bool" where
  "queued_ok y \<longleftrightarrow> (\<forall>t \<in># queue_contents (sys_queue y). 0 < task_Sequence t \<and> task_Sequence t \<le> s_seq (sys_store y))"

definition sys_inv :: "system \<Rightarrow> bool" where
  "sys_inv y \<longleftrightarrow> store_inv (sys_store y) \<and> queue_inv (sys_queue y) \<and> registry_inv (sys_reg y) \<and>
     graph_inv (sys_deps y) \<and> lease_inv (sys_leases y) \<and> execs_ok (sys_execs y) \<and>
     leased_run y \<and> queued_ok y \<and> c_pos (sys_progress y) \<le> s_seq (sys_store y)"

lemma sys_inv_main: "sys_inv (main_state fl cfg)"
proof -
  have "lm_slotOf (Lease_New d) e = None" for d e by (simp add: Lease_New_def)
  moreover have "s_seq (NewStore n) = 0" for n by (simp add: NewStore_def)
  ultimately show ?thesis
    by (simp add: sys_inv_def main_state_def store_inv_new queue_inv_new registry_inv_new graph_inv_new
        lease_inv_new execs_ok_def leased_run_def queued_ok_def NewManager_def Manager_Get_def NewCursor_def)
qed

lemma runner_ok_enqueue:
  assumes "wait_ok w" and "runner_ok r"
  shows "runner_ok (snd (Runner_Enqueue w r i))"
proof -
  have "runner_ok (snd (w r))" using assms by (auto simp: wait_ok_def runner_ok_def intro: order_trans)
  with assms(2) show ?thesis
    by (auto simp: Runner_Enqueue_def Enqueue_try_cases runner_ok_def chan_send_def reserve_def
        split: prod.split wait_end.split option.split)
qed

lemma execs_ok_dispatch: "wait_ok w \<Longrightarrow> execs_ok m \<Longrightarrow> execs_ok (snd (Manager_Dispatch w m e i))"
  by (auto simp: execs_ok_def Manager_Get_Dispatch runner_ok_enqueue split: if_splits)

section \<open>Hand-offs and ticks keep the invariant\<close>

lemma dispatchOne_parts:
  assumes "z = snd (dispatchOne fl env None exec t y)"
  shows "sys_store z = sys_store y \<or>
      sys_store z = snd (Store_Commit (Store_MarkDispatched (sys_store y) (task_Sequence t) True) (task_Sequence t))"
    "sys_reg z = sys_reg y \<or> sys_reg z = Registry_SetState (sys_reg y) (task_ID t) TaskDispatched"
    "sys_execs z = sys_execs y \<or> sys_execs z = snd (Manager_Dispatch (he_wait env) (sys_execs y) exec (task_instance env t))"
  unfolding assms
  by (auto simp: dispatchOne_def markDispatched_def Let_def split: prod.splits option.splits)

lemma dispatchOne_inv:
  assumes "sys_inv y" and "wait_ok (he_wait env)"
  shows "sys_inv (snd (dispatchOne fl env None exec t y))"
    and "s_seq (sys_store (snd (dispatchOne fl env None exec t y))) = s_seq (sys_store y)"
proof -
  let ?z = "snd (dispatchOne fl env None exec t y)"
  note parts = dispatchOne_parts [of ?z fl env exec t y, OF refl]
  show seq: "s_seq (sys_store ?z) = s_seq (sys_store y)"
    using parts(1) by auto
  have "store_inv (sys_store ?z)"
    using parts(1) assms(1) by (auto simp: sys_inv_def Commit_inv MarkDispatched_inv)
  moreover have "registry_inv (sys_reg ?z)"
    using parts(2) assms(1) registry_step_inv [of "sys_reg y" "CallSetState (task_ID t) TaskDispatched"]
    by (auto simp: sys_inv_def)
  moreover have "execs_ok (sys_execs ?z)"
    using parts(3) assms by (auto simp: sys_inv_def execs_ok_dispatch)
  moreover have "leased_run ?z"
    using parts(3) assms(1) by (auto simp: sys_inv_def leased_run_def Manager_Get_Dispatch)
  moreover have "queued_ok ?z" using seq assms(1) by (simp add: sys_inv_def queued_ok_def)
  ultimately show "sys_inv ?z" using assms(1) seq by (simp add: sys_inv_def)
qed

lemma handoff_inv:
  "sys_inv y \<Longrightarrow> \<forall>n. wait_ok (he_wait (envs n)) \<Longrightarrow>
   sys_inv (snd (handoff_all fl envs None exec i err ts y)) \<and>
   s_seq (sys_store (snd (handoff_all fl envs None exec i err ts y))) = s_seq (sys_store y)"
proof (induction ts arbitrary: i err y)
  case (Cons t ts)
  obtain e z where d: "dispatchOne fl (envs i) None exec t y = (e, z)" by fastforce
  then have "sys_inv z" "s_seq (sys_store z) = s_seq (sys_store y)"
    using dispatchOne_inv [OF Cons.prems(1), of "envs i" fl exec t] Cons.prems(2) by simp_all
  with Cons.IH [of z] Cons.prems(2) show ?case by (simp add: d)
qed simp

lemma enq_all_members: "t \<in># queue_contents (wq.enq_all q ts) \<Longrightarrow> t \<in># queue_contents q \<or> t \<in> set ts"
proof (induction ts arbitrary: q)
  case (Cons u ts)
  then have "t \<in># queue_contents (snd (Queue_Enqueue q u)) \<or> t \<in> set ts" by simp
  moreover have "t \<in># queue_contents (snd (Queue_Enqueue q u)) \<Longrightarrow> t \<in># queue_contents q \<or> t = u"
    using Enqueue_ok(2) [of q u] Enqueue_full [of q u]
    by (cases "int (length (q_items q)) < q_limit q") auto
  ultimately show ?case by auto
qed simp

lemma requeue_inv:
  assumes "sys_inv y" and "\<forall>t \<in> set ts. 0 < task_Sequence t \<and> task_Sequence t \<le> s_seq (sys_store y)"
  shows "sys_inv (Dispatcher_requeue y ts)"
proof -
  have "queue_inv (wq.enq_all (sys_queue y) ts)" using assms(1) by (simp add: sys_inv_def wq.enq_all_inv)
  moreover have "\<forall>t \<in># queue_contents (wq.enq_all (sys_queue y) ts).
      0 < task_Sequence t \<and> task_Sequence t \<le> s_seq (sys_store y)"
    using enq_all_members assms by (fastforce simp: sys_inv_def queued_ok_def)
  ultimately show ?thesis
    using assms(1) by (simp add: sys_inv_def requeue_enq_all leased_run_def queued_ok_def)
qed

lemma drained_inv: "sys_inv y \<Longrightarrow> sys_inv (drained y)"
  using batch_props(3,4) [of y] by (simp add: sys_inv_def queued_ok_def leased_run_def drained_def)

lemma batch_queued: "queue_inv (sys_queue y) \<Longrightarrow> t \<in> set (tick_batch y) \<Longrightarrow> t \<in># queue_contents (sys_queue y)"
  using batch_props(1) [of y] by (metis set_mset_mset)

lemma Tick_inv:
  assumes "sys_inv y" and "\<forall>n. wait_ok (he_wait (envs n))"
  shows "sys_inv (snd (Tick fl envs None ks win y)) \<and>
    s_seq (sys_store (snd (Tick fl envs None ks win y))) = s_seq (sys_store y)"
proof -
  have q: "queue_inv (sys_queue y)" using assms(1) by (simp add: sys_inv_def)
  have batch: "\<forall>t \<in> set (tick_batch y). 0 < task_Sequence t \<and> task_Sequence t \<le> s_seq (sys_store y)"
    using batch_queued [OF q] assms(1) by (auto simp: sys_inv_def queued_ok_def)
  have store: "sys_store (drained y) = sys_store y" by (simp add: drained_def)
  show ?thesis
  proof (cases "Lease_Executors (sys_leases y) ks")
    case Nil
    then show ?thesis
      using requeue_inv [OF drained_inv [OF assms(1)], of "tick_batch y"] batch store
      by (simp add: Tick_cases [OF q] requeue_enq_all)
  next
    case (Cons exec es)
    let ?z = "snd (handoff_all fl envs None exec 0 None (takeWhile (in_window win) (tick_batch y)) (drained y))"
    have z: "sys_inv ?z" "s_seq (sys_store ?z) = s_seq (sys_store y)"
      using handoff_inv [OF drained_inv [OF assms(1)] assms(2)] store by simp_all
    have "sys_inv (Dispatcher_requeue ?z (dropWhile (in_window win) (tick_batch y)))"
      using requeue_inv [OF z(1)] batch z(2) by (simp add: set_dropWhileD)
    then show ?thesis
      using z(2) by (simp add: Tick_cases [OF q] Cons Let_def requeue_enq_all case_prod_beta)
  qed
qed

section \<open>The other events keep the invariant\<close>

lemma add_deps_inv: "graph_inv g \<Longrightarrow> graph_inv (add_deps g t ds)"
  by (induction ds arbitrary: g) (simp_all add: Graph_Add_inv)

lemma Publish_parts:
  "sys_reg (snd (Broker_Publish y t)) = sys_reg y \<or>
     (\<exists>u. sys_reg (snd (Broker_Publish y t)) = Registry_Register (sys_reg y) u)"
  "sys_progress (snd (Broker_Publish y t)) = sys_progress y \<or>
     (\<exists>q. fst (Store_Append (sys_store y) t) = Inr q \<and>
        sys_progress (snd (Broker_Publish y t)) = Cursor_Advance (sys_progress y) q)"
  by (auto simp: Broker_Publish_def Let_def split: prod.split sum.split option.split)

lemma Publish_inv:
  assumes "sys_inv y" and "s_seq (sys_store y) < max_int64"
  shows "sys_inv (snd (Broker_Publish y t))"
    and "s_seq (sys_store (snd (Broker_Publish y t))) = s_seq (sys_store y) + 1"
proof -
  let ?z = "snd (Broker_Publish y t)"
  have st: "store_inv (sys_store y)" using assms(1) by (simp add: sys_inv_def)
  note store = Publish_store [OF st assms(2), of t]
  show seq: "s_seq (sys_store ?z) = s_seq (sys_store y) + 1" by (rule store(2))
  have append: "fst (Store_Append (sys_store y) t) = Inr q \<Longrightarrow> q = s_seq (sys_store y) + 1" for q
    using Append_result [OF st assms(2), of t] by (simp split: if_splits)
  have nonneg: "0 \<le> s_seq (sys_store y)" using st by (simp add: store_inv_def)
  have "registry_inv (sys_reg ?z)"
    using Publish_parts(1) [of y t] registry_step_inv [of "sys_reg y" "CallRegister u" for u] assms(1)
    by (auto simp: sys_inv_def)
  moreover have "queue_inv (sys_queue ?z)"
    using assms(1) by (auto simp: Publish_queue sys_inv_def Enqueue_inv split: sum.split)
  moreover have "queued_ok ?z"
    unfolding queued_ok_def
  proof
    fix u assume u: "u \<in># queue_contents (sys_queue ?z)"
    have "u \<in># queue_contents (sys_queue y) \<or> (\<exists>q. fst (Store_Append (sys_store y) t) = Inr q \<and> task_Sequence u = q)"
      using u enq_all_members [of u "sys_queue y" "[t\<lparr>task_Sequence := q\<rparr>]" for q]
      by (fastforce simp: Publish_queue split: sum.splits if_splits)
    then show "0 < task_Sequence u \<and> task_Sequence u \<le> s_seq (sys_store ?z)"
      using assms(1) append nonneg by (auto simp: sys_inv_def queued_ok_def seq)
  qed
  moreover have "c_pos (sys_progress ?z) \<le> s_seq (sys_store ?z)"
    using Publish_parts(2) [of y t] append assms(1) by (auto simp: sys_inv_def seq Cursor_Advance_def)
  ultimately show "sys_inv ?z"
    using assms(1) store(1) by (simp add: sys_inv_def leased_run_def)
qed

lemma handlePublish_step:
  "snd (handlePublish i k now created m req y) = y \<or>
   (\<exists>t ds. task_ID t = i \<and> snd (handlePublish i k now created m req y) =
      snd (Broker_Publish (y\<lparr>sys_deps := add_deps (sys_deps y) i ds\<rparr>) t))"
proof -
  have "task_ID (NewTask i k created g p due) = i" for g p due by (simp add: NewTask_def)
  then show ?thesis
    by (auto simp: handlePublish_def Let_def split: option.split prod.split sum.split) (metis snd_conv)+
qed

lemma handleExecutor_step:
  "snd (handleExecutor now m req y) = y \<or>
   (\<exists>e. snd (handleExecutor now m req y) =
      y\<lparr>sys_execs := snd (Manager_Add (sys_execs y) e), sys_leases := snd (Lease_Acquire (sys_leases y) e now)\<rparr>)"
proof (cases req)
  case (Some e)
  then show ?thesis
    by (cases "m = ''POST'' \<and> e \<noteq> []")
      (auto simp: handleExecutor_def Let_def case_prod_beta intro!: disjI2 exI [of _ e])
qed (simp add: handleExecutor_def)

lemma handleExecutor_inv:
  assumes "sys_inv y" and "lm_next (sys_leases y) < max_int64"
  shows "sys_inv (snd (handleExecutor now m req y))"
proof -
  have "sys_inv (y\<lparr>sys_execs := snd (Manager_Add (sys_execs y) e),
      sys_leases := snd (Lease_Acquire (sys_leases y) e now)\<rparr>)" for e
    using assms Acquire_inv [of "sys_leases y" e now]
    by (auto simp: sys_inv_def execs_ok_def leased_run_def queued_ok_def Acquire_reads runner_ok_def NewRunner_def
        split: if_splits)
  then show ?thesis using handleExecutor_step [of now m req y] assms(1) by metis
qed

lemma Tick_leases:
  assumes "queue_inv (sys_queue y)"
  shows "sys_leases (snd (Tick fl envs None ks win y)) = sys_leases y"
proof -
  have d: "sys_leases (drained y) = sys_leases y" by (simp add: drained_def)
  show ?thesis
    by (cases "Lease_Executors (sys_leases y) ks")
      (simp_all add: Tick_cases [OF assms] requeue_enq_all Let_def case_prod_beta handoff_keeps d)
qed

text \<open>Only a registration moves the slot counter, by one.\<close>

lemma sys_step_next:
  assumes "sys_inv y" and "lm_next (sys_leases y) < max_int64"
  shows "lm_next (sys_leases (sys_step fl cfg y ev)) \<le> lm_next (sys_leases y) + 1"
proof (cases ev)
  case (EvPublishReq i k now created m req)
  then show ?thesis using handlePublish_step [of i k now created m req y] by auto
next
  case (EvExecutorReq now m req)
  have "lease_inv (sys_leases y)" using assms(1) by (simp add: sys_inv_def)
  then show ?thesis
    using EvExecutorReq handleExecutor_step [of now m req y] Acquire_next [OF _ assms(2)] by auto
next
  case (EvClockTick envs ks now)
  then show ?thesis using assms(1) by (simp add: main_tick_def Tick_leases sys_inv_def)
next
  case (EvSweep drain now clock ks ks')
  have renew: "lm_next (sys_leases (renew_loop now clock es z)) = lm_next (sys_leases z)" for es z
    by (induction es arbitrary: z) (simp_all add: Heartbeat_Renew_leases Renew_reads)
  have "lm_next (sys_leases (foldl (Evictor_Evict drain) z es)) = lm_next (sys_leases z)" for es z
    by (induction es arbitrary: z) (simp_all add: Evict_leases Evict_reads)
  with renew EvSweep show ?thesis by (simp add: Heartbeat_sweep_def Let_def)
next
  case (EvWorker exec)
  have "sys_leases (worker_turn exec y) = sys_leases y"
    by (auto simp: worker_turn_def main_handler_def split: option.split list.split)
  with EvWorker show ?thesis by simp
qed

lemma Evictor_inv:
  assumes "sys_inv y"
  shows "sys_inv (Evictor_Evict drain y e)"
    and "sys_store (Evictor_Evict drain y e) = sys_store y"
proof -
  have frames: "sys_store (Evictor_Evict drain y e) = sys_store y" "sys_queue (Evictor_Evict drain y e) = sys_queue y"
    "sys_reg (Evictor_Evict drain y e) = sys_reg y" "sys_deps (Evictor_Evict drain y e) = sys_deps y"
    "sys_progress (Evictor_Evict drain y e) = sys_progress y"
    by (simp_all add: Evictor_Evict_def Let_def split: prod.split bool.split)
  show "sys_store (Evictor_Evict drain y e) = sys_store y" by (rule frames)
  have "lease_inv (sys_leases (Evictor_Evict drain y e))"
    using assms by (simp add: sys_inv_def Evict_leases Evict_inv)
  moreover have "execs_ok (sys_execs (Evictor_Evict drain y e))"
    using assms by (auto simp: sys_inv_def execs_ok_def Evict_execs split: if_splits)
  moreover have "leased_run (Evictor_Evict drain y e)"
    using assms by (auto simp: sys_inv_def leased_run_def Evict_execs Evict_leases Evict_reads(2))
  ultimately show "sys_inv (Evictor_Evict drain y e)"
    using assms by (simp add: sys_inv_def frames queued_ok_def)
qed

lemma renew_loop_inv: "sys_inv y \<Longrightarrow> sys_inv (renew_loop now clock es y)"
proof (induction es arbitrary: y)
  case (Cons e es)
  have "sys_inv (snd (Heartbeat_Renew y e (clock e)))"
    using Cons.prems
    by (simp add: Heartbeat_Renew_def sys_inv_def leased_run_def queued_ok_def Renew_inv Renew_reads(2)
        case_prod_beta)
  with Cons show ?case by simp
qed simp

lemma sweep_sys_inv:
  assumes "sys_inv y"
  shows "sys_inv (Heartbeat_sweep drain now clock ks ks' y) \<and>
    sys_store (Heartbeat_sweep drain now clock ks ks' y) = sys_store y"
proof -
  have "sys_inv (foldl (Evictor_Evict drain) z es) \<and> sys_store (foldl (Evictor_Evict drain) z es) = sys_store z"
    if "sys_inv z" for es z
    using that by (induction es arbitrary: z) (simp_all add: Evictor_inv)
  with assms show ?thesis by (simp add: Heartbeat_sweep_def Let_def renew_loop_inv)
qed

lemma worker_inv:
  assumes "sys_inv y"
  shows "sys_inv (worker_turn exec y) \<and> s_seq (sys_store (worker_turn exec y)) = s_seq (sys_store y)"
proof (cases "worker_turn exec y = y")
  case True
  with assms show ?thesis by simp
next
  case False
  then obtain r i rest where r: "Manager_Get (sys_execs y) exec = Some r" "rn_in r = i # rest" "\<not> rn_closed r"
    by (auto simp: worker_turn_def split: option.splits list.splits if_splits)
  have "runner_ok r" using assms r(1) by (auto simp: sys_inv_def execs_ok_def)
  then have "runner_ok (release (r\<lparr>rn_in := rest\<rparr>) i)" using r(2) by (simp add: runner_ok_def release_def)
  moreover have "worker_turn exec y = (main_handler i y)\<lparr>sys_execs :=
      Manager_Put (sys_execs y) exec (release (r\<lparr>rn_in := rest\<rparr>) i)\<rparr>"
    using r by (simp add: worker_turn_def)
  ultimately show ?thesis
    using assms by (auto simp: sys_inv_def main_handler_def execs_ok_def leased_run_def queued_ok_def)
qed

lemma sys_step_inv:
  assumes "sys_inv y" and "s_seq (sys_store y) < max_int64" and "event_ok ev"
    and "lm_next (sys_leases y) < max_int64"
  shows "sys_inv (sys_step fl cfg y ev) \<and> s_seq (sys_store (sys_step fl cfg y ev)) \<le> s_seq (sys_store y) + 1"
proof (cases ev)
  case (EvPublishReq i k now created m req)
  have "sys_inv (y\<lparr>sys_deps := add_deps (sys_deps y) i ds\<rparr>)" for ds
    using assms(1) by (simp add: sys_inv_def add_deps_inv leased_run_def queued_ok_def)
  from Publish_inv [OF this] assms(2)
  have "sys_inv (snd (Broker_Publish (y\<lparr>sys_deps := add_deps (sys_deps y) i ds\<rparr>) t)) \<and>
      s_seq (sys_store (snd (Broker_Publish (y\<lparr>sys_deps := add_deps (sys_deps y) i ds\<rparr>) t)))
        = s_seq (sys_store y) + 1" for ds t
    by simp
  with handlePublish_step [of i k now created m req y] assms(1) show ?thesis
    unfolding EvPublishReq sys_step.simps by (metis add.commute le_add_same_cancel2 order_refl zero_le_one)
next
  case (EvExecutorReq now m req)
  have "sys_store (snd (handleExecutor now m req y)) = sys_store y"
    using handleExecutor_step [of now m req y] by auto
  then show ?thesis using handleExecutor_inv [OF assms(1,4)] by (simp add: EvExecutorReq)
next
  case (EvClockTick envs ks now)
  then show ?thesis
    using Tick_inv [OF assms(1), of envs fl ks "NextWindow now (cfg_TickInterval cfg)"] assms(3)
    by (simp add: main_tick_def)
next
  case (EvSweep drain now clock ks ks')
  then show ?thesis using sweep_sys_inv [OF assms(1)] by simp
next
  case (EvWorker exec)
  then show ?thesis using worker_inv [OF assms(1)] by simp
qed

text \<open>
  The program as a state machine.  Each event assigns one sequence and one slot at most, so the bound
  of the machine integers bounds the number of events.
\<close>

interpretation sm: state_machine "\<lambda>y. y = main_state fl cfg"
  "\<lambda>y z. \<exists>ev. event_ok ev \<and> z = sys_step fl cfg y ev"
  "\<lambda>n y. sys_inv y \<and> s_seq (sys_store y) \<le> int n \<and> lm_next (sys_leases y) \<le> int n" "nat max_int64" for fl cfg
proof unfold_locales
  fix n y z
  assume inv: "sys_inv y \<and> s_seq (sys_store y) \<le> int n \<and> lm_next (sys_leases y) \<le> int n" and n: "n < nat max_int64"
    and "\<exists>ev. event_ok ev \<and> z = sys_step fl cfg y ev"
  then obtain ev where ev: "event_ok ev" "z = sys_step fl cfg y ev" by blast
  have "s_seq (sys_store y) < max_int64" "lm_next (sys_leases y) < max_int64" using inv n by linarith+
  with sys_step_inv [of y ev fl cfg] sys_step_next [of y fl cfg ev] inv ev
  show "sys_inv z \<and> s_seq (sys_store z) \<le> int (Suc n) \<and> lm_next (sys_leases z) \<le> int (Suc n)" by force
qed (auto simp: sys_inv_main, simp_all add: main_state_def NewStore_def Lease_New_def)

lemma events_run:
  "\<forall>ev \<in> set evs. event_ok ev \<Longrightarrow>
   run_of (\<lambda>y. y = main_state fl cfg) (\<lambda>y z. \<exists>ev. event_ok ev \<and> z = sys_step fl cfg y ev) n y \<Longrightarrow>
   run_of (\<lambda>y. y = main_state fl cfg) (\<lambda>y z. \<exists>ev. event_ok ev \<and> z = sys_step fl cfg y ev) (n + length evs)
     (foldl (sys_step fl cfg) y evs)"
proof (induction evs arbitrary: n y)
  case (Cons ev evs)
  have "run_of (\<lambda>y. y = main_state fl cfg) (\<lambda>y z. \<exists>ev. event_ok ev \<and> z = sys_step fl cfg y ev) (Suc n)
      (sys_step fl cfg y ev)"
    using Cons.prems by (auto intro: run_of.run_step)
  from Cons.IH [OF _ this] Cons.prems(1) show ?case by simp
qed simp

lemma events_inv:
  assumes "\<forall>ev \<in> set evs. event_ok ev" and "int (length evs) \<le> max_int64"
  shows "sys_inv (foldl (sys_step fl cfg) (main_state fl cfg) evs) \<and>
    s_seq (sys_store (foldl (sys_step fl cfg) (main_state fl cfg) evs)) \<le> int (length evs)"
proof -
  have "run_of (\<lambda>y. y = main_state fl cfg) (\<lambda>y z. \<exists>ev. event_ok ev \<and> z = sys_step fl cfg y ev) 0 (main_state fl cfg)"
    by (rule run_of.run_init) simp
  from events_run [OF assms(1) this] sm.run_inv assms(2) show ?thesis by fastforce
qed

section \<open>A task that waits for a dependency\<close>

text \<open>
  A task id that is in no queue, in no runner and in no execution record.  Only a publish of the id
  with all dependencies satisfied ends that.
\<close>

definition runner_avoids :: "string \<Rightarrow> runner \<Rightarrow> bool" where
  "runner_avoids tid r \<longleftrightarrow> rn_buffer r = [] \<and> \<not> rn_replay r \<and> (\<forall>i \<in> set (rn_in r). inst_TaskID i \<noteq> tid)"

definition execs_avoid :: "string \<Rightarrow> exec_manager \<Rightarrow> bool" where
  "execs_avoid tid m \<longleftrightarrow> (\<forall>e r. Manager_Get m e = Some r \<longrightarrow> runner_avoids tid r)"

definition absent :: "string \<Rightarrow> system \<Rightarrow> bool" where
  "absent tid y \<longleftrightarrow> queue_inv (sys_queue y) \<and>
     (\<forall>t \<in># queue_contents (sys_queue y). task_ID t \<noteq> tid) \<and>
     execs_avoid tid (sys_execs y) \<and>
     Store_TaskRecord (sys_store y) tid = None"

fun publishes :: "string \<Rightarrow> sys_event \<Rightarrow> bool" where
  "publishes tid (EvPublishReq i k now created m req) \<longleftrightarrow> i = tid"
| "publishes tid _ \<longleftrightarrow> False"

lemma absent_frame:
  assumes "absent tid y" and "queue_inv (sys_queue z)"
    and "\<And>t. t \<in># queue_contents (sys_queue z) \<Longrightarrow> t \<in># queue_contents (sys_queue y) \<or> task_ID t \<noteq> tid"
    and "sys_execs z = sys_execs y" and "Store_TaskRecord (sys_store z) tid = None"
  shows "absent tid z"
  using assms by (auto simp: absent_def)

lemma Enqueue_avoids:
  assumes "wait_ok w" and "runner_avoids tid r" and "inst_TaskID i \<noteq> tid"
  shows "runner_avoids tid (snd (Runner_Enqueue w r i))"
proof -
  have "runner_avoids tid (snd (w r))" using assms(1,2) by (auto simp: wait_ok_def runner_avoids_def)
  then show ?thesis using assms(2,3)
    by (auto simp: Runner_Enqueue_def Enqueue_try_cases chan_send_def reserve_def runner_avoids_def
        split: prod.split wait_end.split option.split)
qed

lemma Dispatch_avoids:
  "wait_ok w \<Longrightarrow> execs_avoid tid m \<Longrightarrow> inst_TaskID i \<noteq> tid \<Longrightarrow> execs_avoid tid (snd (Manager_Dispatch w m e i))"
  by (auto simp: execs_avoid_def Manager_Get_Dispatch Enqueue_avoids split: if_splits)

lemma absent_dispatchOne:
  assumes "absent tid y" and "wait_ok (he_wait env)" and "task_ID t \<noteq> tid"
  shows "absent tid (snd (dispatchOne fl env None exec t y))"
proof -
  let ?z = "snd (dispatchOne fl env None exec t y)"
  note parts = dispatchOne_parts [of ?z fl env exec t y, OF refl]
  have "s_records (sys_store ?z) = s_records (sys_store y)" using parts(1) by auto
  moreover have "inst_TaskID (task_instance env t) \<noteq> tid"
    using assms(3) by (simp add: task_instance_def NewInstance_def)
  then have "execs_avoid tid (sys_execs ?z)"
    using parts(3) assms(1) Dispatch_avoids [OF assms(2)] by (auto simp: absent_def)
  ultimately show ?thesis using assms(1) by (simp add: absent_def Store_TaskRecord_def)
qed

lemma absent_handoff:
  "absent tid y \<Longrightarrow> \<forall>n. wait_ok (he_wait (envs n)) \<Longrightarrow> \<forall>t \<in> set ts. task_ID t \<noteq> tid \<Longrightarrow>
   absent tid (snd (handoff_all fl envs None exec i err ts y))"
proof (induction ts arbitrary: i err y)
  case (Cons t ts)
  obtain e z where d: "dispatchOne fl (envs i) None exec t y = (e, z)" by fastforce
  then have "absent tid z"
    using absent_dispatchOne [OF Cons.prems(1), of "envs i" t fl exec] Cons.prems(2,3) by simp
  with Cons.IH [of z] Cons.prems(2,3) show ?case by (simp add: d)
qed simp

lemma absent_requeue:
  assumes "absent tid y" and "\<forall>t \<in> set ts. task_ID t \<noteq> tid"
  shows "absent tid (Dispatcher_requeue y ts)"
  using assms enq_all_members [of _ "sys_queue y" ts]
  by (intro absent_frame [OF assms(1)]) (auto simp: requeue_enq_all absent_def wq.enq_all_inv)

lemma absent_Tick:
  assumes "absent tid y" and "\<forall>n. wait_ok (he_wait (envs n))"
  shows "absent tid (snd (Tick fl envs None ks win y))"
proof -
  have q: "queue_inv (sys_queue y)" using assms(1) by (simp add: absent_def)
  have batch: "\<forall>t \<in> set (tick_batch y). task_ID t \<noteq> tid"
    using batch_queued [OF q] assms(1) by (auto simp: absent_def)
  have dr: "absent tid (drained y)"
    using batch_props(3,4) [OF q] assms(1) by (simp add: absent_def drained_def)
  show ?thesis
  proof (cases "Lease_Executors (sys_leases y) ks")
    case Nil
    then show ?thesis using absent_requeue [OF dr batch] by (simp add: Tick_cases [OF q])
  next
    case (Cons exec es)
    let ?z = "snd (handoff_all fl envs None exec 0 None (takeWhile (in_window win) (tick_batch y)) (drained y))"
    have "absent tid ?z"
      using batch by (intro absent_handoff [OF dr assms(2)]) (auto dest: set_takeWhileD)
    then have "absent tid (Dispatcher_requeue ?z (dropWhile (in_window win) (tick_batch y)))"
      using batch by (intro absent_requeue) (auto dest: set_dropWhileD)
    then show ?thesis by (simp add: Tick_cases [OF q] Cons Let_def case_prod_beta)
  qed
qed

lemma add_deps_waits:
  "graph_inv g \<Longrightarrow> waits (add_deps g t ds) t' d \<longleftrightarrow> waits g t' d \<or> (t' = t \<and> d \<in> set ds \<and> d \<noteq> [])"
  by (induction ds arbitrary: g) (auto simp: Graph_Add_inv waits_Add)

lemma Publish_records:
  "s_records (sys_store (snd (Broker_Publish y t))) =
     (case fst (Store_Append (sys_store y) t) of
        Inl e \<Rightarrow> s_records (sys_store y) | Inr q \<Rightarrow> (s_records (sys_store y))(task_ID t := None))"
proof -
  obtain res st where a: "Store_Append (sys_store y) t = (res, st)" by fastforce
  then have "s_records st = s_records (sys_store y)" using Append_frames(3) [of "sys_store y" t] by simp
  then show ?thesis
    by (cases res) (simp_all add: Broker_Publish_def a Let_def Store_ClearTaskRecord_def split: prod.split option.split)
qed

lemma absent_Publish:
  assumes "absent tid y" and "task_ID t \<noteq> tid \<or> \<not> Graph_Ready (sys_deps y) tid"
  shows "absent tid (snd (Broker_Publish y t))"
proof (rule absent_frame [OF assms(1)])
  show "queue_inv (sys_queue (snd (Broker_Publish y t)))"
    using assms(1) by (auto simp: Publish_queue absent_def Enqueue_inv split: sum.split)
  show "Store_TaskRecord (sys_store (snd (Broker_Publish y t))) tid = None"
    using assms(1) by (simp add: Store_TaskRecord_def Publish_records absent_def split: sum.split)
  show "u \<in># queue_contents (sys_queue y) \<or> task_ID u \<noteq> tid"
    if u: "u \<in># queue_contents (sys_queue (snd (Broker_Publish y t)))" for u
    using u assms(2) enq_all_members [of u "sys_queue y" "[t\<lparr>task_Sequence := q\<rparr>]" for q]
    by (fastforce simp: Publish_queue split: sum.splits if_splits)
qed simp_all

lemma absent_deps [simp]: "absent tid (y\<lparr>sys_deps := g\<rparr>) = absent tid y"
  by (simp add: absent_def)

lemma absent_event:
  assumes "absent tid y" and "event_ok ev" and "\<not> publishes tid ev \<or> \<not> Graph_Ready (sys_deps (sys_step fl cfg y ev)) tid"
  shows "absent tid (sys_step fl cfg y ev)"
proof (cases ev)
  case (EvPublishReq i k now created m req)
  show ?thesis
  proof (cases "sys_step fl cfg y ev = y")
    case False
    then obtain t ds where t: "task_ID t = i"
      "sys_step fl cfg y ev = snd (Broker_Publish (y\<lparr>sys_deps := add_deps (sys_deps y) i ds\<rparr>) t)"
      using handlePublish_step [of i k now created m req y] by (auto simp: EvPublishReq)
    show ?thesis unfolding t(2)
      using assms(1,3) t by (intro absent_Publish) (auto simp: EvPublishReq)
  qed (simp add: assms(1))
next
  case (EvExecutorReq now m req)
  have "absent tid (y\<lparr>sys_execs := snd (Manager_Add (sys_execs y) e),
      sys_leases := snd (Lease_Acquire (sys_leases y) e now)\<rparr>)" for e
    using assms(1) by (auto simp: absent_def execs_avoid_def runner_avoids_def NewRunner_def split: if_splits)
  then show ?thesis
    using handleExecutor_step [of now m req y] assms(1) by (auto simp: EvExecutorReq)
next
  case (EvClockTick envs ks now)
  then show ?thesis using absent_Tick [OF assms(1)] assms(2) by (simp add: main_tick_def)
next
  case (EvSweep drain now clock ks ks')
  have "absent tid (Evictor_Evict drain z e)" if "absent tid z" for z e
  proof -
    have "sys_store (Evictor_Evict drain z e) = sys_store z" "sys_queue (Evictor_Evict drain z e) = sys_queue z"
      by (simp_all add: Evictor_Evict_def Let_def split: prod.split bool.split)
    with that show ?thesis by (simp add: absent_def execs_avoid_def Evict_execs)
  qed
  then have "absent tid (foldl (Evictor_Evict drain) z es)" if "absent tid z" for z es
    using that by (induction es arbitrary: z) simp_all
  then have "absent tid (foldl (Evictor_Evict drain) y (Lease_ExpiredLeases (sys_leases y) now ks))"
    using assms(1) by simp
  then show ?thesis by (simp add: EvSweep Heartbeat_sweep_def Let_def absent_def)
next
  case (EvWorker exec)
  show ?thesis
  proof (cases "worker_turn exec y = y")
    case True
    with assms(1) show ?thesis by (simp add: EvWorker)
  next
    case False
    then obtain r i rest where r: "Manager_Get (sys_execs y) exec = Some r" "rn_in r = i # rest" "\<not> rn_closed r"
      by (auto simp: worker_turn_def split: option.splits list.splits if_splits)
    have "runner_avoids tid r" using assms(1) r(1) by (auto simp: absent_def execs_avoid_def)
    then have "inst_TaskID i \<noteq> tid" "runner_avoids tid (release (r\<lparr>rn_in := rest\<rparr>) i)"
      using r(2) by (auto simp: runner_avoids_def release_def)
    then show ?thesis using assms(1) r
      by (simp add: EvWorker worker_turn_def absent_def main_handler_def execs_avoid_def
          Store_TaskRecord_def Store_RecordTaskExecution_def)
  qed
qed

text \<open>Nothing in the program satisfies a dependency: what a task waits for once, it waits for ever.\<close>

lemma event_deps:
  "sys_deps (sys_step fl cfg y ev) = sys_deps y \<or> (\<exists>i ds. sys_deps (sys_step fl cfg y ev) = add_deps (sys_deps y) i ds)"
proof (cases ev)
  case (EvPublishReq i k now created m req)
  then show ?thesis using handlePublish_step [of i k now created m req y] by (auto, blast)
next
  case (EvExecutorReq now m req)
  then show ?thesis using handleExecutor_step [of now m req y] by auto
next
  case (EvClockTick envs ks now)
  have "sys_deps (snd (Tick fl envs None ks win y)) = sys_deps y" for win
    by (simp add: Tick_def Let_def tick_loop_split requeue_enq_all case_prod_beta)
  then show ?thesis by (simp add: EvClockTick main_tick_def)
next
  case (EvSweep drain now clock ks ks')
  have "sys_deps (Evictor_Evict drain z e) = sys_deps z" for z e
    by (simp add: Evictor_Evict_def Let_def split: prod.split bool.split)
  then have "sys_deps (foldl (Evictor_Evict drain) z es) = sys_deps z" for z es
    by (induction es arbitrary: z) simp_all
  then show ?thesis by (simp add: EvSweep Heartbeat_sweep_def Let_def)
next
  case (EvWorker exec)
  then show ?thesis
    by (simp add: worker_turn_def main_handler_def split: option.split list.split)
qed

lemma event_waits:
  "graph_inv (sys_deps y) \<Longrightarrow> waits (sys_deps y) t d \<Longrightarrow>
   graph_inv (sys_deps (sys_step fl cfg y ev)) \<and> waits (sys_deps (sys_step fl cfg y ev)) t d"
  using event_deps [of fl cfg y ev] by (auto simp: add_deps_inv add_deps_waits)

lemma absent_events:
  "absent tid y \<Longrightarrow> \<forall>ev \<in> set evs. event_ok ev \<and> \<not> publishes tid ev \<Longrightarrow>
   absent tid (foldl (sys_step fl cfg) y evs)"
  by (induction evs arbitrary: y) (simp_all add: absent_event)

lemma stranded_events:
  "absent tid y \<Longrightarrow> graph_inv (sys_deps y) \<Longrightarrow> waits (sys_deps y) tid d \<Longrightarrow> \<forall>ev \<in> set evs. event_ok ev \<Longrightarrow>
   absent tid (foldl (sys_step fl cfg) y evs) \<and> waits (sys_deps (foldl (sys_step fl cfg) y evs)) tid d"
proof (induction evs arbitrary: y)
  case (Cons ev evs)
  note w = event_waits [OF Cons.prems(2,3), of fl cfg ev]
  then have "\<not> Graph_Ready (sys_deps (sys_step fl cfg y ev)) tid" by (auto simp: Ready_iff)
  then have "absent tid (sys_step fl cfg y ev)"
    using Cons.prems(1,4) by (intro absent_event) simp_all
  with Cons.IH [of "sys_step fl cfg y ev"] w Cons.prems(4) show ?case by simp
qed simp

lemma absent_main: "absent tid (main_state fl cfg)"
  by (simp add: absent_def main_state_def queue_inv_new execs_avoid_def NewManager_def Manager_Get_def
      Store_TaskRecord_def NewStore_def)

lemma accepted_request:
  assumes "fst (handlePublish i k now created m (Some req) y) = RespAccepted seq tid"
  shows "sys_deps (snd (handlePublish i k now created m (Some req) y)) = add_deps (sys_deps y) i (pr_DependsOn req)"
    and "tid = i"
proof -
  have id: "task_ID (NewTask i k created g p due) = i" for g p due by (simp add: NewTask_def)
  let ?t = "NewTask i k created (pr_Group req) (pr_Payload req) (now + wrap64 (pr_DueAfter req * millisecond))"
  let ?y = "y\<lparr>sys_deps := add_deps (sys_deps y) i (pr_DependsOn req)\<rparr>"
  have h: "handlePublish i k now created m (Some req) y =
      (case Broker_Publish ?y ?t of
         (Inl e, y) \<Rightarrow> (error_response e, y) | (Inr seq, y) \<Rightarrow> (RespAccepted seq (task_ID ?t), y))"
    using assms by (auto simp: handlePublish_def Let_def id [of "pr_Group req"] split: if_splits)
  obtain res z where r: "Broker_Publish ?y ?t = (res, z)" by fastforce
  then have "sys_deps z = sys_deps ?y" using Publish_frames(1) [of ?y ?t] by simp
  then show "sys_deps (snd (handlePublish i k now created m (Some req) y)) = add_deps (sys_deps y) i (pr_DependsOn req)"
    by (cases res) (simp_all add: h r)
  show "tid = i" using assms by (cases res) (simp_all add: h r id error_response_def)
qed

end
