(* ===== verification/Requests.thy ===== *)
theory Requests
  imports System
begin

text \<open>
  The HTTP interface of \<open>cmd/jobsched/server.go\<close>: the routing table of \<open>Handler\<close> over the handlers
  of \<open>Server\<close>, and what the program promises to the sender of a request.  The path is the one the
  library's multiplexer matches, that is, after it has cleaned it.
\<close>

section \<open>Routing\<close>

text \<open>
  A request, with what the JSON decoder makes of its body for either handler, and what a handler
  reads from outside the state: uuids, instants, the orders in which tables are visited, the text of
  instants, and the embedded page.
\<close>

record http_request =
  hr_Method :: string
  hr_Path :: string
  hr_Publish :: "publish_request option"
  hr_Executor :: "string option"

record request_env =
  re_task_uuid :: string
  re_key_uuid :: string
  re_now :: time
  re_created :: time
  re_format :: "time \<Rightarrow> string"
  re_tasks :: "string list"
  re_execs :: "executor_id list"
  re_page :: string

definition Server_Handler :: "request_env \<Rightarrow> http_request \<Rightarrow> system \<Rightarrow> response \<times> system" where
  "Server_Handler env rq y =
     (if hr_Path rq = ''/healthz'' then (handleHealth (re_format env (re_now env)), y)
      else if hr_Path rq = ''/api/status''
      then (handleStatus (re_format env) (re_tasks env) (re_execs env) y, y)
      else if hr_Path rq = ''/api/publish''
      then handlePublish (re_task_uuid env) (re_key_uuid env) (re_now env) (re_created env)
             (hr_Method rq) (hr_Publish rq) y
      else if hr_Path rq = ''/executors''
      then handleExecutor (re_now env) (hr_Method rq) (hr_Executor rq) y
      else (handleConsole (re_page env) (hr_Path rq), y))"

text \<open>The status code each response is sent with.\<close>

fun response_code :: "response \<Rightarrow> int" where
  "response_code RespMethodNotAllowed = 405"
| "response_code (RespBadRequest msg) = 400"
| "response_code RespNotFound = 404"
| "response_code (RespAccepted seq tid) = 200"
| "response_code (RespRegistered e slot) = 200"
| "response_code (RespStatus page) = 200"
| "response_code (RespHealth st now) = 200"
| "response_code (RespPage html) = 200"

section \<open>What the two changing handlers do\<close>

lemma handleExecutor_ok:
  assumes "handleExecutor now m body y = (resp, z)"
  shows "(response_code resp = 200 \<longleftrightarrow> m = ''POST'' \<and> (\<exists>e. body = Some e \<and> e \<noteq> []))
    \<and> (response_code resp \<noteq> 200 \<longrightarrow> z = y)
    \<and> (response_code resp = 200 \<longrightarrow> (\<exists>e slot. body = Some e \<and> resp = RespRegistered e slot
        \<and> lm_slotOf (sys_leases z) e = Some slot \<and> Manager_Get (sys_execs z) e \<noteq> None))"
proof (cases "m = ''POST'' \<and> (\<exists>e. body = Some e \<and> e \<noteq> [])")
  case True
  then obtain e where e: "m = ''POST''" "body = Some e" "e \<noteq> []" by blast
  obtain slot ok l where l: "Lease_Acquire (sys_leases y) e now = ((slot, ok), l)" by (metis prod.exhaust)
  have "lm_slotOf l e = Some slot"
    using l by (auto simp: Lease_Acquire_def Let_def split: option.splits)
  with e l assms show ?thesis by (auto simp: handleExecutor_def Let_def)
next
  case False
  with assms show ?thesis by (auto simp: handleExecutor_def split: option.splits if_splits)
qed

lemma handlePublish_ok:
  assumes "sys_inv y" and "s_seq (sys_store y) < max_int64"
    and "handlePublish i k now created m body y = (resp, z)"
  shows "(m \<noteq> ''POST'' \<longrightarrow> z = y \<and> response_code resp = 405)
    \<and> (response_code resp = 200 \<longrightarrow> resp = RespAccepted (s_seq (sys_store y) + 1) i
        \<and> Registry_Get (sys_reg z) i \<noteq> None \<and> s_seq (sys_store y) + 1 \<le> Broker_Progress z
        \<and> (Graph_Ready (sys_deps z) i \<longrightarrow> (\<exists>t \<in># queue_contents (sys_queue z). task_ID t = i)))
    \<and> (response_code resp \<noteq> 200 \<and> z \<noteq> y \<longrightarrow> sys_queue z = sys_queue y \<and> sys_progress z = sys_progress y
        \<and> (resp = RespBadRequest ''task store is full'' \<and> store_items (sys_store z) = store_items (sys_store y)
             \<and> sys_reg z = sys_reg y
          \<or> resp = RespBadRequest ''waiting queue is full''
             \<and> (\<exists>t. task_ID t = i \<and> store_items (sys_store z) = store_items (sys_store y) @ [t]
                  \<and> Registry_Get (sys_reg z) i = Some t)))"
proof (cases "m = ''POST'' \<and> (\<exists>req. body = Some req \<and> \<not> trims_to_empty (pr_Group req))")
  case False
  with assms(3) show ?thesis by (auto simp: handlePublish_def split: option.splits if_splits)
next
  case True
  then obtain req where req: "m = ''POST''" "body = Some req" "\<not> trims_to_empty (pr_Group req)" by blast
  let ?t = "NewTask i k created (pr_Group req) (pr_Payload req) (now + wrap64 (pr_DueAfter req * millisecond))"
  let ?y = "y\<lparr>sys_deps := add_deps (sys_deps y) i (pr_DependsOn req)\<rparr>"
  have i: "task_ID ?t = i" by (simp add: NewTask_def)
  have st: "store_inv (sys_store ?y)" "s_seq (sys_store ?y) < max_int64"
    using assms(1,2) by (simp_all add: sys_inv_def)
  obtain res w where w: "Broker_Publish ?y ?t = (res, w)" by fastforce
  have out: "z = w \<and> resp = (case res of Inl e \<Rightarrow> error_response e | Inr q \<Rightarrow> RespAccepted q i)"
    using assms(3) req w i by (simp add: handlePublish_def Let_def split: sum.splits)
  have items: "store_items (sys_store w) = (if Store_Len (sys_store y) < r_cap (s_ring (sys_store y))
      then store_items (sys_store y) @ [published_task ?y ?t] else store_items (sys_store y))"
    using Publish_store(3) [OF st, of ?t] w by simp
  have id: "task_ID (published_task ?y ?t) = i" using i by (simp add: published_task_def)
  show ?thesis
    using Publish_cases [OF st, of ?t] w out items id i req(1) Enqueue_ok(2) [of "sys_queue y" "published_task ?y ?t"]
    by (auto simp: Let_def error_response_def Broker_Progress_def Cursor_Position_def Cursor_Advance_def
        published_task_def Queue_Len_def split: if_splits)
qed

section \<open>Properties\<close>

text \<open>
  C15: what the HTTP interface promises.  In every reachable state: a request that is not a POST
  changes nothing; an accepted publish is answered with the next sequence and the id of a task that
  is then registered, counted in the progress and, unless it waits for a dependency, queued; a
  registered executor holds the slot it is told and has a runner; and a request that is answered
  with an error changes nothing, except a valid publish that meets a full store (which leaves the
  retained tasks, the registry, the queue and the progress as they are) or a full queue (which
  leaves the task retained and registered, but neither queued nor in the progress).
\<close>

theorem api_contract:
  assumes "\<forall>ev \<in> set evs. event_ok ev" and "int (length evs) < max_int64"
    and "y = foldl (sys_step fl cfg) (main_state fl cfg) evs"
    and "Server_Handler env rq y = (resp, z)"
  shows "(hr_Method rq \<noteq> ''POST'' \<longrightarrow> z = y)
    \<and> (hr_Path rq = ''/api/publish'' \<and> response_code resp = 200 \<longrightarrow>
        resp = RespAccepted (s_seq (sys_store y) + 1) (re_task_uuid env)
        \<and> Registry_Get (sys_reg z) (re_task_uuid env) \<noteq> None \<and> s_seq (sys_store y) + 1 \<le> Broker_Progress z
        \<and> (Graph_Ready (sys_deps z) (re_task_uuid env) \<longrightarrow>
            (\<exists>t \<in># queue_contents (sys_queue z). task_ID t = re_task_uuid env)))
    \<and> (hr_Path rq = ''/executors'' \<and> response_code resp = 200 \<longrightarrow>
        (\<exists>e slot. hr_Executor rq = Some e \<and> resp = RespRegistered e slot
          \<and> lm_slotOf (sys_leases z) e = Some slot \<and> Manager_Get (sys_execs z) e \<noteq> None))
    \<and> (response_code resp \<noteq> 200 \<and> z \<noteq> y \<longrightarrow> hr_Path rq = ''/api/publish''
        \<and> sys_queue z = sys_queue y \<and> sys_progress z = sys_progress y
        \<and> (resp = RespBadRequest ''task store is full'' \<and> store_items (sys_store z) = store_items (sys_store y)
             \<and> sys_reg z = sys_reg y
          \<or> resp = RespBadRequest ''waiting queue is full''
             \<and> (\<exists>t. task_ID t = re_task_uuid env \<and> store_items (sys_store z) = store_items (sys_store y) @ [t]
                  \<and> Registry_Get (sys_reg z) (re_task_uuid env) = Some t)))"
proof -
  have inv: "sys_inv y" "s_seq (sys_store y) < max_int64"
    using events_inv [OF assms(1) less_imp_le [OF assms(2)], of fl cfg] assms(2,3) by simp_all
  consider (publish) "hr_Path rq = ''/api/publish''" | (executor) "hr_Path rq = ''/executors''"
    | (other) "hr_Path rq \<noteq> ''/api/publish''" "hr_Path rq \<noteq> ''/executors''" by blast
  then show ?thesis
  proof cases
    case publish
    then have h: "handlePublish (re_task_uuid env) (re_key_uuid env) (re_now env) (re_created env)
        (hr_Method rq) (hr_Publish rq) y = (resp, z)"
      using assms(4) by (simp add: Server_Handler_def)
    show ?thesis using handlePublish_ok [OF inv h] publish by simp
  next
    case executor
    then have h: "handleExecutor (re_now env) (hr_Method rq) (hr_Executor rq) y = (resp, z)"
      using assms(4) by (simp add: Server_Handler_def)
    show ?thesis using handleExecutor_ok [OF h] executor by auto
  next
    case other
    then have "z = y" using assms(4) by (auto simp: Server_Handler_def split: if_splits)
    with other show ?thesis by simp
  qed
qed

definition sample_request_env :: request_env where
  "sample_request_env = \<lparr>re_task_uuid = ''t'', re_key_uuid = ''k'', re_now = 5, re_created = 5,
     re_format = (\<lambda>t. ''now''), re_tasks = [], re_execs = [], re_page = ''page''\<rparr>"

theorem api_contract_witness:
  "\<exists>z. Server_Handler sample_request_env
      \<lparr>hr_Method = ''POST'', hr_Path = ''/executors'', hr_Publish = None, hr_Executor = Some ''w''\<rparr>
      (main_state id (Load ''x'')) = (RespRegistered ''w'' 0, z)
    \<and> lm_slotOf (sys_leases z) ''w'' = Some 0 \<and> Manager_Get (sys_execs z) ''w'' \<noteq> None"
proof -
  let ?rq = "\<lparr>hr_Method = ''POST'', hr_Path = ''/executors'', hr_Publish = None, hr_Executor = Some ''w''\<rparr>"
  define y where "y = foldl (sys_step id (Load ''x'')) (main_state id (Load ''x'')) []"
  obtain resp z where h: "Server_Handler sample_request_env ?rq y = (resp, z)" by fastforce
  have ok: "\<forall>ev \<in> set []. event_ok ev" "int (length ([] :: sys_event list)) < max_int64" by simp_all
  have "fst (Server_Handler sample_request_env ?rq y) = RespRegistered ''w'' 0"
    by (simp add: Server_Handler_def handleExecutor_def y_def main_state_def Lease_New_def Lease_Acquire_def Let_def)
  then have resp: "resp = RespRegistered ''w'' 0" by (simp add: h)
  from api_contract [OF ok y_def h] resp
  have "lm_slotOf (sys_leases z) ''w'' = Some 0 \<and> Manager_Get (sys_execs z) ''w'' \<noteq> None" by auto
  then show ?thesis using h resp by (simp add: y_def)
qed

end
