(* ===== verification/Objects.thy ===== *)
theory Objects
  imports Requests
begin

text \<open>
  The objects \<open>main\<close> of \<open>cmd/jobsched/main.go\<close> allocates and the pointers between them.  The other
  theories let all parts work on one record \<open>system\<close>; here every part has the pointers its constructor
  stored, each method reads and writes the object its own pointer leads to, and the memory is
  explicit.  That the program with its pointers behaves as the one with the record rests on the
  wiring: a part that got an object of its own would see nothing of what the others do.
\<close>

section \<open>Memory\<close>

text \<open>
  An object of a kind is at an index of the list of its kind; allocating appends.  The runners are
  reached only through the manager's map and stay in it (\<open>Executors\<close>).
\<close>

type_synonym ref = nat

record dispatcher =
  dp_queue :: ref
  dp_store :: ref
  dp_reg :: ref
  dp_leases :: ref
  dp_execs :: ref
  dp_metrics :: ref
  dp_flow :: ref
  dp_cache :: "string \<rightharpoonup> window_entry"
  dp_hits :: uint64
  dp_misses :: uint64

record memory =
  mem_store :: "store list"
  mem_queue :: "queue list"
  mem_reg :: "registry list"
  mem_deps :: "graph list"
  mem_metrics :: "metrics list"
  mem_execs :: "exec_manager list"
  mem_leases :: "lease_manager list"
  mem_flow :: "limiter list"
  mem_progress :: "cursor list"
  mem_disp :: "dispatcher list"

definition no_objects :: memory where
  "no_objects = \<lparr>mem_store = [], mem_queue = [], mem_reg = [], mem_deps = [], mem_metrics = [],
     mem_execs = [], mem_leases = [], mem_flow = [], mem_progress = [], mem_disp = []\<rparr>"

text \<open>Writing an object back after a method has changed it.\<close>

definition put_store :: "ref \<Rightarrow> store \<Rightarrow> memory \<Rightarrow> memory" where
  "put_store a x m = m\<lparr>mem_store := (mem_store m)[a := x]\<rparr>"
definition put_queue :: "ref \<Rightarrow> queue \<Rightarrow> memory \<Rightarrow> memory" where
  "put_queue a x m = m\<lparr>mem_queue := (mem_queue m)[a := x]\<rparr>"
definition put_reg :: "ref \<Rightarrow> registry \<Rightarrow> memory \<Rightarrow> memory" where
  "put_reg a x m = m\<lparr>mem_reg := (mem_reg m)[a := x]\<rparr>"
definition put_deps :: "ref \<Rightarrow> graph \<Rightarrow> memory \<Rightarrow> memory" where
  "put_deps a x m = m\<lparr>mem_deps := (mem_deps m)[a := x]\<rparr>"
definition put_metrics :: "ref \<Rightarrow> metrics \<Rightarrow> memory \<Rightarrow> memory" where
  "put_metrics a x m = m\<lparr>mem_metrics := (mem_metrics m)[a := x]\<rparr>"
definition put_execs :: "ref \<Rightarrow> exec_manager \<Rightarrow> memory \<Rightarrow> memory" where
  "put_execs a x m = m\<lparr>mem_execs := (mem_execs m)[a := x]\<rparr>"
definition put_leases :: "ref \<Rightarrow> lease_manager \<Rightarrow> memory \<Rightarrow> memory" where
  "put_leases a x m = m\<lparr>mem_leases := (mem_leases m)[a := x]\<rparr>"
definition put_flow :: "ref \<Rightarrow> limiter \<Rightarrow> memory \<Rightarrow> memory" where
  "put_flow a x m = m\<lparr>mem_flow := (mem_flow m)[a := x]\<rparr>"
definition put_progress :: "ref \<Rightarrow> cursor \<Rightarrow> memory \<Rightarrow> memory" where
  "put_progress a x m = m\<lparr>mem_progress := (mem_progress m)[a := x]\<rparr>"

section \<open>The parts and their constructors\<close>

text \<open>
  The fields of a broker, an evictor, a heartbeat and a server are never assigned after construction
  (except the listener of the server, which \<open>ListenAndServe\<close> sets), so these objects are values.  The
  dispatcher has counters and a cache of its own and is an object; its test hook is nil.
\<close>

record broker =
  bk_store :: ref
  bk_queue :: ref
  bk_reg :: ref
  bk_deps :: ref
  bk_metrics :: ref
  bk_progress :: ref

definition Broker_New :: "ref \<Rightarrow> ref \<Rightarrow> ref \<Rightarrow> ref \<Rightarrow> ref \<Rightarrow> memory \<Rightarrow> broker \<times> memory" where
  "Broker_New s q reg g metrics m =
     (\<lparr>bk_store = s, bk_queue = q, bk_reg = reg, bk_deps = g, bk_metrics = metrics,
       bk_progress = length (mem_progress m)\<rparr>,
      m\<lparr>mem_progress := mem_progress m @ [NewCursor]\<rparr>)"

definition Dispatcher_New ::
  "ref \<Rightarrow> ref \<Rightarrow> ref \<Rightarrow> ref \<Rightarrow> ref \<Rightarrow> ref \<Rightarrow> ref \<Rightarrow> memory \<Rightarrow> ref \<times> memory" where
  "Dispatcher_New q s reg leases execs metrics limiter m =
     (length (mem_disp m),
      m\<lparr>mem_disp := mem_disp m @
          [\<lparr>dp_queue = q, dp_store = s, dp_reg = reg, dp_leases = leases, dp_execs = execs,
            dp_metrics = metrics, dp_flow = limiter, dp_cache = Map.empty, dp_hits = 0, dp_misses = 0\<rparr>]\<rparr>)"

record evictor =
  ev_leases :: ref
  ev_execs :: ref
  ev_metrics :: ref

definition NewEvictor :: "ref \<Rightarrow> ref \<Rightarrow> ref \<Rightarrow> evictor" where
  "NewEvictor leases execs metrics = \<lparr>ev_leases = leases, ev_execs = execs, ev_metrics = metrics\<rparr>"

record heartbeat =
  hb_leases :: ref
  hb_execs :: ref
  hb_metrics :: ref
  hb_interval :: duration
  hb_timeout :: duration
  hb_evictor :: evictor

definition Heartbeat_New :: "ref \<Rightarrow> ref \<Rightarrow> ref \<Rightarrow> duration \<Rightarrow> duration \<Rightarrow> heartbeat" where
  "Heartbeat_New leases execs metrics interval timeout =
     \<lparr>hb_leases = leases, hb_execs = execs, hb_metrics = metrics, hb_interval = interval,
      hb_timeout = timeout, hb_evictor = NewEvictor leases execs metrics\<rparr>"

definition Heartbeat_Evictor :: "heartbeat \<Rightarrow> evictor" where
  "Heartbeat_Evictor h = hb_evictor h"

record server =
  sv_cfg :: config
  sv_reg :: ref
  sv_deps :: ref
  sv_leases :: ref
  sv_execs :: ref
  sv_metrics :: ref
  sv_broker :: broker
  sv_dispatcher :: ref
  sv_store :: ref
  sv_httpSrv :: "string option"

definition NewServer ::
  "config \<Rightarrow> ref \<Rightarrow> ref \<Rightarrow> ref \<Rightarrow> ref \<Rightarrow> ref \<Rightarrow> broker \<Rightarrow> ref \<Rightarrow> ref \<Rightarrow> server" where
  "NewServer cfg reg g leases execs metrics broker dispatcher st =
     \<lparr>sv_cfg = cfg, sv_reg = reg, sv_deps = g, sv_leases = leases, sv_execs = execs,
      sv_metrics = metrics, sv_broker = broker, sv_dispatcher = dispatcher, sv_store = st,
      sv_httpSrv = None\<rparr>"

text \<open>What the handler of \<open>main\<close>, a function literal, refers to.\<close>

record handler_env =
  hd_store :: ref
  hd_metrics :: ref

text \<open>The local variables of \<open>main\<close> the program runs on.\<close>

record program =
  pg_server :: server
  pg_heart :: heartbeat
  pg_dispatcher :: ref
  pg_handler :: handler_env
  pg_execs :: ref

definition main_objects :: "(rat \<Rightarrow> rat) \<Rightarrow> config \<Rightarrow> program \<times> memory" where
  "main_objects fl cfg =
     (let m = no_objects;
          st = length (mem_store m);
          m = m\<lparr>mem_store := mem_store m @ [NewStore (cfg_StoreCapacity cfg)]\<rparr>;
          q = length (mem_queue m);
          m = m\<lparr>mem_queue := mem_queue m @ [Queue_New (cfg_QueueSize cfg)]\<rparr>;
          reg = length (mem_reg m);
          m = m\<lparr>mem_reg := mem_reg m @ [Registry_New]\<rparr>;
          dg = length (mem_deps m);
          m = m\<lparr>mem_deps := mem_deps m @ [Graph_New]\<rparr>;
          metrics = length (mem_metrics m);
          m = m\<lparr>mem_metrics := mem_metrics m @ [Metric_New]\<rparr>;
          handler = \<lparr>hd_store = st, hd_metrics = metrics\<rparr>;
          execs = length (mem_execs m);
          m = m\<lparr>mem_execs := mem_execs m @ [NewManager (cfg_RunnerQueue cfg)]\<rparr>;
          leases = length (mem_leases m);
          m = m\<lparr>mem_leases := mem_leases m @ [Lease_New (cfg_LeaseTimeout cfg)]\<rparr>;
          limiter = length (mem_flow m);
          m = m\<lparr>mem_flow := mem_flow m @ [NewLimiter fl (cfg_Flow cfg)]\<rparr>;
          (dispatcher, m) = Dispatcher_New q st reg leases execs metrics limiter m;
          (broker, m) = Broker_New st q reg dg metrics m;
          heart = Heartbeat_New leases execs metrics (cfg_HeartbeatEvery cfg) (cfg_LeaseTimeout cfg);
          srv = NewServer cfg reg dg leases execs metrics broker dispatcher st
      in (\<lparr>pg_server = srv, pg_heart = heart, pg_dispatcher = dispatcher, pg_handler = handler,
           pg_execs = execs\<rparr>, m))"

section \<open>Methods that follow their pointers\<close>

definition Broker_Publish_at :: "broker \<Rightarrow> task \<Rightarrow> memory \<Rightarrow> (go_error + int64) \<times> memory" where
  "Broker_Publish_at b t m =
     (case Store_Append (mem_store m ! bk_store b) t of
        (Inl err, st) \<Rightarrow> (Inl err, put_store (bk_store b) st m)
      | (Inr seq, st) \<Rightarrow>
          let m = put_store (bk_store b) st m;
              t = t\<lparr>task_Sequence := seq\<rparr>;
              m = put_store (bk_store b) (Store_ClearTaskRecord (mem_store m ! bk_store b) (task_ID t)) m;
              m = put_reg (bk_reg b) (Registry_Register (mem_reg m ! bk_reg b) t) m;
              (err, m) = (if Graph_Ready (mem_deps m ! bk_deps b) (task_ID t)
                          then (let (err, q) = Queue_Enqueue (mem_queue m ! bk_queue b) t
                                in (err, put_queue (bk_queue b) q m))
                          else (None, m))
          in (case err of
                Some e \<Rightarrow> (Inl e, m)
              | None \<Rightarrow>
                  let m = put_progress (bk_progress b) (Cursor_Advance (mem_progress m ! bk_progress b) seq) m;
                      m = put_metrics (bk_metrics b) (Published (mem_metrics m ! bk_metrics b)) m
                  in (Inr seq, m)))"

definition Broker_Progress_at :: "broker \<Rightarrow> memory \<Rightarrow> int64" where
  "Broker_Progress_at b m = Cursor_Position (mem_progress m ! bk_progress b)"

definition markDispatched_at :: "dispatcher \<Rightarrow> int64 \<Rightarrow> memory \<Rightarrow> memory" where
  "markDispatched_at d seq m =
     put_store (dp_store d) (Store_MarkDispatched (mem_store m ! dp_store d) seq True) m"

definition dispatchOne_at ::
  "(rat \<Rightarrow> rat) \<Rightarrow> handoff_env \<Rightarrow> dispatcher \<Rightarrow> executor_id \<Rightarrow> task \<Rightarrow> memory \<Rightarrow> go_error option \<times> memory" where
  "dispatchOne_at fl env d exec t m =
     (let (ok, lim) = Allow fl (mem_flow m ! dp_flow d) exec (he_now env);
          m = put_flow (dp_flow d) lim m
      in if \<not> ok then (Some ErrLimited, m)
         else
           let (err, em) = Manager_Dispatch (he_wait env) (mem_execs m ! dp_execs d) exec (task_instance env t);
               m = put_execs (dp_execs d) em m
           in (case err of
                 Some e \<Rightarrow> (Some e, put_metrics (dp_metrics d) (Failed (mem_metrics m ! dp_metrics d)) m)
               | None \<Rightarrow>
                   let m = markDispatched_at d (task_Sequence t) m;
                       (cerr, st) = Store_Commit (mem_store m ! dp_store d) (task_Sequence t);
                       m = put_store (dp_store d) st m
                   in (case cerr of
                         Some e \<Rightarrow> (Some e, put_metrics (dp_metrics d) (Failed (mem_metrics m ! dp_metrics d)) m)
                       | None \<Rightarrow>
                           let m = put_reg (dp_reg d)
                                     (Registry_SetState (mem_reg m ! dp_reg d) (task_ID t) TaskDispatched) m;
                               m = put_metrics (dp_metrics d) (Metric_Dispatched (mem_metrics m ! dp_metrics d)) m
                           in (None, m))))"

fun requeue_at :: "dispatcher \<Rightarrow> task list \<Rightarrow> memory \<Rightarrow> memory" where
  "requeue_at d [] m = m"
| "requeue_at d (t # ts) m =
     requeue_at d ts (put_queue (dp_queue d) (snd (Queue_Enqueue (mem_queue m ! dp_queue d) t)) m)"

fun tick_loop_at ::
  "(rat \<Rightarrow> rat) \<Rightarrow> (nat \<Rightarrow> handoff_env) \<Rightarrow> dispatcher \<Rightarrow> executor_id \<Rightarrow> window \<Rightarrow> nat \<Rightarrow>
   go_error option \<Rightarrow> task list \<Rightarrow> memory \<Rightarrow> go_error option \<times> memory" where
  "tick_loop_at fl envs d exec win i firstErr [] m = (firstErr, m)"
| "tick_loop_at fl envs d exec win i firstErr (t # ts) m =
     (if \<not> Window_Contains win (task_DueAt t) then (firstErr, requeue_at d (t # ts) m)
      else
        let (err, m) = dispatchOne_at fl (envs i) d exec t m
        in tick_loop_at fl envs d exec win (i + 1)
             (if err \<noteq> None \<and> firstErr = None then err else firstErr) ts m)"

definition Tick_at ::
  "(rat \<Rightarrow> rat) \<Rightarrow> (nat \<Rightarrow> handoff_env) \<Rightarrow> executor_id list \<Rightarrow> window \<Rightarrow> ref \<Rightarrow> memory \<Rightarrow>
   go_error option \<times> memory" where
  "Tick_at fl envs ks win a m =
     (let d = mem_disp m ! a;
          (batch, q) = Queue_Drain (mem_queue m ! dp_queue d);
          m = put_queue (dp_queue d) q m
      in if length batch = 0 then (None, m)
         else
           let executors = Lease_Executors (mem_leases m ! dp_leases d) ks
           in if length executors = 0 then (None, requeue_at d batch m)
              else tick_loop_at fl envs d (executors ! 0) win 0 None batch m)"

definition CacheStats_at :: "ref \<Rightarrow> memory \<Rightarrow> uint64 \<times> uint64" where
  "CacheStats_at a m = (dp_hits (mem_disp m ! a), dp_misses (mem_disp m ! a))"

definition Evictor_Evict_at :: "(runner \<Rightarrow> runner) \<Rightarrow> evictor \<Rightarrow> memory \<Rightarrow> executor_id \<Rightarrow> memory" where
  "Evictor_Evict_at drain e m exec =
     (case Lease_Evict (mem_leases m ! ev_leases e) exec of
        (False, lm) \<Rightarrow> put_leases (ev_leases e) lm m
      | (True, lm) \<Rightarrow>
          let m = put_leases (ev_leases e) lm m;
              m = (case Manager_Get (mem_execs m ! ev_execs e) exec of
                     Some r \<Rightarrow> put_execs (ev_execs e) (Manager_Put (mem_execs m ! ev_execs e) exec (Shutdown drain r)) m
                   | None \<Rightarrow> m);
              m = put_execs (ev_execs e) (Manager_Remove (mem_execs m ! ev_execs e) exec) m
          in put_metrics (ev_metrics e) (Evicted (mem_metrics m ! ev_metrics e)) m)"

definition Heartbeat_expired_at :: "heartbeat \<Rightarrow> memory \<Rightarrow> executor_id \<Rightarrow> time \<Rightarrow> bool" where
  "Heartbeat_expired_at h m exec now = Lease_Expired (mem_leases m ! hb_leases h) exec now"

definition Heartbeat_Renew_at :: "heartbeat \<Rightarrow> executor_id \<Rightarrow> time \<Rightarrow> memory \<Rightarrow> bool \<times> memory" where
  "Heartbeat_Renew_at h exec clock_now m =
     (let (ok, lm) = Lease_Renew (mem_leases m ! hb_leases h) exec clock_now
      in (ok, put_leases (hb_leases h) lm m))"

fun renew_loop_at :: "heartbeat \<Rightarrow> time \<Rightarrow> (executor_id \<Rightarrow> time) \<Rightarrow> executor_id list \<Rightarrow> memory \<Rightarrow> memory" where
  "renew_loop_at h now clock [] m = m"
| "renew_loop_at h now clock (e # es) m =
     (if Heartbeat_expired_at h m e now then renew_loop_at h now clock es m
      else renew_loop_at h now clock es (snd (Heartbeat_Renew_at h e (clock e) m)))"

definition Heartbeat_sweep_at ::
  "(runner \<Rightarrow> runner) \<Rightarrow> time \<Rightarrow> (executor_id \<Rightarrow> time) \<Rightarrow> executor_id list \<Rightarrow> executor_id list \<Rightarrow>
   heartbeat \<Rightarrow> memory \<Rightarrow> memory" where
  "Heartbeat_sweep_at drain now clock ks ks' h m =
     (let m = foldl (Evictor_Evict_at drain (hb_evictor h)) m
                (Lease_ExpiredLeases (mem_leases m ! hb_leases h) now ks)
      in renew_loop_at h now clock (Lease_Executors (mem_leases m ! hb_leases h) ks') m)"

definition main_handler_at :: "handler_env \<Rightarrow> inst \<Rightarrow> memory \<Rightarrow> memory" where
  "main_handler_at h i m =
     (let m = put_store (hd_store h) (Store_RecordTaskExecution (mem_store m ! hd_store h) i) m
      in put_metrics (hd_metrics h) (Succeeded (mem_metrics m ! hd_metrics h)) m)"

definition worker_turn_at :: "handler_env \<Rightarrow> ref \<Rightarrow> executor_id \<Rightarrow> memory \<Rightarrow> memory" where
  "worker_turn_at h em exec m =
     (case Manager_Get (mem_execs m ! em) exec of
        None \<Rightarrow> m
      | Some r \<Rightarrow>
          (case rn_in r of
             [] \<Rightarrow> m
           | i # rest \<Rightarrow>
               if rn_closed r then m
               else
                 let m = main_handler_at h i m
                 in put_execs em (Manager_Put (mem_execs m ! em) exec (release (r\<lparr>rn_in := rest\<rparr>) i)) m))"

section \<open>The handlers of the server\<close>

definition handlePublish_at ::
  "server \<Rightarrow> string \<Rightarrow> string \<Rightarrow> time \<Rightarrow> time \<Rightarrow> string \<Rightarrow> publish_request option \<Rightarrow> memory \<Rightarrow> response \<times> memory" where
  "handlePublish_at s id_uuid key_uuid now created method_name decoded m =
     (if method_name \<noteq> ''POST'' then (RespMethodNotAllowed, m)
      else (case decoded of
              None \<Rightarrow> (RespBadRequest ''bad request'', m)
            | Some req \<Rightarrow>
                if trims_to_empty (pr_Group req) then (RespBadRequest ''group is required'', m)
                else
                  let t = NewTask id_uuid key_uuid created (pr_Group req) (pr_Payload req)
                            (now + wrap64 (pr_DueAfter req * millisecond));
                      m = put_deps (sv_deps s)
                            (add_deps (mem_deps m ! sv_deps s) (task_ID t) (pr_DependsOn req)) m
                  in (case Broker_Publish_at (sv_broker s) t m of
                        (Inl e, m) \<Rightarrow> (error_response e, m)
                      | (Inr seq, m) \<Rightarrow> (RespAccepted seq (task_ID t), m))))"

definition handleExecutor_at ::
  "server \<Rightarrow> time \<Rightarrow> string \<Rightarrow> string option \<Rightarrow> memory \<Rightarrow> response \<times> memory" where
  "handleExecutor_at s now method_name decoded m =
     (if method_name \<noteq> ''POST'' then (RespMethodNotAllowed, m)
      else (case decoded of
              None \<Rightarrow> (RespBadRequest ''bad request'', m)
            | Some executor \<Rightarrow>
                if executor = [] then (RespBadRequest ''executor id is required'', m)
                else
                  let m = put_execs (sv_execs s) (snd (Manager_Add (mem_execs m ! sv_execs s) executor)) m;
                      ((slot, ok), lm) = Lease_Acquire (mem_leases m ! sv_leases s) executor now
                  in (RespRegistered executor slot, put_leases (sv_leases s) lm m)))"

definition handleStatus_at ::
  "server \<Rightarrow> (time \<Rightarrow> string) \<Rightarrow> string list \<Rightarrow> executor_id list \<Rightarrow> memory \<Rightarrow> response" where
  "handleStatus_at s format ks es m =
     (let (hits, misses) = CacheStats_at (sv_dispatcher s) m
      in RespStatus \<lparr>sp_tasks = Registry_Snapshot format (mem_reg m ! sv_reg s) ks,
           sp_executors = Lease_Executors (mem_leases m ! sv_leases s) es,
           sp_lease_count = Lease_Count (mem_leases m ! sv_leases s),
           sp_metrics = Metric_Snapshot (mem_metrics m ! sv_metrics s),
           sp_backlog = BacklogInfo (mem_store m ! sv_store s),
           sp_cache_hits = hits, sp_cache_misses = misses,
           sp_progress = Broker_Progress_at (sv_broker s) m\<rparr>)"

definition Server_Handler_at :: "server \<Rightarrow> request_env \<Rightarrow> http_request \<Rightarrow> memory \<Rightarrow> response \<times> memory" where
  "Server_Handler_at s env rq m =
     (if hr_Path rq = ''/healthz'' then (handleHealth (re_format env (re_now env)), m)
      else if hr_Path rq = ''/api/status''
      then (handleStatus_at s (re_format env) (re_tasks env) (re_execs env) m, m)
      else if hr_Path rq = ''/api/publish''
      then handlePublish_at s (re_task_uuid env) (re_key_uuid env) (re_now env) (re_created env)
             (hr_Method rq) (hr_Publish rq) m
      else if hr_Path rq = ''/executors''
      then handleExecutor_at s (re_now env) (hr_Method rq) (hr_Executor rq) m
      else (handleConsole (re_page env) (hr_Path rq), m))"

fun program_step :: "(rat \<Rightarrow> rat) \<Rightarrow> config \<Rightarrow> program \<Rightarrow> memory \<Rightarrow> sys_event \<Rightarrow> memory" where
  "program_step fl cfg p m (EvPublishReq i k now created mt req) =
     snd (handlePublish_at (pg_server p) i k now created mt req m)"
| "program_step fl cfg p m (EvExecutorReq now mt req) = snd (handleExecutor_at (pg_server p) now mt req m)"
| "program_step fl cfg p m (EvClockTick envs ks now) =
     snd (Tick_at fl envs ks (NextWindow now (cfg_TickInterval cfg)) (pg_dispatcher p) m)"
| "program_step fl cfg p m (EvSweep drain now clock ks ks') =
     Heartbeat_sweep_at drain now clock ks ks' (pg_heart p) m"
| "program_step fl cfg p m (EvWorker exec) = worker_turn_at (pg_handler p) (pg_execs p) exec m"

section \<open>Seeing one system through the pointers\<close>

text \<open>The one record the parts share, read through the pointers of the server's broker and dispatcher.\<close>

definition system_seen :: "program \<Rightarrow> memory \<Rightarrow> system" where
  "system_seen p m =
     (let b = sv_broker (pg_server p); d = mem_disp m ! pg_dispatcher p
      in \<lparr>sys_store = mem_store m ! bk_store b, sys_queue = mem_queue m ! bk_queue b,
          sys_reg = mem_reg m ! bk_reg b, sys_deps = mem_deps m ! bk_deps b,
          sys_leases = mem_leases m ! dp_leases d, sys_execs = mem_execs m ! dp_execs d,
          sys_metrics = mem_metrics m ! bk_metrics b, sys_flow = mem_flow m ! dp_flow d,
          sys_progress = mem_progress m ! bk_progress b, sys_cache = dp_cache d,
          sys_hits = dp_hits d, sys_misses = dp_misses d\<rparr>)"

text \<open>
  The wiring: one object of each kind, and every pointer any part holds is the one to it.
\<close>

record shared =
  rt_store :: ref
  rt_queue :: ref
  rt_reg :: ref
  rt_deps :: ref
  rt_leases :: ref
  rt_execs :: ref
  rt_metrics :: ref
  rt_flow :: ref
  rt_progress :: ref
  rt_disp :: ref

definition broker_on :: "shared \<Rightarrow> broker \<Rightarrow> bool" where
  "broker_on R b \<longleftrightarrow> bk_store b = rt_store R \<and> bk_queue b = rt_queue R \<and> bk_reg b = rt_reg R
     \<and> bk_deps b = rt_deps R \<and> bk_metrics b = rt_metrics R \<and> bk_progress b = rt_progress R"

definition dispatcher_on :: "shared \<Rightarrow> dispatcher \<Rightarrow> bool" where
  "dispatcher_on R d \<longleftrightarrow> dp_queue d = rt_queue R \<and> dp_store d = rt_store R \<and> dp_reg d = rt_reg R
     \<and> dp_leases d = rt_leases R \<and> dp_execs d = rt_execs R \<and> dp_metrics d = rt_metrics R \<and> dp_flow d = rt_flow R"

definition evictor_on :: "shared \<Rightarrow> evictor \<Rightarrow> bool" where
  "evictor_on R e \<longleftrightarrow> ev_leases e = rt_leases R \<and> ev_execs e = rt_execs R \<and> ev_metrics e = rt_metrics R"

definition heartbeat_on :: "shared \<Rightarrow> heartbeat \<Rightarrow> bool" where
  "heartbeat_on R h \<longleftrightarrow> hb_leases h = rt_leases R \<and> hb_execs h = rt_execs R \<and> hb_metrics h = rt_metrics R
     \<and> evictor_on R (hb_evictor h)"

definition handler_on :: "shared \<Rightarrow> handler_env \<Rightarrow> bool" where
  "handler_on R h \<longleftrightarrow> hd_store h = rt_store R \<and> hd_metrics h = rt_metrics R"

definition server_on :: "shared \<Rightarrow> server \<Rightarrow> bool" where
  "server_on R s \<longleftrightarrow> sv_reg s = rt_reg R \<and> sv_deps s = rt_deps R \<and> sv_leases s = rt_leases R
     \<and> sv_execs s = rt_execs R \<and> sv_metrics s = rt_metrics R \<and> broker_on R (sv_broker s)
     \<and> sv_dispatcher s = rt_disp R \<and> sv_store s = rt_store R"

definition program_on :: "shared \<Rightarrow> program \<Rightarrow> bool" where
  "program_on R p \<longleftrightarrow> server_on R (pg_server p) \<and> heartbeat_on R (pg_heart p) \<and> pg_dispatcher p = rt_disp R
     \<and> handler_on R (pg_handler p) \<and> pg_execs p = rt_execs R"

definition one_of_each :: "memory \<Rightarrow> bool" where
  "one_of_each m \<longleftrightarrow> length (mem_store m) = 1 \<and> length (mem_queue m) = 1 \<and> length (mem_reg m) = 1
     \<and> length (mem_deps m) = 1 \<and> length (mem_metrics m) = 1 \<and> length (mem_execs m) = 1
     \<and> length (mem_leases m) = 1 \<and> length (mem_flow m) = 1 \<and> length (mem_progress m) = 1
     \<and> length (mem_disp m) = 1"

definition allocated :: "shared \<Rightarrow> memory \<Rightarrow> bool" where
  "allocated R m \<longleftrightarrow> rt_store R < length (mem_store m) \<and> rt_queue R < length (mem_queue m)
     \<and> rt_reg R < length (mem_reg m) \<and> rt_deps R < length (mem_deps m) \<and> rt_leases R < length (mem_leases m)
     \<and> rt_execs R < length (mem_execs m) \<and> rt_metrics R < length (mem_metrics m) \<and> rt_flow R < length (mem_flow m)
     \<and> rt_progress R < length (mem_progress m) \<and> rt_disp R < length (mem_disp m)
     \<and> dispatcher_on R (mem_disp m ! rt_disp R) \<and> one_of_each m"

definition seen :: "shared \<Rightarrow> memory \<Rightarrow> system" where
  "seen R m =
     \<lparr>sys_store = mem_store m ! rt_store R, sys_queue = mem_queue m ! rt_queue R,
      sys_reg = mem_reg m ! rt_reg R, sys_deps = mem_deps m ! rt_deps R,
      sys_leases = mem_leases m ! rt_leases R, sys_execs = mem_execs m ! rt_execs R,
      sys_metrics = mem_metrics m ! rt_metrics R, sys_flow = mem_flow m ! rt_flow R,
      sys_progress = mem_progress m ! rt_progress R, sys_cache = dp_cache (mem_disp m ! rt_disp R),
      sys_hits = dp_hits (mem_disp m ! rt_disp R), sys_misses = dp_misses (mem_disp m ! rt_disp R)\<rparr>"

lemma system_seen_eq: "program_on R p \<Longrightarrow> allocated R m \<Longrightarrow> system_seen p m = seen R m"
  by (simp add: system_seen_def seen_def program_on_def server_on_def broker_on_def allocated_def
      dispatcher_on_def Let_def)

named_theorems pointers

lemma read_seen [pointers]:
  "mem_store m ! rt_store R = sys_store (seen R m)" "mem_queue m ! rt_queue R = sys_queue (seen R m)"
  "mem_reg m ! rt_reg R = sys_reg (seen R m)" "mem_deps m ! rt_deps R = sys_deps (seen R m)"
  "mem_leases m ! rt_leases R = sys_leases (seen R m)" "mem_execs m ! rt_execs R = sys_execs (seen R m)"
  "mem_metrics m ! rt_metrics R = sys_metrics (seen R m)" "mem_flow m ! rt_flow R = sys_flow (seen R m)"
  "mem_progress m ! rt_progress R = sys_progress (seen R m)"
  "dp_hits (mem_disp m ! rt_disp R) = sys_hits (seen R m)"
  "dp_misses (mem_disp m ! rt_disp R) = sys_misses (seen R m)"
  by (simp_all add: seen_def)

lemmas put_defs = put_store_def put_queue_def put_reg_def put_deps_def put_metrics_def put_execs_def
  put_leases_def put_flow_def put_progress_def

lemma allocated_put [pointers]:
  "allocated R (put_store a st m) = allocated R m" "allocated R (put_queue a q m) = allocated R m"
  "allocated R (put_reg a r m) = allocated R m" "allocated R (put_deps a g m) = allocated R m"
  "allocated R (put_metrics a me m) = allocated R m" "allocated R (put_execs a em m) = allocated R m"
  "allocated R (put_leases a lm m) = allocated R m" "allocated R (put_flow a fw m) = allocated R m"
  "allocated R (put_progress a c m) = allocated R m"
  by (simp_all add: allocated_def one_of_each_def put_defs)

lemma seen_put [pointers]:
  assumes "allocated R m"
  shows "seen R (put_store (rt_store R) st m) = (seen R m)\<lparr>sys_store := st\<rparr>"
    "seen R (put_queue (rt_queue R) q m) = (seen R m)\<lparr>sys_queue := q\<rparr>"
    "seen R (put_reg (rt_reg R) r m) = (seen R m)\<lparr>sys_reg := r\<rparr>"
    "seen R (put_deps (rt_deps R) g m) = (seen R m)\<lparr>sys_deps := g\<rparr>"
    "seen R (put_metrics (rt_metrics R) me m) = (seen R m)\<lparr>sys_metrics := me\<rparr>"
    "seen R (put_execs (rt_execs R) em m) = (seen R m)\<lparr>sys_execs := em\<rparr>"
    "seen R (put_leases (rt_leases R) lm m) = (seen R m)\<lparr>sys_leases := lm\<rparr>"
    "seen R (put_flow (rt_flow R) fw m) = (seen R m)\<lparr>sys_flow := fw\<rparr>"
    "seen R (put_progress (rt_progress R) c m) = (seen R m)\<lparr>sys_progress := c\<rparr>"
  using assms by (simp_all add: allocated_def seen_def put_defs)

text \<open>A method that follows its pointers implements the operation on the record it sees.\<close>

definition implements :: "shared \<Rightarrow> 'r \<times> memory \<Rightarrow> 'r \<times> system \<Rightarrow> bool" where
  "implements R a b \<longleftrightarrow> fst a = fst b \<and> seen R (snd a) = snd b \<and> allocated R (snd a)"

lemma implements_pair [pointers]:
  "implements R (x, m') (x', y') \<longleftrightarrow> x = x' \<and> seen R m' = y' \<and> allocated R m'"
  by (simp add: implements_def)

section \<open>Each method implements its operation\<close>

lemma Publish_at:
  assumes "allocated R m" and "broker_on R b"
  shows "implements R (Broker_Publish_at b t m) (Broker_Publish (seen R m) t)"
  using assms
  by (auto simp: Broker_Publish_at_def Broker_Publish_def broker_on_def pointers Let_def
      split: prod.split sum.split option.split)

lemma dispatchOne_at:
  assumes "allocated R m" and "dispatcher_on R d"
  shows "implements R (dispatchOne_at fl env d exec t m) (dispatchOne fl env None exec t (seen R m))"
  using assms
  by (auto simp: dispatchOne_at_def dispatchOne_def markDispatched_at_def markDispatched_def
      dispatcher_on_def pointers Let_def split: prod.split option.split)

lemma requeue_at:
  assumes "allocated R m" and "dispatcher_on R d"
  shows "allocated R (requeue_at d ts m) \<and> seen R (requeue_at d ts m) = Dispatcher_requeue (seen R m) ts"
  using assms by (induction ts arbitrary: m) (simp_all add: dispatcher_on_def pointers)

lemma tick_loop_at:
  assumes "allocated R m" and "dispatcher_on R d"
  shows "implements R (tick_loop_at fl envs d exec win i err ts m)
           (tick_loop fl envs None exec win i err ts (seen R m))"
  using assms(1)
proof (induction ts arbitrary: i err m)
  case (Cons t ts)
  obtain e m' where m': "dispatchOne_at fl (envs i) d exec t m = (e, m')" by fastforce
  obtain e' y' where y': "dispatchOne fl (envs i) None exec t (seen R m) = (e', y')" by fastforce
  have "e' = e \<and> y' = seen R m' \<and> allocated R m'"
    using dispatchOne_at [OF Cons.prems assms(2), of fl "envs i" exec t] m' y' by (simp add: pointers)
  then show ?case
    using requeue_at [OF Cons.prems assms(2), of "t # ts"] Cons.IH [of m'] m' y'
    by (simp add: implements_pair del: requeue_at.simps Dispatcher_requeue.simps)
qed (simp add: pointers)

lemma Tick_at:
  assumes "allocated R m"
  shows "implements R (Tick_at fl envs ks win (rt_disp R) m) (Tick fl envs None ks win (seen R m))"
proof -
  define d where "d = mem_disp m ! rt_disp R"
  have d: "dispatcher_on R d" using assms by (simp add: d_def allocated_def)
  obtain batch q where q: "Queue_Drain (sys_queue (seen R m)) = (batch, q)" by fastforce
  define m' where "m' = put_queue (rt_queue R) q m"
  have m': "allocated R m'" "seen R m' = (seen R m)\<lparr>sys_queue := q\<rparr>"
    using assms by (simp_all add: m'_def pointers)
  have at: "Tick_at fl envs ks win (rt_disp R) m =
      (if length batch = 0 then (None, m')
       else
         let executors = Lease_Executors (sys_leases (seen R m')) ks
         in if length executors = 0 then (None, requeue_at d batch m')
            else tick_loop_at fl envs d (executors ! 0) win 0 None batch m')"
    using d q by (simp add: Tick_at_def d_def [symmetric] m'_def dispatcher_on_def pointers Let_def)
  have op: "Tick fl envs None ks win (seen R m) =
      (if length batch = 0 then (None, seen R m')
       else
         let executors = Lease_Executors (sys_leases (seen R m')) ks
         in if length executors = 0 then (None, Dispatcher_requeue (seen R m') batch)
            else tick_loop fl envs None (executors ! 0) win 0 None batch (seen R m'))"
    using q m'(2) by (simp add: Tick_def Let_def)
  show ?thesis
    using requeue_at [OF m'(1) d, of batch] tick_loop_at [OF m'(1) d] m'(1)
    by (simp add: at op implements_pair Let_def)
qed

lemma Evict_at:
  assumes "allocated R m" and "evictor_on R e"
  shows "allocated R (Evictor_Evict_at drain e m x)
    \<and> seen R (Evictor_Evict_at drain e m x) = Evictor_Evict drain (seen R m) x"
  using assms
  by (auto simp: Evictor_Evict_at_def Evictor_Evict_def evictor_on_def pointers Let_def
      split: prod.split bool.split option.split)

lemma evict_all_at:
  assumes "allocated R m" and "evictor_on R e"
  shows "allocated R (foldl (Evictor_Evict_at drain e) m xs)
    \<and> seen R (foldl (Evictor_Evict_at drain e) m xs) = foldl (Evictor_Evict drain) (seen R m) xs"
  using assms(1)
proof (induction xs arbitrary: m)
  case (Cons x xs)
  then show ?case using Evict_at [OF Cons.prems assms(2), of drain x] by simp
qed simp

lemma renew_loop_at:
  assumes "allocated R m" and "heartbeat_on R h"
  shows "allocated R (renew_loop_at h now clock xs m)
    \<and> seen R (renew_loop_at h now clock xs m) = renew_loop now clock xs (seen R m)"
  using assms(1)
proof (induction xs arbitrary: m)
  case (Cons x xs)
  have "Heartbeat_expired_at h m x now = Heartbeat_expired (seen R m) x now"
    "allocated R (snd (Heartbeat_Renew_at h x (clock x) m))"
    "seen R (snd (Heartbeat_Renew_at h x (clock x) m)) = snd (Heartbeat_Renew (seen R m) x (clock x))"
    using assms(2) Cons.prems
    by (simp_all add: Heartbeat_expired_at_def Heartbeat_expired_def Heartbeat_Renew_at_def Heartbeat_Renew_def
        heartbeat_on_def pointers split: prod.split)
  then show ?case using Cons.IH Cons.prems by simp
qed simp

lemma sweep_at:
  assumes "allocated R m" and "heartbeat_on R h"
  shows "allocated R (Heartbeat_sweep_at drain now clock ks ks' h m)
    \<and> seen R (Heartbeat_sweep_at drain now clock ks ks' h m) = Heartbeat_sweep drain now clock ks ks' (seen R m)"
proof -
  have h: "hb_leases h = rt_leases R" "evictor_on R (hb_evictor h)"
    using assms(2) by (simp_all add: heartbeat_on_def)
  show ?thesis
    using evict_all_at [OF assms(1) h(2), of drain] renew_loop_at [OF _ assms(2)]
    by (simp add: Heartbeat_sweep_at_def Heartbeat_sweep_def h(1) pointers Let_def)
qed

lemma worker_at:
  assumes "allocated R m" and "handler_on R h"
  shows "allocated R (worker_turn_at h (rt_execs R) e m)
    \<and> seen R (worker_turn_at h (rt_execs R) e m) = worker_turn e (seen R m)"
  using assms
  by (auto simp: worker_turn_at_def worker_turn_def main_handler_at_def main_handler_def handler_on_def
      pointers Let_def split: option.split list.split)

lemma handlePublish_at:
  assumes "allocated R m" and "server_on R s"
  shows "implements R (handlePublish_at s i k now created mt body m)
           (handlePublish i k now created mt body (seen R m))"
proof (cases "mt = ''POST'' \<and> (\<exists>req. body = Some req \<and> \<not> trims_to_empty (pr_Group req))")
  case True
  then obtain req where req: "mt = ''POST''" "body = Some req" "\<not> trims_to_empty (pr_Group req)" by blast
  define t where "t = NewTask i k created (pr_Group req) (pr_Payload req) (now + wrap64 (pr_DueAfter req * millisecond))"
  define m' where "m' = put_deps (rt_deps R) (add_deps (sys_deps (seen R m)) (task_ID t) (pr_DependsOn req)) m"
  have s: "sv_deps s = rt_deps R" "broker_on R (sv_broker s)" using assms(2) by (simp_all add: server_on_def)
  have m': "allocated R m'"
    "seen R m' = (seen R m)\<lparr>sys_deps := add_deps (sys_deps (seen R m)) (task_ID t) (pr_DependsOn req)\<rparr>"
    using assms(1) by (simp_all add: m'_def pointers)
  obtain r w where w: "Broker_Publish_at (sv_broker s) t m' = (r, w)" by fastforce
  have "Broker_Publish (seen R m') t = (r, seen R w) \<and> allocated R w"
    using Publish_at [OF m'(1) s(2), of t] w by (cases "Broker_Publish (seen R m') t") (simp add: pointers)
  then show ?thesis
    using req w
    by (simp add: handlePublish_at_def handlePublish_def t_def [symmetric] s(1) pointers m'_def [symmetric]
        m'(2) [symmetric] Let_def split: sum.split)
next
  case False
  with assms(1) show ?thesis
    by (auto simp: handlePublish_at_def handlePublish_def pointers split: option.split)
qed

lemma handleExecutor_at:
  assumes "allocated R m" and "server_on R s"
  shows "implements R (handleExecutor_at s now mt body m) (handleExecutor now mt body (seen R m))"
  using assms
  by (simp add: handleExecutor_at_def handleExecutor_def server_on_def pointers Let_def
      split: option.split prod.split)

lemma handleStatus_at:
  assumes "server_on R s"
  shows "handleStatus_at s format ks es m = handleStatus format ks es (seen R m)"
  using assms
  by (simp add: handleStatus_at_def handleStatus_def server_on_def broker_on_def CacheStats_at_def CacheStats_def
      Broker_Progress_at_def Broker_Progress_def pointers)

lemma Server_Handler_at:
  assumes "allocated R m" and "server_on R s"
  shows "implements R (Server_Handler_at s env rq m) (Server_Handler env rq (seen R m))"
  using assms handlePublish_at [OF assms] handleExecutor_at [OF assms] handleStatus_at [OF assms(2)]
  by (simp add: Server_Handler_at_def Server_Handler_def implements_pair)

section \<open>The program\<close>

lemma program_step_at:
  assumes "allocated R m" and "program_on R p"
  shows "allocated R (program_step fl cfg p m ev)
    \<and> seen R (program_step fl cfg p m ev) = sys_step fl cfg (seen R m) ev"
proof -
  have p: "server_on R (pg_server p)" "heartbeat_on R (pg_heart p)" "handler_on R (pg_handler p)"
    "pg_dispatcher p = rt_disp R" "pg_execs p = rt_execs R"
    using assms(2) by (simp_all add: program_on_def)
  show ?thesis
    using handlePublish_at [OF assms(1) p(1)] handleExecutor_at [OF assms(1) p(1)] Tick_at [OF assms(1)]
      sweep_at [OF assms(1) p(2)] worker_at [OF assms(1) p(3)]
    by (cases ev) (simp_all add: p(4,5) implements_def main_tick_def)
qed

lemma program_run_at:
  assumes "allocated R m" and "program_on R p"
  shows "allocated R (foldl (program_step fl cfg p) m evs)
    \<and> seen R (foldl (program_step fl cfg p) m evs) = foldl (sys_step fl cfg) (seen R m) evs"
  using assms(1)
proof (induction evs arbitrary: m)
  case (Cons ev evs)
  then show ?case using program_step_at [OF Cons.prems assms(2), of fl cfg ev] by simp
qed simp

definition main_shared :: shared where
  "main_shared = \<lparr>rt_store = 0, rt_queue = 0, rt_reg = 0, rt_deps = 0, rt_leases = 0, rt_execs = 0,
     rt_metrics = 0, rt_flow = 0, rt_progress = 0, rt_disp = 0\<rparr>"

lemmas main_wiring_defs = main_objects_def no_objects_def Dispatcher_New_def Broker_New_def Heartbeat_New_def
  NewEvictor_def NewServer_def Let_def

lemma main_wired:
  assumes "main_objects fl cfg = (p, m)"
  shows "program_on main_shared p" "allocated main_shared m" "seen main_shared m = main_state fl cfg"
  using assms
  by (auto simp: main_wiring_defs main_shared_def program_on_def server_on_def heartbeat_on_def handler_on_def
      broker_on_def evictor_on_def allocated_def one_of_each_def dispatcher_on_def seen_def main_state_def)


text \<open>
  Every pointer a part of the program holds, with the number of objects of the kind it points to.
\<close>

definition broker_pointers :: "broker \<Rightarrow> memory \<Rightarrow> (ref \<times> nat) list" where
  "broker_pointers b m =
     [(bk_store b, length (mem_store m)), (bk_queue b, length (mem_queue m)), (bk_reg b, length (mem_reg m)),
      (bk_deps b, length (mem_deps m)), (bk_metrics b, length (mem_metrics m)),
      (bk_progress b, length (mem_progress m))]"

definition dispatcher_pointers :: "dispatcher \<Rightarrow> memory \<Rightarrow> (ref \<times> nat) list" where
  "dispatcher_pointers d m =
     [(dp_queue d, length (mem_queue m)), (dp_store d, length (mem_store m)), (dp_reg d, length (mem_reg m)),
      (dp_leases d, length (mem_leases m)), (dp_execs d, length (mem_execs m)),
      (dp_metrics d, length (mem_metrics m)), (dp_flow d, length (mem_flow m))]"

definition heartbeat_pointers :: "heartbeat \<Rightarrow> memory \<Rightarrow> (ref \<times> nat) list" where
  "heartbeat_pointers h m =
     [(hb_leases h, length (mem_leases m)), (hb_execs h, length (mem_execs m)),
      (hb_metrics h, length (mem_metrics m)), (ev_leases (hb_evictor h), length (mem_leases m)),
      (ev_execs (hb_evictor h), length (mem_execs m)), (ev_metrics (hb_evictor h), length (mem_metrics m))]"

definition server_pointers :: "server \<Rightarrow> memory \<Rightarrow> (ref \<times> nat) list" where
  "server_pointers s m =
     [(sv_reg s, length (mem_reg m)), (sv_deps s, length (mem_deps m)), (sv_leases s, length (mem_leases m)),
      (sv_execs s, length (mem_execs m)), (sv_metrics s, length (mem_metrics m)),
      (sv_dispatcher s, length (mem_disp m)), (sv_store s, length (mem_store m))]
     @ broker_pointers (sv_broker s) m"

definition program_pointers :: "program \<Rightarrow> memory \<Rightarrow> (ref \<times> nat) list" where
  "program_pointers p m =
     server_pointers (pg_server p) m @ heartbeat_pointers (pg_heart p) m
     @ dispatcher_pointers (mem_disp m ! pg_dispatcher p) m
     @ [(pg_dispatcher p, length (mem_disp m)), (pg_execs p, length (mem_execs m)),
        (hd_store (pg_handler p), length (mem_store m)), (hd_metrics (pg_handler p), length (mem_metrics m))]"

lemma pointers_allocated:
  "program_on R p \<Longrightarrow> allocated R m \<Longrightarrow> list_all (\<lambda>(a, n). a < n \<and> n = 1) (program_pointers p m)"
  by (simp add: program_pointers_def server_pointers_def broker_pointers_def heartbeat_pointers_def
      dispatcher_pointers_def program_on_def server_on_def broker_on_def heartbeat_on_def evictor_on_def
      handler_on_def allocated_def dispatcher_on_def one_of_each_def)

section \<open>Properties\<close>

text \<open>
  C7: The program with its pointers does what the development says of the one shared state.  After any
  events (requests, ticks, sweeps, turns of workers), what the parts \<open>main\<close> has wired see through their
  pointers is the state the events lead to when all parts work on one record, and any request is
  answered alike and has the same effect.
\<close>

theorem pointers_refine_shared_state:
  "let (p, m0) = main_objects fl cfg;
       m = foldl (program_step fl cfg p) m0 evs;
       y = foldl (sys_step fl cfg) (main_state fl cfg) evs;
       (resp, m') = Server_Handler_at (pg_server p) env rq m
   in system_seen p m = y \<and> (resp, system_seen p m') = Server_Handler env rq y"
proof -
  obtain p m0 where o: "main_objects fl cfg = (p, m0)" by fastforce
  note w = main_wired [OF o]
  define m where "m = foldl (program_step fl cfg p) m0 evs"
  have m: "allocated main_shared m" "seen main_shared m = foldl (sys_step fl cfg) (main_state fl cfg) evs"
    using program_run_at [OF w(2,1), of fl cfg evs] w(3) by (simp_all add: m_def)
  obtain resp m' where h: "Server_Handler_at (pg_server p) env rq m = (resp, m')" by fastforce
  have "server_on main_shared (pg_server p)" using w(1) by (simp add: program_on_def)
  from Server_Handler_at [OF m(1) this, of env rq] h
  have "Server_Handler env rq (seen main_shared m) = (resp, seen main_shared m')" "allocated main_shared m'"
    by (auto simp: implements_def prod_eq_iff)
  then show ?thesis
    using m h system_seen_eq [OF w(1) m(1)] system_seen_eq [OF w(1)]
    by (simp add: o m_def [symmetric])
qed

text \<open>
  C25: Every pointer is good, at any time.  Whatever events the program goes through, every pointer that
  the server, its broker, the dispatcher, the heartbeat, its evictor and the task handler hold leads
  to an allocated object of its kind, which is the only one of that kind: no part works on an object
  of its own.
\<close>

theorem pointers_lead_to_the_only_object:
  "let (p, m0) = main_objects fl cfg
   in list_all (\<lambda>(a, n). a < n \<and> n = 1) (program_pointers p (foldl (program_step fl cfg p) m0 evs))"
proof -
  obtain p m0 where o: "main_objects fl cfg = (p, m0)" by fastforce
  note w = main_wired [OF o]
  show ?thesis
    using pointers_allocated [OF w(1)] program_run_at [OF w(2,1), of fl cfg evs] by (simp add: o)
qed

end
