(* ===== verification/Lifecycle.thy ===== *)
theory Lifecycle
  imports Objects
begin

text \<open>
  The start and the end of \<open>main\<close> in \<open>cmd/jobsched/main.go\<close>: its flag, the listener of the server, the startup
  probe, and the final \<open>select\<close> between the signal and the listener.  The listener itself is the
  standard library's: what its \<open>Shutdown\<close> and \<open>ListenAndServe\<close> return is an argument.
\<close>

section \<open>The flag\<close>

text \<open>
  \<open>flag.Parse\<close> of the standard library with the one flag \<open>-addr\<close>: the value of the flag, or the exit
  status of a program whose arguments are refused (2) or that is asked for help (0).  The value
  follows an equals sign or is the next argument; the first argument that is not a flag ends the
  flags, and what follows is not looked at.
\<close>

fun flag_parse :: "string \<Rightarrow> string list \<Rightarrow> int + string" where
  "flag_parse addr [] = Inr addr"
| "flag_parse addr (s # args) =
     (case s of
        a # b # t \<Rightarrow>
          if a \<noteq> CHR ''-'' \<or> s = ''--'' then Inr addr
          else (case (if b = CHR ''-'' then t else b # t) of
                  [] \<Rightarrow> Inl 2
                | c # u \<Rightarrow>
                    if c = CHR ''-'' \<or> c = CHR ''='' then Inl 2
                    else let name = c # takeWhile (\<lambda>x. x \<noteq> CHR ''='') u
                      in if name \<noteq> ''addr'' then Inl (if name = ''help'' \<or> name = ''h'' then 0 else 2)
                         else (case dropWhile (\<lambda>x. x \<noteq> CHR ''='') u of
                                 _ # v \<Rightarrow> flag_parse v args
                               | [] \<Rightarrow> (case args of [] \<Rightarrow> Inl 2 | v # rest \<Rightarrow> flag_parse v rest)))
      | _ \<Rightarrow> Inr addr)"

definition main_flags :: "string list \<Rightarrow> int + string" where
  "main_flags args = flag_parse '':8080'' args"

text \<open>Two of the spellings of the flag; the last one given counts.\<close>

fun addr_args :: "(bool \<times> string) list \<Rightarrow> string list" where
  "addr_args [] = []"
| "addr_args ((joined, a) # xs) = (if joined then [''--addr='' @ a] else [''-addr'', a]) @ addr_args xs"

theorem last_address_counts: "main_flags (addr_args xs) = Inr (last ('':8080'' # map snd xs))"
proof -
  have "flag_parse d (addr_args xs) = Inr (last (d # map snd xs))" for d
    by (induction xs arbitrary: d rule: addr_args.induct) (simp_all add: Let_def)
  then show ?thesis by (simp add: main_flags_def)
qed

section \<open>The listener\<close>

definition Server_ListenAndServe :: "server \<Rightarrow> string \<Rightarrow> server" where
  "Server_ListenAndServe s addr = s\<lparr>sv_httpSrv := Some addr\<rparr>"

text \<open>
  \<open>Shutdown\<close> of a server whose listener has not been started returns nil at once; the second component
  says whether the listener was told to shut down.
\<close>

definition Server_Shutdown :: "(string \<Rightarrow> string option) \<Rightarrow> server \<Rightarrow> string option \<times> bool" where
  "Server_Shutdown http_shutdown s =
     (case sv_httpSrv s of
        None \<Rightarrow> (None, False)
      | Some addr \<Rightarrow> (http_shutdown addr, True))"

section \<open>The course of main\<close>

datatype log_line =
  LogProbeFailed probe_error
| LogListening string
| LogShutdownFailed string
| LogServerFailed string

datatype serve_error = ErrServerClosed | ErrServe string

datatype main_event = CtxDone | ErrCh "serve_error option"

definition main_probe :: "config \<Rightarrow> (nat \<Rightarrow> string \<Rightarrow> http_result) \<Rightarrow> log_line" where
  "main_probe cfg get =
     (case probeWithRetry get (''http://'' @ cfg_Addr cfg) 20 of
        Some err \<Rightarrow> LogProbeFailed err
      | None \<Rightarrow> LogListening (cfg_Addr cfg))"

text \<open>The lines logged by the \<open>select\<close> and the exit status of the process.\<close>

definition main_select :: "(string \<Rightarrow> string option) \<Rightarrow> server \<Rightarrow> main_event \<Rightarrow> log_line list \<times> int" where
  "main_select http_shutdown s ev =
     (case ev of
        CtxDone \<Rightarrow>
          (case fst (Server_Shutdown http_shutdown s) of
             Some err \<Rightarrow> ([LogShutdownFailed err], 0)
           | None \<Rightarrow> ([], 0))
      | ErrCh err \<Rightarrow>
          (case err of
             None \<Rightarrow> ([], 0)
           | Some ErrServerClosed \<Rightarrow> ([], 0)
           | Some (ErrServe e) \<Rightarrow> ([LogServerFailed e], 1)))"

text \<open>
  \<open>started\<close> says whether the goroutine that calls \<open>ListenAndServe\<close> has run when the \<open>select\<close> is taken.
\<close>

definition main_course ::
  "(rat \<Rightarrow> rat) \<Rightarrow> string \<Rightarrow> (nat \<Rightarrow> string \<Rightarrow> http_result) \<Rightarrow> (string \<Rightarrow> string option) \<Rightarrow> bool \<Rightarrow> main_event \<Rightarrow>
   log_line list \<times> int" where
  "main_course fl addr get http_shutdown started ev =
     (let cfg = Load addr;
          (p, m) = main_objects fl cfg;
          s = (if started then Server_ListenAndServe (pg_server p) (cfg_Addr cfg) else pg_server p);
          line = main_probe cfg get;
          (rest, status) = main_select http_shutdown s ev
      in (line # rest, status))"

text \<open>The program from its arguments: refused arguments end it before anything is built.\<close>

definition main_program ::
  "(rat \<Rightarrow> rat) \<Rightarrow> string list \<Rightarrow> (nat \<Rightarrow> string \<Rightarrow> http_result) \<Rightarrow> (string \<Rightarrow> string option) \<Rightarrow> bool \<Rightarrow>
   main_event \<Rightarrow> log_line list \<times> int" where
  "main_program fl args get http_shutdown started ev =
     (case main_flags args of
        Inl status \<Rightarrow> ([], status)
      | Inr addr \<Rightarrow> main_course fl addr get http_shutdown started ev)"

lemma main_program_address:
  "main_program fl (addr_args xs) get http_shutdown started ev =
     main_course fl (last ('':8080'' # map snd xs)) get http_shutdown started ev"
  by (simp only: main_program_def last_address_counts sum.case)

section \<open>What an operator observes\<close>

lemma main_probe_line:
  "main_probe cfg get = LogListening (cfg_Addr cfg) \<longleftrightarrow>
     (\<exists>i < 20. Probe (get i) (''http://'' @ cfg_Addr cfg) = None)"
proof -
  have "probeWithRetry get b 20 = None \<longleftrightarrow> (\<exists>i < 20. Probe (get i) b = None)" for b
    using probe_retries [of get b 20] probe_attempts_iff [of 20 get b 0 None]
    by (simp add: probeWithRetry_def)
  from this [of "''http://'' @ cfg_Addr cfg"] show ?thesis
    by (cases "probeWithRetry get (''http://'' @ cfg_Addr cfg) 20")
      (simp_all add: main_probe_def del: append.simps append_Cons)
qed

text \<open>
  A failing probe does not stop the program: it only decides the first line of the log, which reports
  the address exactly if one of the twenty attempts has succeeded.  The exit status is 1 exactly if
  the listener returned another error than that of its closing; and a signal that arrives before the
  listener has been started ends the program without a word, whatever a shutdown would have returned.
\<close>

theorem main_outcome:
  "let (lines, status) = main_course fl addr get http_shutdown started ev
   in (hd lines = LogListening addr \<longleftrightarrow> (\<exists>i < 20. Probe (get i) (''http://'' @ addr) = None))
    \<and> (status = 1 \<longleftrightarrow> (\<exists>e. ev = ErrCh (Some (ErrServe e)) \<and> tl lines = [LogServerFailed e]))
    \<and> (status \<noteq> 1 \<longrightarrow> status = 0)
    \<and> (ev = CtxDone \<longrightarrow> tl lines =
        (if started then map LogShutdownFailed (case http_shutdown addr of None \<Rightarrow> [] | Some e \<Rightarrow> [e]) else []))"
proof -
  have cfg: "cfg_Addr (Load addr) = addr" by (simp add: Load_def)
  obtain p m where o: "main_objects fl (Load addr) = (p, m)" by fastforce
  then have s: "sv_httpSrv (pg_server p) = None" by (auto simp: main_wiring_defs)
  show ?thesis
    using main_probe_line [of "Load addr" get] s
    by (cases ev) (auto simp: main_course_def main_select_def Server_Shutdown_def Server_ListenAndServe_def o cfg
        split: option.splits serve_error.splits)
qed

end
