(* ===== verification/Goroutines.thy ===== *)
theory Goroutines
  imports Requests Runner_Progress
begin

text \<open>
  The goroutines of the running program, interleaved.  \<open>System\<close> takes the calls of different goroutines
  to follow each other; here a step is one critical section of one component (every method of a
  component locks its own mutex for its whole body, so a method is one step), and between two steps
  of a goroutine any other goroutine may run: any number of HTTP requests, the ticking goroutine, the
  heartbeat, and the worker of every runner.  Runners are objects that goroutines keep pointers to,
  and each is a \<open>runner_sys\<close> of \<open>Runner\<close>, so a call of \<open>Enqueue\<close> or \<open>Shutdown\<close> is itself many steps.
\<close>

section \<open>What each goroutine is about to do\<close>

text \<open>
  A request: adding the dependencies of the new task (\<open>handlePublish\<close>), then the calls of \<open>Publish\<close> in
  their order; or, for an executor, acquiring the lease after the runner has been added.
\<close>

datatype req_pc =
  ReqIdle
| ReqDeps task "string list"
| ReqClear task
| ReqRegister task
| ReqReady task
| ReqEnqueue task
| ReqAdvance task
| ReqCount task
| ReqAcquire executor_id
| ReqDone response

text \<open>
  The ticking goroutine: waiting; \<open>Tick\<close> after the drain; requeueing; at the head of the loop over
  the batch; and inside \<open>dispatchOne\<close>, with the runner it has a pointer to.  The executor, the window
  and the rest of the batch are the locals of \<open>Tick\<close>.
\<close>

type_synonym tick_ctx = "executor_id \<times> window \<times> task list"

datatype tick_pc =
  TickWait
| TickLease window "task list"
| TickRequeue "task list"
| TickNext tick_ctx
| TickGet tick_ctx task inst
| TickEnqueue nat tick_ctx task inst
| TickCall nat tick_ctx task
| TickMark tick_ctx task
| TickCommit tick_ctx task
| TickSet tick_ctx task
| TickCount tick_ctx
| TickFail tick_ctx
| TickStopped

text \<open>The heartbeat: the loop over the expired leases with \<open>Evict\<close> inside, then the renewals.\<close>

datatype heart_pc =
  HeartWait
| HeartEvict time "executor_id list"
| HeartGet time executor_id "executor_id list"
| HeartShut nat time executor_id "executor_id list"
| HeartShutWait nat time executor_id "executor_id list"
| HeartRemove time executor_id "executor_id list"
| HeartCount time "executor_id list"
| HeartLoop time "executor_id list"
| HeartRenew time executor_id "executor_id list"
| HeartStopped

text \<open>How far the handler has come for the instance a worker runs.\<close>

datatype handler_pc = HandlerStart | HandlerRecorded | HandlerCounted

record world =
  w_store :: store
  w_queue :: queue
  w_reg :: registry
  w_deps :: graph
  w_leases :: lease_manager
  w_metrics :: metrics
  w_flow :: limiter
  w_progress :: cursor
  w_em :: "(executor_id, nat) gomap"
  w_run :: "nat \<Rightarrow> runner_sys"
  w_next :: nat
  w_hand :: "nat \<Rightarrow> handler_pc"
  w_req :: "nat \<Rightarrow> req_pc"
  w_tick :: tick_pc
  w_heart :: heart_pc
  w_ids :: "string set"

text \<open>
  \<open>w_em\<close> is the map of the runner manager, \<open>w_run\<close> the runner behind each pointer and \<open>w_next\<close> the next
  pointer to allocate; \<open>w_ids\<close> is history: the uuids drawn for tasks so far.
\<close>

definition world_start :: "(rat \<Rightarrow> rat) \<Rightarrow> config \<Rightarrow> world" where
  "world_start fl cfg =
     \<lparr>w_store = NewStore (cfg_StoreCapacity cfg), w_queue = Queue_New (cfg_QueueSize cfg),
      w_reg = Registry_New, w_deps = Graph_New, w_leases = Lease_New (cfg_LeaseTimeout cfg),
      w_metrics = Metric_New, w_flow = NewLimiter fl (cfg_Flow cfg), w_progress = NewCursor,
      w_em = [], w_run = (\<lambda>a. runner_start (cfg_RunnerQueue cfg)), w_next = 0,
      w_hand = (\<lambda>a. HandlerStart), w_req = (\<lambda>t. ReqIdle), w_tick = TickWait, w_heart = HeartWait,
      w_ids = {}\<rparr>"

abbreviation req_at :: "world \<Rightarrow> nat \<Rightarrow> req_pc \<Rightarrow> nat \<Rightarrow> req_pc" where
  "req_at w t pc \<equiv> (w_req w)(t := pc)"

abbreviation run_at :: "world \<Rightarrow> nat \<Rightarrow> runner_sys \<Rightarrow> nat \<Rightarrow> runner_sys" where
  "run_at w a s \<equiv> (w_run w)(a := s)"

section \<open>Publish requests\<close>

inductive publish_step :: "world \<Rightarrow> world \<Rightarrow> bool" where
  pub_method: "w_req w t = ReqIdle \<Longrightarrow> mt \<noteq> ''POST'' \<Longrightarrow>
    publish_step w (w\<lparr>w_req := req_at w t (ReqDone RespMethodNotAllowed)\<rparr>)"
| pub_decode: "w_req w t = ReqIdle \<Longrightarrow>
    publish_step w (w\<lparr>w_req := req_at w t (ReqDone (RespBadRequest ''bad request''))\<rparr>)"
| pub_group: "w_req w t = ReqIdle \<Longrightarrow> trims_to_empty (pr_Group (req :: publish_request)) \<Longrightarrow>
    publish_step w (w\<lparr>w_req := req_at w t (ReqDone (RespBadRequest ''group is required''))\<rparr>)"
| pub_start: "w_req w t = ReqIdle \<Longrightarrow> \<not> trims_to_empty (pr_Group (req :: publish_request)) \<Longrightarrow> i \<notin> w_ids w \<Longrightarrow>
    u = NewTask i k created (pr_Group req) (pr_Payload req) (now + wrap64 (pr_DueAfter req * millisecond)) \<Longrightarrow>
    publish_step w (w\<lparr>w_req := req_at w t (ReqDeps u (pr_DependsOn req)), w_ids := insert i (w_ids w)\<rparr>)"
| pub_dep: "w_req w t = ReqDeps u (d # ds) \<Longrightarrow>
    publish_step w (w\<lparr>w_deps := Graph_Add (w_deps w) (task_ID u) [d], w_req := req_at w t (ReqDeps u ds)\<rparr>)"
| pub_full: "w_req w t = ReqDeps u [] \<Longrightarrow> Store_Append (w_store w) u = (Inl err, st) \<Longrightarrow>
    publish_step w (w\<lparr>w_store := st, w_req := req_at w t (ReqDone (error_response err))\<rparr>)"
| pub_append: "w_req w t = ReqDeps u [] \<Longrightarrow> Store_Append (w_store w) u = (Inr seq, st) \<Longrightarrow>
    publish_step w (w\<lparr>w_store := st, w_req := req_at w t (ReqClear (u\<lparr>task_Sequence := seq\<rparr>))\<rparr>)"
| pub_clear: "w_req w t = ReqClear u \<Longrightarrow>
    publish_step w (w\<lparr>w_store := Store_ClearTaskRecord (w_store w) (task_ID u),
      w_req := req_at w t (ReqRegister u)\<rparr>)"
| pub_register: "w_req w t = ReqRegister u \<Longrightarrow>
    publish_step w (w\<lparr>w_reg := Registry_Register (w_reg w) u, w_req := req_at w t (ReqReady u)\<rparr>)"
| pub_ready: "w_req w t = ReqReady u \<Longrightarrow> Graph_Ready (w_deps w) (task_ID u) \<Longrightarrow>
    publish_step w (w\<lparr>w_req := req_at w t (ReqEnqueue u)\<rparr>)"
| pub_waits: "w_req w t = ReqReady u \<Longrightarrow> \<not> Graph_Ready (w_deps w) (task_ID u) \<Longrightarrow>
    publish_step w (w\<lparr>w_req := req_at w t (ReqAdvance u)\<rparr>)"
| pub_enqueue: "w_req w t = ReqEnqueue u \<Longrightarrow> Queue_Enqueue (w_queue w) u = (None, q) \<Longrightarrow>
    publish_step w (w\<lparr>w_queue := q, w_req := req_at w t (ReqAdvance u)\<rparr>)"
| pub_overflow: "w_req w t = ReqEnqueue u \<Longrightarrow> Queue_Enqueue (w_queue w) u = (Some err, q) \<Longrightarrow>
    publish_step w (w\<lparr>w_queue := q, w_req := req_at w t (ReqDone (error_response err))\<rparr>)"
| pub_advance: "w_req w t = ReqAdvance u \<Longrightarrow>
    publish_step w (w\<lparr>w_progress := Cursor_Advance (w_progress w) (task_Sequence u),
      w_req := req_at w t (ReqCount u)\<rparr>)"
| pub_count: "w_req w t = ReqCount u \<Longrightarrow>
    publish_step w (w\<lparr>w_metrics := Published (w_metrics w),
      w_req := req_at w t (ReqDone (RespAccepted (task_Sequence u) (task_ID u)))\<rparr>)"

text \<open>
  The uuid package documents that two ids it draws differ; \<open>pub_start\<close> draws one that has not been
  drawn before.
\<close>

section \<open>Executor requests\<close>

inductive register_step :: "config \<Rightarrow> world \<Rightarrow> world \<Rightarrow> bool" for cfg :: config where
  reg_method: "w_req w t = ReqIdle \<Longrightarrow> mt \<noteq> ''POST'' \<Longrightarrow>
    register_step cfg w (w\<lparr>w_req := req_at w t (ReqDone RespMethodNotAllowed)\<rparr>)"
| reg_decode: "w_req w t = ReqIdle \<Longrightarrow>
    register_step cfg w (w\<lparr>w_req := req_at w t (ReqDone (RespBadRequest ''bad request''))\<rparr>)"
| reg_empty: "w_req w t = ReqIdle \<Longrightarrow>
    register_step cfg w (w\<lparr>w_req := req_at w t (ReqDone (RespBadRequest ''executor id is required''))\<rparr>)"
| reg_known: "w_req w t = ReqIdle \<Longrightarrow> e \<noteq> [] \<Longrightarrow> gget (w_em w) e = Some a \<Longrightarrow>
    register_step cfg w (w\<lparr>w_req := req_at w t (ReqAcquire e)\<rparr>)"
| reg_new: "w_req w t = ReqIdle \<Longrightarrow> e \<noteq> [] \<Longrightarrow> gget (w_em w) e = None \<Longrightarrow>
    register_step cfg w (w\<lparr>w_em := gput e (w_next w) (w_em w),
      w_run := run_at w (w_next w) (runner_start (cfg_RunnerQueue cfg)), w_next := w_next w + 1,
      w_req := req_at w t (ReqAcquire e)\<rparr>)"
| reg_acquire: "w_req w t = ReqAcquire e \<Longrightarrow> Lease_Acquire (w_leases w) e now = ((slot, ok), lm) \<Longrightarrow>
    register_step cfg w (w\<lparr>w_leases := lm, w_req := req_at w t (ReqDone (RespRegistered e slot))\<rparr>)"

section \<open>The ticking goroutine\<close>

text \<open>
  It calls a runner as the caller 0.  The error a tick returns is only logged and left out.
\<close>

inductive tick_step :: "(rat \<Rightarrow> rat) \<Rightarrow> config \<Rightarrow> world \<Rightarrow> world \<Rightarrow> bool"
  for fl :: "rat \<Rightarrow> rat" and cfg :: config where
  tick_idle: "w_tick w = TickWait \<Longrightarrow> Queue_Drain (w_queue w) = ([], q) \<Longrightarrow>
    tick_step fl cfg w (w\<lparr>w_queue := q\<rparr>)"
| tick_drain: "w_tick w = TickWait \<Longrightarrow> Queue_Drain (w_queue w) = (batch, q) \<Longrightarrow> batch \<noteq> [] \<Longrightarrow>
    tick_step fl cfg w (w\<lparr>w_queue := q,
      w_tick := TickLease (NextWindow now (cfg_TickInterval cfg)) batch\<rparr>)"
| tick_none: "w_tick w = TickLease win batch \<Longrightarrow> range_order (lm_leases (w_leases w)) ks \<Longrightarrow>
    Lease_Executors (w_leases w) ks = [] \<Longrightarrow>
    tick_step fl cfg w (w\<lparr>w_tick := TickRequeue batch\<rparr>)"
| tick_first: "w_tick w = TickLease win batch \<Longrightarrow> range_order (lm_leases (w_leases w)) ks \<Longrightarrow>
    Lease_Executors (w_leases w) ks = e # es \<Longrightarrow>
    tick_step fl cfg w (w\<lparr>w_tick := TickNext (e, win, batch)\<rparr>)"
| tick_requeue: "w_tick w = TickRequeue (u # us) \<Longrightarrow>
    tick_step fl cfg w (w\<lparr>w_queue := snd (Queue_Enqueue (w_queue w) u), w_tick := TickRequeue us\<rparr>)"
| tick_requeued: "w_tick w = TickRequeue [] \<Longrightarrow> tick_step fl cfg w (w\<lparr>w_tick := TickWait\<rparr>)"
| tick_end: "w_tick w = TickNext (e, win, []) \<Longrightarrow> tick_step fl cfg w (w\<lparr>w_tick := TickWait\<rparr>)"
| tick_outside: "w_tick w = TickNext (e, win, u # us) \<Longrightarrow> \<not> Window_Contains win (task_DueAt u) \<Longrightarrow>
    tick_step fl cfg w (w\<lparr>w_tick := TickRequeue (u # us)\<rparr>)"
| tick_limited: "w_tick w = TickNext (e, win, u # us) \<Longrightarrow> Window_Contains win (task_DueAt u) \<Longrightarrow>
    Allow fl (w_flow w) e now = (False, fw) \<Longrightarrow>
    tick_step fl cfg w (w\<lparr>w_flow := fw, w_tick := TickNext (e, win, us)\<rparr>)"
| tick_allowed: "w_tick w = TickNext (e, win, u # us) \<Longrightarrow> Window_Contains win (task_DueAt u) \<Longrightarrow>
    Allow fl (w_flow w) e (he_now env) = (True, fw) \<Longrightarrow>
    tick_step fl cfg w (w\<lparr>w_flow := fw, w_tick := TickGet (e, win, us) u (task_instance env u)\<rparr>)"
| tick_no_runner: "w_tick w = TickGet (e, win, us) u i \<Longrightarrow> gget (w_em w) e = None \<Longrightarrow>
    tick_step fl cfg w (w\<lparr>w_tick := TickFail (e, win, us)\<rparr>)"
| tick_runner: "w_tick w = TickGet (e, win, us) u i \<Longrightarrow> gget (w_em w) e = Some a \<Longrightarrow>
    tick_step fl cfg w (w\<lparr>w_tick := TickEnqueue a (e, win, us) u i\<rparr>)"
| tick_enqueue: "w_tick w = TickEnqueue a c u i \<Longrightarrow> runner_step (w_run w a) (Enq 0 i) s \<Longrightarrow>
    tick_step fl cfg w (w\<lparr>w_run := run_at w a s, w_tick := TickCall a c u\<rparr>)"
| tick_slow: "w_tick w = TickCall a c u \<Longrightarrow> b \<in> {SlowSend 0, SlowMark 0, SlowTimeout 0, SlowStop 0} \<Longrightarrow>
    runner_step (w_run w a) b s \<Longrightarrow>
    tick_step fl cfg w (w\<lparr>w_run := run_at w a s\<rparr>)"
| tick_accepted: "w_tick w = TickCall a c u \<Longrightarrow> y_thr (w_run w a) 0 = CIdle None \<Longrightarrow>
    tick_step fl cfg w (w\<lparr>w_tick := TickMark c u\<rparr>)"
| tick_refused: "w_tick w = TickCall a c u \<Longrightarrow> y_thr (w_run w a) 0 = CIdle (Some err) \<Longrightarrow>
    tick_step fl cfg w (w\<lparr>w_tick := TickFail c\<rparr>)"
| tick_fail: "w_tick w = TickFail c \<Longrightarrow>
    tick_step fl cfg w (w\<lparr>w_metrics := Failed (w_metrics w), w_tick := TickNext c\<rparr>)"
| tick_mark: "w_tick w = TickMark c u \<Longrightarrow>
    tick_step fl cfg w (w\<lparr>w_store := Store_MarkDispatched (w_store w) (task_Sequence u) True,
      w_tick := TickCommit c u\<rparr>)"
| tick_commit: "w_tick w = TickCommit c u \<Longrightarrow> Store_Commit (w_store w) (task_Sequence u) = (err, st) \<Longrightarrow>
    tick_step fl cfg w (w\<lparr>w_store := st,
      w_tick := (case err of None \<Rightarrow> TickSet c u | Some x \<Rightarrow> TickFail c)\<rparr>)"
| tick_set: "w_tick w = TickSet c u \<Longrightarrow>
    tick_step fl cfg w (w\<lparr>w_reg := Registry_SetState (w_reg w) (task_ID u) TaskDispatched,
      w_tick := TickCount c\<rparr>)"
| tick_count: "w_tick w = TickCount c \<Longrightarrow>
    tick_step fl cfg w (w\<lparr>w_metrics := Metric_Dispatched (w_metrics w), w_tick := TickNext c\<rparr>)"
| tick_stop: "w_tick w = TickWait \<Longrightarrow> tick_step fl cfg w (w\<lparr>w_tick := TickStopped\<rparr>)"

section \<open>The heartbeat\<close>

text \<open>
  It calls a runner as the caller 1.  After \<open>Shutdown\<close> it waits for the release with a timeout and
  logs, which changes nothing and is left out.
\<close>

inductive heart_step :: "world \<Rightarrow> world \<Rightarrow> bool" where
  heart_fire: "w_heart w = HeartWait \<Longrightarrow> range_order (lm_leases (w_leases w)) ks \<Longrightarrow>
    heart_step w (w\<lparr>w_heart := HeartEvict now (Lease_ExpiredLeases (w_leases w) now ks)\<rparr>)"
| heart_evict: "w_heart w = HeartEvict now (e # es) \<Longrightarrow> Lease_Evict (w_leases w) e = (hit, lm) \<Longrightarrow>
    heart_step w (w\<lparr>w_leases := lm, w_heart := (if hit then HeartGet now e es else HeartEvict now es)\<rparr>)"
| heart_runner: "w_heart w = HeartGet now e es \<Longrightarrow> gget (w_em w) e = Some a \<Longrightarrow>
    heart_step w (w\<lparr>w_heart := HeartShut a now e es\<rparr>)"
| heart_no_runner: "w_heart w = HeartGet now e es \<Longrightarrow> gget (w_em w) e = None \<Longrightarrow>
    heart_step w (w\<lparr>w_heart := HeartRemove now e es\<rparr>)"
| heart_shut: "w_heart w = HeartShut a now e es \<Longrightarrow> runner_step (w_run w a) (ShutBegin 1) s \<Longrightarrow>
    heart_step w (w\<lparr>w_run := run_at w a s, w_heart := HeartShutWait a now e es\<rparr>)"
| heart_closing: "w_heart w = HeartShutWait a now e es \<Longrightarrow> b \<in> {ShutStop 1, ShutDone 1} \<Longrightarrow>
    runner_step (w_run w a) b s \<Longrightarrow>
    heart_step w (w\<lparr>w_run := run_at w a s\<rparr>)"
| heart_closed: "w_heart w = HeartShutWait a now e es \<Longrightarrow> y_thr (w_run w a) 1 = CIdle x \<Longrightarrow>
    heart_step w (w\<lparr>w_heart := HeartRemove now e es\<rparr>)"
| heart_remove: "w_heart w = HeartRemove now e es \<Longrightarrow>
    heart_step w (w\<lparr>w_em := gdel e (w_em w), w_heart := HeartCount now es\<rparr>)"
| heart_count: "w_heart w = HeartCount now es \<Longrightarrow>
    heart_step w (w\<lparr>w_metrics := Evicted (w_metrics w), w_heart := HeartEvict now es\<rparr>)"
| heart_scan: "w_heart w = HeartEvict now [] \<Longrightarrow> range_order (lm_leases (w_leases w)) ks \<Longrightarrow>
    heart_step w (w\<lparr>w_heart := HeartLoop now (Lease_Executors (w_leases w) ks)\<rparr>)"
| heart_lapsed: "w_heart w = HeartLoop now (e # es) \<Longrightarrow> Lease_Expired (w_leases w) e now \<Longrightarrow>
    heart_step w (w\<lparr>w_heart := HeartLoop now es\<rparr>)"
| heart_alive: "w_heart w = HeartLoop now (e # es) \<Longrightarrow> \<not> Lease_Expired (w_leases w) e now \<Longrightarrow>
    heart_step w (w\<lparr>w_heart := HeartRenew now e es\<rparr>)"
| heart_renew: "w_heart w = HeartRenew now e es \<Longrightarrow>
    heart_step w (w\<lparr>w_leases := snd (Lease_Renew (w_leases w) e clock_now), w_heart := HeartLoop now es\<rparr>)"
| heart_end: "w_heart w = HeartLoop now [] \<Longrightarrow> heart_step w (w\<lparr>w_heart := HeartWait\<rparr>)"
| heart_stop: "w_heart w = HeartWait \<Longrightarrow> heart_step w (w\<lparr>w_heart := HeartStopped\<rparr>)"

section \<open>The workers\<close>

inductive work_step :: "world \<Rightarrow> world \<Rightarrow> bool" where
  work_runner: "a < w_next w \<Longrightarrow> b \<in> {Recv, WorkerStop, StartInst, FinishInst, LeaveGroup} \<Longrightarrow>
    runner_step (w_run w a) b s \<Longrightarrow>
    work_step w (w\<lparr>w_run := run_at w a s\<rparr>)"
| work_record: "a < w_next w \<Longrightarrow> y_worker (w_run w a) = WRunning i \<Longrightarrow> w_hand w a = HandlerStart \<Longrightarrow>
    work_step w (w\<lparr>w_store := Store_RecordTaskExecution (w_store w) i,
      w_hand := (w_hand w)(a := HandlerRecorded)\<rparr>)"
| work_count: "a < w_next w \<Longrightarrow> y_worker (w_run w a) = WRunning i \<Longrightarrow> w_hand w a = HandlerRecorded \<Longrightarrow>
    work_step w (w\<lparr>w_metrics := Succeeded (w_metrics w), w_hand := (w_hand w)(a := HandlerCounted)\<rparr>)"
| work_return: "a < w_next w \<Longrightarrow> w_hand w a = HandlerCounted \<Longrightarrow> runner_step (w_run w a) HandlerReturn s \<Longrightarrow>
    work_step w (w\<lparr>w_run := run_at w a s, w_hand := (w_hand w)(a := HandlerStart)\<rparr>)"

section \<open>The program\<close>

definition world_step :: "(rat \<Rightarrow> rat) \<Rightarrow> config \<Rightarrow> world \<Rightarrow> world \<Rightarrow> bool" where
  "world_step fl cfg w w' \<longleftrightarrow> publish_step w w' \<or> register_step cfg w w' \<or> tick_step fl cfg w w'
     \<or> heart_step w w' \<or> work_step w w'"

abbreviation world_run :: "(rat \<Rightarrow> rat) \<Rightarrow> config \<Rightarrow> nat \<Rightarrow> world \<Rightarrow> bool" where
  "world_run fl cfg \<equiv> run_of (\<lambda>w. w = world_start fl cfg) (world_step fl cfg)"

end
