(* ===== verification/Once.thy ===== *)
theory Once
  imports Goroutines
begin

text \<open>
  Whatever the goroutines do in between, a task is executed at most once.  The proof follows the
  ids: each id a publish request has drawn is at one place at most, the request, the waiting queue,
  the hands of the ticking goroutine, or one runner, and every step moves or drops it.
\<close>

section \<open>Tokens at places\<close>

definition exclusive :: "('p \<Rightarrow> 'x multiset) \<Rightarrow> bool" where
  "exclusive own \<longleftrightarrow> (\<forall>p x. count (own p) x \<le> 1) \<and> (\<forall>p q x. p \<noteq> q \<longrightarrow> count (own p) x + count (own q) x \<le> 1)"

lemma exclusive_mono:
  assumes "exclusive f" and "\<And>p. g p \<subseteq># f p"
  shows "exclusive g"
proof -
  have le: "count (g p) x \<le> count (f p) x" for p x using assms(2) by (simp add: mset_subset_eq_count)
  show ?thesis
    using assms(1) le by (auto simp: exclusive_def) (meson add_mono order_trans)+
qed

lemma exclusive_move:
  assumes "exclusive f" and "p \<noteq> q" and "g p + g q \<subseteq># f p + f q" and "\<And>r. r \<noteq> p \<Longrightarrow> r \<noteq> q \<Longrightarrow> g r \<subseteq># f r"
  shows "exclusive g"
proof -
  have pq: "count (g p) x + count (g q) x \<le> count (f p) x + count (f q) x" for x
    using mset_subset_eq_count [OF assms(3), of x] by simp
  have le: "count (g r) x \<le> count (f r) x" if "r \<noteq> p" "r \<noteq> q" for r x
    using assms(4) [OF that] by (simp add: mset_subset_eq_count)
  have two: "count (f r) x + count (f s) x \<le> 1" if "r \<noteq> s" for r s x
    using assms(1) that by (simp add: exclusive_def)
  have three: "count (f r) x + (count (f p) x + count (f q) x) \<le> 1" if "r \<noteq> p" "r \<noteq> q" for r x
    using two [OF that(1), of x] two [OF that(2), of x] two [OF assms(2), of x] by presburger
  have "count (g r) x + count (g s) x \<le> 1" if "r \<noteq> s" for r s x
    using that assms(2) pq [of x] le [of r x] le [of s x] two [of p q x] two [of r s x] three [of r x] three [of s x]
    by (cases "r = p"; cases "r = q"; cases "s = p"; cases "s = q") auto
  moreover have "count (g r) x \<le> 1" for r x
    using assms(2) calculation [of r p x] calculation [of r q x] by (cases "r = p") auto
  ultimately show ?thesis by (auto simp: exclusive_def)
qed

lemma exclusive_fresh:
  assumes "exclusive f" and "\<And>r. x \<notin># f r" and "g p \<subseteq># add_mset x (f p)" and "\<And>r. r \<noteq> p \<Longrightarrow> g r \<subseteq># f r"
  shows "exclusive g"
proof -
  define h where "h r = (if r = p then add_mset x (f p) else f r)" for r
  have no: "count (f r) x = 0" for r using assms(2) by (simp add: not_in_iff)
  have "exclusive h"
    using assms(1) no by (auto simp: exclusive_def h_def)
  then show ?thesis by (rule exclusive_mono) (auto simp: h_def assms(3,4))
qed

section \<open>Where the ids are\<close>

text \<open>
  What a request still holds of the task it builds; what the ticking goroutine still has to hand off
  or to put back, where a call that waits in the slow path of a runner has not handed off yet; and
  what has been sent on the channel of a runner.
\<close>

fun req_ids :: "req_pc \<Rightarrow> string multiset" where
  "req_ids (ReqDeps u ds) = {#task_ID u#}"
| "req_ids (ReqClear u) = {#task_ID u#}"
| "req_ids (ReqRegister u) = {#task_ID u#}"
| "req_ids (ReqReady u) = {#task_ID u#}"
| "req_ids (ReqEnqueue u) = {#task_ID u#}"
| "req_ids _ = {#}"

abbreviation ids_of :: "task list \<Rightarrow> string multiset" where
  "ids_of us \<equiv> image_mset task_ID (mset us)"

fun waits_slow :: "caller_pc \<Rightarrow> bool" where
  "waits_slow (CSlow i) \<longleftrightarrow> True"
| "waits_slow _ \<longleftrightarrow> False"

abbreviation rest_of :: "tick_ctx \<Rightarrow> task list" where
  "rest_of c \<equiv> snd (snd c)"

fun tick_ids :: "(nat \<Rightarrow> runner_sys) \<Rightarrow> tick_pc \<Rightarrow> string multiset" where
  "tick_ids rs TickWait = {#}"
| "tick_ids rs (TickLease win us) = ids_of us"
| "tick_ids rs (TickRequeue us) = ids_of us"
| "tick_ids rs (TickNext c) = ids_of (rest_of c)"
| "tick_ids rs (TickGet c u i) = add_mset (task_ID u) (ids_of (rest_of c))"
| "tick_ids rs (TickEnqueue a c u i) = add_mset (task_ID u) (ids_of (rest_of c))"
| "tick_ids rs (TickCall a c u) =
     (if waits_slow (y_thr (rs a) 0) then add_mset (task_ID u) (ids_of (rest_of c)) else ids_of (rest_of c))"
| "tick_ids rs (TickMark c u) = ids_of (rest_of c)"
| "tick_ids rs (TickCommit c u) = ids_of (rest_of c)"
| "tick_ids rs (TickSet c u) = ids_of (rest_of c)"
| "tick_ids rs (TickCount c) = ids_of (rest_of c)"
| "tick_ids rs (TickFail c) = ids_of (rest_of c)"
| "tick_ids rs TickStopped = {#}"

definition sent_ids :: "runner_sys \<Rightarrow> string multiset" where
  "sent_ids s = image_mset inst_TaskID (mset (map snd (y_sent s)))"

datatype place = AtRequest nat | AtQueue | AtTick | AtRunner nat

fun ids_at :: "world \<Rightarrow> place \<Rightarrow> string multiset" where
  "ids_at w (AtRequest t) = req_ids (w_req w t)"
| "ids_at w AtQueue = image_mset task_ID (queue_contents (w_queue w))"
| "ids_at w AtTick = tick_ids (w_run w) (w_tick w)"
| "ids_at w (AtRunner a) = sent_ids (w_run w a)"

text \<open>
  The instance the ticking goroutine hands off is that of the task it holds; runners never replay,
  and the goroutines other than the ticking one never are in the slow path.
\<close>

fun tick_inst_ok :: "(nat \<Rightarrow> runner_sys) \<Rightarrow> tick_pc \<Rightarrow> bool" where
  "tick_inst_ok rs (TickGet c u i) \<longleftrightarrow> inst_TaskID i = task_ID u"
| "tick_inst_ok rs (TickEnqueue a c u i) \<longleftrightarrow> inst_TaskID i = task_ID u"
| "tick_inst_ok rs (TickCall a c u) \<longleftrightarrow> (\<forall>i. y_thr (rs a) 0 = CSlow i \<longrightarrow> inst_TaskID i = task_ID u)"
| "tick_inst_ok rs _ \<longleftrightarrow> True"

definition once_inv :: "world \<Rightarrow> bool" where
  "once_inv w \<longleftrightarrow> queue_inv (w_queue w) \<and> exclusive (ids_at w) \<and> (\<forall>p. set_mset (ids_at w p) \<subseteq> w_ids w)
     \<and> tick_inst_ok (w_run w) (w_tick w) \<and> (\<forall>a. \<not> rn_replay (y_r (w_run w a)))
     \<and> (\<forall>a. fifo_inv (w_run w a))"

section \<open>Steps of a runner\<close>

lemma quiet_step:
  assumes "runner_step s b s'"
    and "b \<in> {ShutBegin 1, ShutStop 1, ShutDone 1, Recv, WorkerStop, StartInst, HandlerReturn, FinishInst, LeaveGroup}"
  shows "y_sent s' = y_sent s" "y_thr s' 0 = y_thr s 0" "rn_replay (y_r s') = rn_replay (y_r s)"
  using assms by (auto simp: runner_step_simps release_def)

definition slow_ids :: "string \<Rightarrow> runner_sys \<Rightarrow> string multiset" where
  "slow_ids k s = (if waits_slow (y_thr s 0) then {#k#} else {#})"

lemma enqueue_ids:
  assumes "runner_step s (Enq 0 i) s'" and "\<not> rn_replay (y_r s)"
  shows "sent_ids s' + slow_ids (inst_TaskID i) s' \<subseteq># add_mset (inst_TaskID i) (sent_ids s)"
    and "\<forall>j. y_thr s' 0 = CSlow j \<longrightarrow> j = i" and "\<not> rn_replay (y_r s')"
  using assms
  by (auto simp: runner_step_simps sent_ids_def slow_ids_def Enqueue_try_cases split: if_splits)

lemma slow_ids_step:
  assumes "runner_step s b s'" and "b \<in> {SlowSend 0, SlowMark 0, SlowTimeout 0, SlowStop 0}"
    and "\<forall>i. y_thr s 0 = CSlow i \<longrightarrow> inst_TaskID i = k"
  shows "sent_ids s' + slow_ids k s' \<subseteq># sent_ids s + slow_ids k s"
    and "\<forall>i. y_thr s' 0 = CSlow i \<longrightarrow> inst_TaskID i = k" and "rn_replay (y_r s') = rn_replay (y_r s)"
  using assms
  by (auto simp: runner_step_simps sent_ids_def slow_ids_def chan_send_def reserve_def split: if_splits)

section \<open>Every step keeps each id at one place\<close>

text \<open>
  Three shapes of steps: the ids stay or disappear, they move between two places, or one is drawn.
\<close>

definition tokens :: "world \<Rightarrow> bool" where
  "tokens w \<longleftrightarrow> exclusive (ids_at w) \<and> (\<forall>p. set_mset (ids_at w p) \<subseteq> w_ids w)"

lemma tokens_mono:
  assumes "tokens w" and "\<And>p. ids_at w' p \<subseteq># ids_at w p" and "w_ids w' = w_ids w"
  shows "tokens w'"
proof -
  have "exclusive (ids_at w')" using assms(1,2) exclusive_mono by (auto simp: tokens_def)
  moreover have "set_mset (ids_at w' p) \<subseteq> w_ids w'" for p
    using assms(1,3) set_mset_mono [OF assms(2) [of p]] by (auto simp: tokens_def)
  ultimately show ?thesis by (simp add: tokens_def)
qed

lemma tokens_move:
  assumes "tokens w" and "p \<noteq> q" and "ids_at w' p + ids_at w' q \<subseteq># ids_at w p + ids_at w q"
    and "\<And>r. r \<noteq> p \<Longrightarrow> r \<noteq> q \<Longrightarrow> ids_at w' r \<subseteq># ids_at w r" and "w_ids w' = w_ids w"
  shows "tokens w'"
proof -
  have "exclusive (ids_at w')"
    using exclusive_move [OF _ assms(2-4)] assms(1) by (simp add: tokens_def)
  moreover have "set_mset (ids_at w' r) \<subseteq> w_ids w'" for r
  proof (cases "r = p \<or> r = q")
    case True
    moreover have "set_mset (ids_at w p) \<subseteq> w_ids w" "set_mset (ids_at w q) \<subseteq> w_ids w"
      using assms(1) by (simp_all add: tokens_def)
    ultimately show ?thesis using assms(5) set_mset_mono [OF assms(3)] by auto
  next
    case False
    then have "ids_at w' r \<subseteq># ids_at w r" using assms(4) by blast
    from set_mset_mono [OF this] show ?thesis using assms(1,5) by (auto simp: tokens_def)
  qed
  ultimately show ?thesis by (simp add: tokens_def)
qed

lemma tokens_fresh:
  assumes "tokens w" and "x \<notin> w_ids w" and "ids_at w' p \<subseteq># add_mset x (ids_at w p)"
    and "\<And>r. r \<noteq> p \<Longrightarrow> ids_at w' r \<subseteq># ids_at w r" and "w_ids w' = insert x (w_ids w)"
  shows "tokens w'"
proof -
  have "x \<notin># ids_at w r" for r using assms(1,2) by (auto simp: tokens_def)
  then have "exclusive (ids_at w')"
    using assms(1) assms(3,4) by (intro exclusive_fresh [of "ids_at w" x "ids_at w'" p]) (auto simp: tokens_def)
  moreover have "set_mset (ids_at w' r) \<subseteq> w_ids w'" for r
  proof (cases "r = p")
    case True
    moreover have "set_mset (ids_at w p) \<subseteq> w_ids w" using assms(1) by (simp add: tokens_def)
    ultimately show ?thesis using assms(5) set_mset_mono [OF assms(3)] by auto
  next
    case False
    from set_mset_mono [OF assms(4) [OF False]] show ?thesis using assms(1,5) by (auto simp: tokens_def)
  qed
  ultimately show ?thesis by (simp add: tokens_def)
qed

abbreviation queue_ids :: "world \<Rightarrow> string multiset" where
  "queue_ids w \<equiv> image_mset task_ID (queue_contents (w_queue w))"

abbreviation hand_ids :: "world \<Rightarrow> string multiset" where
  "hand_ids w \<equiv> tick_ids (w_run w) (w_tick w)"

lemma tokens_steady:
  assumes "tokens w" and "\<And>t. req_ids (w_req w' t) \<subseteq># req_ids (w_req w t)" and "queue_ids w' \<subseteq># queue_ids w"
    and "hand_ids w' \<subseteq># hand_ids w" and "\<And>a. sent_ids (w_run w' a) \<subseteq># sent_ids (w_run w a)" and "w_ids w' = w_ids w"
  shows "tokens w'"
proof (rule tokens_mono [OF assms(1) _ assms(6)])
  show "ids_at w' p \<subseteq># ids_at w p" for p using assms(2-5) by (cases p) simp_all
qed

lemma tokens_submit:
  assumes "tokens w" and "req_ids (w_req w' t) + queue_ids w' \<subseteq># req_ids (w_req w t) + queue_ids w"
    and "\<And>t'. t' \<noteq> t \<Longrightarrow> w_req w' t' = w_req w t'" and "w_tick w' = w_tick w" and "w_run w' = w_run w"
    and "w_ids w' = w_ids w"
  shows "tokens w'"
proof (rule tokens_move [OF assms(1) _ _ _ assms(6), of "AtRequest t" AtQueue])
  show "ids_at w' r \<subseteq># ids_at w r" if "r \<noteq> AtRequest t" "r \<noteq> AtQueue" for r
    using that assms(3-5) by (cases r) auto
qed (use assms(2) in auto)

lemma tokens_tick_queue:
  assumes "tokens w" and "hand_ids w' + queue_ids w' \<subseteq># hand_ids w + queue_ids w"
    and "w_req w' = w_req w" and "w_run w' = w_run w" and "w_ids w' = w_ids w"
  shows "tokens w'"
proof (rule tokens_move [OF assms(1) _ _ _ assms(5), of AtTick AtQueue])
  show "ids_at w' r \<subseteq># ids_at w r" if "r \<noteq> AtTick" "r \<noteq> AtQueue" for r
    using that assms(3,4) by (cases r) auto
qed (use assms(2) in auto)

lemma tokens_tick_run:
  assumes "tokens w" and "hand_ids w' + sent_ids (w_run w' a) \<subseteq># hand_ids w + sent_ids (w_run w a)"
    and "\<And>b. b \<noteq> a \<Longrightarrow> w_run w' b = w_run w b" and "w_req w' = w_req w" and "w_queue w' = w_queue w"
    and "w_ids w' = w_ids w"
  shows "tokens w'"
proof (rule tokens_move [OF assms(1) _ _ _ assms(6), of AtTick "AtRunner a"])
  show "ids_at w' r \<subseteq># ids_at w r" if "r \<noteq> AtTick" "r \<noteq> AtRunner a" for r
    using that assms(3-5) by (cases r) auto
qed (use assms(2) in auto)

lemma once_parts:
  "once_inv w \<longleftrightarrow> tokens w \<and> queue_inv (w_queue w) \<and> tick_inst_ok (w_run w) (w_tick w)
     \<and> (\<forall>a. \<not> rn_replay (y_r (w_run w a)) \<and> fifo_inv (w_run w a))"
  by (auto simp: once_inv_def tokens_def)

lemma Enqueue_ids:
  assumes "Queue_Enqueue q u = (err, q')"
  shows "image_mset task_ID (queue_contents q') \<subseteq># add_mset (task_ID u) (image_mset task_ID (queue_contents q))"
  using assms by (auto simp: Queue_Enqueue_def queue_contents_def split: if_splits)

lemma tick_ids_mono:
  "(\<And>a. waits_slow (y_thr (rs' a) 0) \<Longrightarrow> waits_slow (y_thr (rs a) 0)) \<Longrightarrow> tick_ids rs' pc \<subseteq># tick_ids rs pc"
  by (induction rs pc rule: tick_ids.induct) auto

lemma once_req:
  assumes "once_inv w" and "\<And>t. req_ids (w_req w' t) \<subseteq># req_ids (w_req w t)" and "w_queue w' = w_queue w"
    and "w_tick w' = w_tick w" and "w_run w' = w_run w" and "w_ids w' = w_ids w"
  shows "once_inv w'"
proof -
  have "tokens w'" by (rule tokens_steady [of w]) (use assms in \<open>auto simp: once_parts\<close>)
  with assms show ?thesis by (simp add: once_parts)
qed

lemma once_publish:
  assumes "publish_step w w'" and "once_inv w"
  shows "once_inv w'"
  using assms
proof (induction rule: publish_step.induct)
  case (pub_start w t req i u k created now)
  have u: "task_ID u = i" by (simp add: pub_start.hyps(4) NewTask_def)
  have "tokens (w\<lparr>w_req := req_at w t (ReqDeps u (pr_DependsOn req)), w_ids := insert i (w_ids w)\<rparr>)"
  proof (rule tokens_fresh [of w i _ "AtRequest t"])
    show "ids_at (w\<lparr>w_req := req_at w t (ReqDeps u (pr_DependsOn req)), w_ids := insert i (w_ids w)\<rparr>) r
        \<subseteq># ids_at w r" if "r \<noteq> AtRequest t" for r
      using that by (cases r) auto
  qed (use pub_start u in \<open>auto simp: once_parts\<close>)
  with pub_start show ?case by (simp add: once_parts)
next
  case (pub_enqueue w t u q)
  have "tokens (w\<lparr>w_queue := q, w_req := req_at w t (ReqAdvance u)\<rparr>)"
    by (rule tokens_submit [of w _ t]) (use pub_enqueue Enqueue_ids [OF pub_enqueue.hyps(2)] in \<open>auto simp: once_parts\<close>)
  moreover have "queue_inv q" using pub_enqueue Enqueue_inv [of "w_queue w" u] by (simp add: once_parts)
  ultimately show ?case using pub_enqueue by (simp add: once_parts)
next
  case (pub_overflow w t u err q)
  have "tokens (w\<lparr>w_queue := q, w_req := req_at w t (ReqDone (error_response err))\<rparr>)"
    by (rule tokens_submit [of w _ t]) (use pub_overflow Enqueue_ids [OF pub_overflow.hyps(2)] in \<open>auto simp: once_parts\<close>)
  moreover have "queue_inv q" using pub_overflow Enqueue_inv [of "w_queue w" u] by (simp add: once_parts)
  ultimately show ?case using pub_overflow by (simp add: once_parts)
qed (erule once_req; auto)+

lemma once_register:
  assumes "register_step cfg w w'" and "once_inv w"
  shows "once_inv w'"
  using assms
proof (induction rule: register_step.induct)
  case (reg_new w t e)
  let ?w = "w\<lparr>w_em := gput e (w_next w) (w_em w), w_run := run_at w (w_next w) (runner_start (cfg_RunnerQueue cfg)),
      w_next := w_next w + 1, w_req := req_at w t (ReqAcquire e)\<rparr>"
  have r: "y_thr (runner_start n) 0 = CIdle None" "sent_ids (runner_start n) = {#}" "fifo_inv (runner_start n)"
    "\<not> rn_replay (y_r (runner_start n))" for n
    by (simp_all add: runner_start_def NewRunner_def sent_ids_def fifo_inv_def)
  have "tokens ?w"
  proof (rule tokens_steady [of w])
    show "hand_ids ?w \<subseteq># hand_ids w" by (simp, rule tick_ids_mono) (simp add: r split: if_splits)
  qed (use reg_new r in \<open>auto simp: once_parts\<close>)
  moreover have "tick_inst_ok (w_run ?w) (w_tick ?w)"
    using reg_new r by (cases "w_tick w") (auto simp: once_parts)
  ultimately show ?case using reg_new r by (auto simp: once_parts)
qed (erule once_req; auto)+


text \<open>A step of a runner by its worker or by the heartbeat.\<close>

lemma once_quiet:
  assumes "once_inv w" and "runner_step (w_run w a) b s"
    and "b \<in> {ShutBegin 1, ShutStop 1, ShutDone 1, Recv, WorkerStop, StartInst, HandlerReturn, FinishInst, LeaveGroup}"
    and "w_run w' = run_at w a s" and "w_req w' = w_req w" and "w_queue w' = w_queue w"
    and "w_tick w' = w_tick w" and "w_ids w' = w_ids w"
  shows "once_inv w'"
proof -
  note q = quiet_step [OF assms(2,3)]
  have thr: "y_thr (w_run w' c) 0 = y_thr (w_run w c) 0" for c using q(2) assms(4) by simp
  have "tokens w'"
  proof (rule tokens_steady [of w])
    show "hand_ids w' \<subseteq># hand_ids w" using tick_ids_mono [of "w_run w'" "w_run w" "w_tick w"] thr assms(7) by simp
    show "sent_ids (w_run w' c) \<subseteq># sent_ids (w_run w c)" for c using q(1) assms(4) by (simp add: sent_ids_def)
  qed (use assms in \<open>auto simp: once_parts\<close>)
  moreover have "tick_inst_ok (w_run w') (w_tick w')"
    using assms(1,7) thr by (cases "w_tick w") (auto simp: once_parts)
  moreover have "fifo_inv s" using fifo_step [OF assms(2)] assms(1) by (simp add: once_parts)
  ultimately show ?thesis using assms q(3) by (simp add: once_parts)
qed

lemma once_frame:
  assumes "once_inv w" and "w_run w' = w_run w" and "w_req w' = w_req w" and "w_queue w' = w_queue w"
    and "w_tick w' = w_tick w" and "w_ids w' = w_ids w"
  shows "once_inv w'"
  by (rule once_req [OF assms(1)]) (simp_all add: assms)

lemma once_work:
  assumes "work_step w w'" and "once_inv w"
  shows "once_inv w'"
  using assms
proof (induction rule: work_step.induct)
  case (work_runner w a b s)
  then show ?case by (intro once_quiet [OF work_runner.prems work_runner.hyps(3)]) auto
next
  case (work_return w a s)
  then show ?case by (intro once_quiet [OF work_return.prems work_return.hyps(3)]) auto
qed (erule once_frame; simp)+

lemma once_heart:
  assumes "heart_step w w'" and "once_inv w"
  shows "once_inv w'"
  using assms
proof (induction rule: heart_step.induct)
  case (heart_shut w a now e es s)
  then show ?case by (intro once_quiet [OF heart_shut.prems heart_shut.hyps(2)]) auto
next
  case (heart_closing w a now e es b s)
  then show ?case by (intro once_quiet [OF heart_closing.prems heart_closing.hyps(3)]) auto
qed (erule once_frame; simp)+

lemma once_tick_frame:
  assumes "once_inv w" and "w_run w' = w_run w" and "w_req w' = w_req w" and "w_queue w' = w_queue w"
    and "tick_ids (w_run w) (w_tick w') \<subseteq># tick_ids (w_run w) (w_tick w)" and "tick_inst_ok (w_run w) (w_tick w) \<Longrightarrow> tick_inst_ok (w_run w) (w_tick w')"
    and "w_ids w' = w_ids w"
  shows "once_inv w'"
proof -
  have "tokens w'" by (rule tokens_steady [of w]) (use assms in \<open>auto simp: once_parts\<close>)
  with assms show ?thesis by (simp add: once_parts)
qed

text \<open>Steps that move tasks between the queue and the ticking goroutine.\<close>

lemma once_tick_queue:
  assumes "once_inv w" and "w_run w' = w_run w" and "w_req w' = w_req w" and "queue_inv (w_queue w')"
    and "hand_ids w' + queue_ids w' \<subseteq># hand_ids w + queue_ids w" and "tick_inst_ok (w_run w) (w_tick w')"
    and "w_ids w' = w_ids w"
  shows "once_inv w'"
proof -
  have "tokens w'" by (rule tokens_tick_queue [of w]) (use assms in \<open>auto simp: once_parts\<close>)
  with assms show ?thesis by (simp add: once_parts)
qed

lemma once_tick_run:
  assumes "once_inv w" and "runner_step (w_run w a) b s" and "w_run w' = run_at w a s" and "w_req w' = w_req w"
    and "w_queue w' = w_queue w" and "hand_ids w' + sent_ids s \<subseteq># hand_ids w + sent_ids (w_run w a)"
    and "tick_inst_ok (w_run w') (w_tick w')" and "\<not> rn_replay (y_r s)" and "w_ids w' = w_ids w"
  shows "once_inv w'"
proof -
  have "tokens w'" by (rule tokens_tick_run [of w _ a]) (use assms in \<open>auto simp: once_parts\<close>)
  moreover have "fifo_inv s" using fifo_step [OF assms(2)] assms(1) by (simp add: once_parts)
  ultimately show ?thesis using assms by (simp add: once_parts)
qed

lemma once_tick:
  assumes "tick_step fl cfg w w'" and "once_inv w"
  shows "once_inv w'"
  using assms
proof (induction rule: tick_step.induct)
  case (tick_idle w q)
  have "queue_inv q" "queue_contents q = {#}"
    using Drain_inv [of "w_queue w"] wq.drain_empty [of "w_queue w"] tick_idle by (simp_all add: once_parts)
  then show ?case by (intro once_tick_queue [OF tick_idle.prems]) (use tick_idle in simp_all)
next
  case (tick_drain w batch q now)
  have q: "queue_inv q" "queue_contents q = {#}" "mset batch = queue_contents (w_queue w)"
    using Drain_inv [of "w_queue w"] wq.drain_empty [of "w_queue w"] wq.drain_out [of "w_queue w"] tick_drain
    by (simp_all add: once_parts)
  then show ?case by (intro once_tick_queue [OF tick_drain.prems]) (use tick_drain in simp_all)
next
  case (tick_requeue w u us)
  then show ?case
    using Enqueue_ids [of "w_queue w" u, OF prod.collapse [symmetric]] Enqueue_inv [of "w_queue w" u]
    by (intro once_tick_queue [OF tick_requeue.prems]) (auto simp: once_parts)
next
  case (tick_enqueue w a c u i s)
  obtain e win us where c: "c = (e, win, us)" by (cases c)
  have i: "inst_TaskID i = task_ID u" "\<not> rn_replay (y_r (w_run w a))"
    using tick_enqueue by (auto simp: once_parts)
  note enq = enqueue_ids [OF tick_enqueue.hyps(2) i(2)]
  show ?case
    by (intro once_tick_run [OF tick_enqueue.prems tick_enqueue.hyps(2)])
      (use enq i(1) tick_enqueue.hyps(1) in \<open>auto simp: c slow_ids_def add.commute split: if_splits\<close>)
next
  case (tick_slow w a c u b s)
  obtain e win us where c: "c = (e, win, us)" by (cases c)
  have i: "\<forall>i. y_thr (w_run w a) 0 = CSlow i \<longrightarrow> inst_TaskID i = task_ID u" "\<not> rn_replay (y_r (w_run w a))"
    using tick_slow by (auto simp: once_parts)
  note enq = slow_ids_step [OF tick_slow.hyps(3,2) i(1)]
  show ?case
    by (intro once_tick_run [OF tick_slow.prems tick_slow.hyps(3)])
      (use enq i(2) tick_slow.hyps(1) in \<open>auto simp: c slow_ids_def add.commute split: if_splits\<close>)
qed (erule once_tick_frame; auto split: option.split)+


section \<open>The runs of the program\<close>

lemma once_start: "once_inv (world_start fl cfg)"
proof -
  have "ids_at (world_start fl cfg) p = {#}" for p
    by (cases p) (simp_all add: world_start_def sent_ids_def runner_start_def)
  then have "tokens (world_start fl cfg)" by (simp add: tokens_def exclusive_def)
  then show ?thesis
    by (simp add: once_parts world_start_def queue_inv_new runner_start_def NewRunner_def fifo_inv_def)
qed

lemma once_step: "once_inv w \<Longrightarrow> world_step fl cfg w w' \<Longrightarrow> once_inv w'"
  by (auto simp: world_step_def intro: once_publish once_register once_tick once_heart once_work)

interpretation once: state_machine "\<lambda>w. w = world_start fl cfg" "world_step fl cfg" "\<lambda>n. once_inv" bound
  for fl cfg and bound :: nat
  by unfold_locales (auto intro: once_start once_step)

text \<open>The ids of the tasks whose execution some runner has started, in order, runner by runner.\<close>

definition executed_ids :: "world \<Rightarrow> string list" where
  "executed_ids w = concat (map (\<lambda>a. map inst_TaskID (y_started (w_run w a))) [0..<w_next w])"

lemma distinct_concat_map:
  "distinct as \<Longrightarrow> (\<And>a. a \<in> set as \<Longrightarrow> distinct (f a)) \<Longrightarrow>
   (\<And>a b. a \<in> set as \<Longrightarrow> b \<in> set as \<Longrightarrow> a \<noteq> b \<Longrightarrow> set (f a) \<inter> set (f b) = {}) \<Longrightarrow> distinct (concat (map f as))"
  by (induction as) fastforce+

lemma distinct_count: "(\<And>x. count (mset xs) x \<le> 1) \<Longrightarrow> distinct xs"
  by (induction xs) (force simp: le_Suc_eq not_in_iff [symmetric] split: if_splits)+

lemma once_executed:
  assumes "once_inv w"
  shows "distinct (executed_ids w @ map task_ID (q_items (w_queue w)))"
proof -
  have ex: "exclusive (ids_at w)" using assms by (simp add: once_inv_def)
  have apart: "x \<notin># ids_at w q" if "x \<in># ids_at w p" "p \<noteq> q" for p q x
  proof -
    have "count (ids_at w p) x + count (ids_at w q) x \<le> 1" using ex that(2) by (simp add: exclusive_def)
    moreover have "0 < count (ids_at w p) x" using that(1) by (simp only: count_greater_zero_iff)
    ultimately have "count (ids_at w q) x = 0" by linarith
    then show ?thesis by (simp add: not_in_iff)
  qed
  have sent: "sent_ids (w_run w a) = mset (map inst_TaskID (y_started (w_run w a)))
      + mset (map inst_TaskID (in_hand (y_worker (w_run w a)) @ rn_in (y_r (w_run w a))))" for a
    using assms by (simp add: once_parts fifo_inv_def sent_ids_def)
  have started: "distinct (map inst_TaskID (y_started (w_run w a)))" for a
  proof (rule distinct_count)
    fix x
    have "count (ids_at w (AtRunner a)) x \<le> 1" using ex by (simp add: exclusive_def del: ids_at.simps)
    then show "count (mset (map inst_TaskID (y_started (w_run w a)))) x \<le> 1" by (simp add: sent)
  qed
  have member: "x \<in># ids_at w (AtRunner a)" if "x \<in> set (map inst_TaskID (y_started (w_run w a)))" for x a
    using that by (auto simp: sent)
  have queue: "distinct (map task_ID (q_items (w_queue w)))"
  proof (rule distinct_count)
    fix x
    have "count (ids_at w AtQueue) x \<le> 1" using ex by (simp add: exclusive_def del: ids_at.simps)
    then show "count (mset (map task_ID (q_items (w_queue w)))) x \<le> 1" by (simp add: queue_contents_def)
  qed
  have "distinct (executed_ids w)"
    unfolding executed_ids_def
  proof (rule distinct_concat_map)
    show "set (map inst_TaskID (y_started (w_run w a))) \<inter> set (map inst_TaskID (y_started (w_run w b))) = {}"
      if "a \<noteq> b" for a b
      using member [of _ a] member [of _ b] apart [of _ "AtRunner a" "AtRunner b"] that by blast
  qed (simp_all add: started)
  moreover have "x \<notin> set (map task_ID (q_items (w_queue w)))" if "x \<in> set (executed_ids w)" for x
  proof -
    from that obtain a where "x \<in> set (map inst_TaskID (y_started (w_run w a)))" by (auto simp: executed_ids_def)
    from apart [OF member [OF this], of AtQueue] show ?thesis by (simp add: queue_contents_def)
  qed
  ultimately show ?thesis using queue by (auto simp: disjoint_iff)
qed

end
