(* ===== verification/Catch_Up.thy ===== *)
theory Catch_Up
  imports Dispatch
begin

text \<open>
  Catching up an executor (\<open>internal/dispatch/catchup.go\<close> and \<open>CatchUp\<close>, \<open>CatchUpFrom\<close> in
  \<open>dispatch.go\<close>): what it relies on its task source for, and the order it leaves the runner's
  queue in.
\<close>

section \<open>The source of missed tasks\<close>

text \<open>
  A source retains tasks in strictly increasing order of sequence and reads the ones after a
  position up to its cursor.
\<close>

locale task_source =
  fixes since :: "'s \<Rightarrow> int64 \<Rightarrow> (go_error + task list) option"
    and items :: "'s \<Rightarrow> task list"
    and cursor :: "'s \<Rightarrow> int64"
    and inv :: "'s \<Rightarrow> bool"
  assumes since_reads: "inv s \<Longrightarrow> min_int64 \<le> after \<Longrightarrow> after < max_int64 \<Longrightarrow>
        since s after = Some (Inr (filter (\<lambda>t. after < task_Sequence t \<and> task_Sequence t \<le> cursor s) (items s)))"
    and items_sorted: "inv s \<Longrightarrow> sorted_wrt (<) (map task_Sequence (items s))"
    and items_pos: "inv s \<Longrightarrow> t \<in> set (items s) \<Longrightarrow> 0 < task_Sequence t"
begin

definition missed :: "'s \<Rightarrow> int64 \<Rightarrow> task list" where
  "missed s after = filter (\<lambda>t. after < task_Sequence t \<and> task_Sequence t \<le> cursor s) (items s)"

lemma since_missed: "inv s \<Longrightarrow> min_int64 \<le> after \<Longrightarrow> after < max_int64 \<Longrightarrow> since s after = Some (Inr (missed s after))"
  by (simp add: since_reads missed_def)

lemma missed_sorted: "inv s \<Longrightarrow> sorted_wrt (<) (map task_Sequence (missed s after))"
  using items_sorted by (simp add: missed_def sorted_wrt_map sorted_wrt_filter)

lemma missed_distinct: "inv s \<Longrightarrow> distinct (missed s after)"
  using missed_sorted [of s after] by (metis distinct_map strict_sorted_iff)

lemma missed_from_start: "inv s \<Longrightarrow> missed s 0 = filter (\<lambda>t. task_Sequence t \<le> cursor s) (items s)"
  using items_pos by (auto simp: missed_def intro: filter_cong)

lemma missed_again: "missed s (cursor s) = []"
  by (auto simp: missed_def filter_empty_conv)

end

definition store_source_inv :: "store \<Rightarrow> bool" where
  "store_source_inv s \<longleftrightarrow> store_inv s \<and> s_committed s < max_int64"

interpretation src: task_source Store_Since store_items Store_Cursor store_source_inv
  by unfold_locales
    (auto simp: store_source_inv_def Store_Cursor_def Since_returns store_inv_def)

section \<open>The replay, write by write\<close>

definition live_enqueues :: "(nat \<Rightarrow> inst list) \<Rightarrow> (nat \<Rightarrow> wait) \<Rightarrow> nat \<Rightarrow> runner \<Rightarrow> runner" where
  "live_enqueues lives ws k r = foldl (\<lambda>r i. snd (Runner_Enqueue (ws k) r i)) r (lives k)"

definition inst_keys :: "inst list \<Rightarrow> string set" where
  "inst_keys is = inst_DedupeKey ` set is"

lemma inst_keys_simps [simp]:
  "inst_keys [] = {}" "inst_keys (i # is) = insert (inst_DedupeKey i) (inst_keys is)"
  "inst_keys (is @ js) = inst_keys is \<union> inst_keys js"
  by (auto simp: inst_keys_def)

lemma live_buffered:
  "\<not> rn_closed r \<Longrightarrow> rn_replay r \<Longrightarrow> inst_keys is \<inter> rn_inflight r = {} \<Longrightarrow>
   foldl (\<lambda>r i. snd (Runner_Enqueue w r i)) r is = r\<lparr>rn_buffer := rn_buffer r @ is\<rparr>"
  by (induction "is" arbitrary: r) (simp_all add: Runner_Enqueue_replay)

lemma flush_all:
  "length (rn_in r) + length is \<le> rn_cap r \<Longrightarrow>
   foldl (\<lambda>r i. snd (sendLocked w r i)) r is =
     r\<lparr>rn_in := rn_in r @ is, rn_inflight := rn_inflight r \<union> inst_keys is\<rparr>"
  by (induction "is" arbitrary: r) (simp_all add: sendLocked_room)

text \<open>The instances of a list of tasks, and the live ones that arrive before each of \<open>n\<close> writes and after the last.\<close>

fun replayed_insts :: "(nat \<Rightarrow> handoff_env) \<Rightarrow> nat \<Rightarrow> task list \<Rightarrow> inst list" where
  "replayed_insts envs i [] = []"
| "replayed_insts envs i (t # ts) = task_instance (envs i) t # replayed_insts envs (i + 1) ts"

fun lives_from :: "(nat \<Rightarrow> inst list) \<Rightarrow> nat \<Rightarrow> nat \<Rightarrow> inst list" where
  "lives_from lives i 0 = lives i"
| "lives_from lives i (Suc n) = lives i @ lives_from lives (i + 1) n"

lemma replayed_insts_simps [simp]:
  "length (replayed_insts envs i ts) = length ts"
  "inst_keys (replayed_insts envs i ts) = task_DedupeKey ` set ts"
  "map inst_TaskID (replayed_insts envs i ts) = map task_ID ts"
  by (induction ts arbitrary: i) (simp_all add: task_instance_def)

lemma replay_loop_room:
  "\<not> rn_closed r \<Longrightarrow> rn_replay r \<Longrightarrow> length (rn_in r) + length ts \<le> rn_cap r \<Longrightarrow>
   inst_keys (lives_from lives i (length ts)) \<inter> (rn_inflight r \<union> task_DedupeKey ` set ts) = {} \<Longrightarrow>
   replay_loop envs (live_enqueues lives ws) i ts r =
     (None, r\<lparr>rn_in := rn_in r @ replayed_insts envs i ts,
              rn_inflight := rn_inflight r \<union> task_DedupeKey ` set ts,
              rn_buffer := rn_buffer r @ lives_from lives i (length ts)\<rparr>)"
proof (induction ts arbitrary: i r)
  case Nil
  then show ?case by (simp add: live_enqueues_def live_buffered)
next
  case (Cons t ts)
  let ?i = "task_instance (envs i) t"
  have key: "inst_DedupeKey ?i = task_DedupeKey t" by (simp add: task_instance_def)
  have live: "live_enqueues lives ws i r = r\<lparr>rn_buffer := rn_buffer r @ lives i\<rparr>"
    using Cons.prems(1,2,4) by (auto simp: live_enqueues_def intro!: live_buffered)
  let ?r = "r\<lparr>rn_buffer := rn_buffer r @ lives i,
      rn_inflight := insert (task_DedupeKey t) (rn_inflight r), rn_in := rn_in r @ [?i]\<rparr>"
  have wr: "ReplayWrite (he_wait (envs i)) (live_enqueues lives ws i r) ?i = (None, ?r)"
    using Cons.prems(1,3) by (simp add: live ReplayWrite_room key)
  have "replay_loop envs (live_enqueues lives ws) (i + 1) ts ?r =
     (None, ?r\<lparr>rn_in := rn_in ?r @ replayed_insts envs (i + 1) ts,
               rn_inflight := rn_inflight ?r \<union> task_DedupeKey ` set ts,
               rn_buffer := rn_buffer ?r @ lives_from lives (i + 1) (length ts)\<rparr>)"
    using Cons.prems by (intro Cons.IH) auto
  then show ?case by (simp add: wr)
qed

section \<open>Properties\<close>

text \<open>
  C13: a catch-up replays what was missed, in order, ahead of what arrived meanwhile.  For a store
  and an open runner of an executor, with room for everything and no live instance of a key that is
  in flight or replayed, the call returns without error; the runner's queue is extended by one
  instance for each retained task committed after the given position, in the order of their
  sequences, then by the live instances enqueued during the replay in the order they came; and the
  replay window is closed again with nothing left in its buffer.
\<close>

theorem catch_up_order:
  assumes "store_inv (sys_store y)" and "s_committed (sys_store y) < max_int64"
    and "min_int64 \<le> from" and "from < max_int64"
    and "missed = filter (\<lambda>t. from < task_Sequence t \<and> task_Sequence t \<le> Store_Cursor (sys_store y))
        (store_items (sys_store y))"
    and "Manager_Get (sys_execs y) exec = Some r" and "\<not> rn_closed r" and "\<not> rn_replay r"
    and "live = lives_from lives 0 (length missed)"
    and "length (rn_in r) + length missed + length live \<le> rn_cap r"
    and "inst_keys live \<inter> (rn_inflight r \<union> task_DedupeKey ` set missed) = {}"
  shows "sorted_wrt (<) (map task_Sequence missed)
    \<and> (\<exists>z r' replayed. CatchUp envs (live_enqueues lives ws) w y exec from = Some (None, z)
        \<and> Manager_Get (sys_execs z) exec = Some r'
        \<and> rn_in r' = rn_in r @ replayed @ live
        \<and> map inst_TaskID replayed = map task_ID missed
        \<and> map inst_DedupeKey replayed = map task_DedupeKey missed
        \<and> \<not> rn_replay r' \<and> rn_buffer r' = [] \<and> \<not> rn_closed r')"
proof -
  have src: "store_source_inv (sys_store y)" using assms(1,2) by (simp add: store_source_inv_def)
  have m: "missed = src.missed (sys_store y) from" using assms(5) by (simp add: src.missed_def)
  note since = src.since_missed [OF src assms(3,4)]
  let ?ins = "replayed_insts envs 0 missed"
  let ?r1 = "r\<lparr>rn_replay := True, rn_buffer := []\<rparr>"
  let ?r2 = "?r1\<lparr>rn_in := rn_in r @ ?ins, rn_inflight := rn_inflight r \<union> task_DedupeKey ` set missed,
      rn_buffer := live\<rparr>"
  let ?r3 = "?r2\<lparr>rn_replay := False, rn_buffer := [], rn_in := rn_in r @ ?ins @ live,
      rn_inflight := rn_inflight r \<union> task_DedupeKey ` set missed \<union> inst_keys live\<rparr>"
  have loop: "replay_loop envs (live_enqueues lives ws) 0 missed ?r1 = (None, ?r2)"
    using replay_loop_room [of ?r1 missed lives 0 envs ws] assms(7,9,10,11) by simp
  have "EndReplay w ?r2 = ?r3"
    using assms(10) by (simp add: EndReplay_def EndReplay_take_def flush_all)
  then have "ReplayWindow w r (\<lambda>r. case Store_Since (sys_store y) from of None \<Rightarrow> None
      | Some (Inl err) \<Rightarrow> Some (Some err, r)
      | Some (Inr missed) \<Rightarrow> Some (replay_loop envs (live_enqueues lives ws) 0 missed r)) = Some (None, ?r3)"
    using assms(7,8) loop by (simp add: ReplayWindow_def BeginReplay_def since m)
  then have "CatchUp envs (live_enqueues lives ws) w y exec from =
      Some (None, y\<lparr>sys_execs := Manager_Put (sys_execs y) exec ?r3\<rparr>)"
    using assms(6) by (simp add: CatchUp_def CatchUpFrom_def)
  moreover have "map inst_DedupeKey (replayed_insts envs i ts) = map task_DedupeKey ts" for i ts
    by (induction ts arbitrary: i) (simp_all add: task_instance_def)
  ultimately show ?thesis
    using src.missed_sorted [OF src, of "from"] assms(7) by (simp add: m)
qed

theorem catch_up_order_witness:
  "let y = sample_leased\<lparr>sys_store := snd (Store_Commit (sys_store sample_leased) 1)\<rparr>;
       i = task_instance sample_env (sample_task ''d'' 20)
   in \<exists>z r. CatchUp (\<lambda>n. sample_env) (live_enqueues (\<lambda>n. if n = 0 then [i] else []) (\<lambda>n r. (Timer, r)))
            (\<lambda>r. (Timer, r)) y ''w'' 0 = Some (None, z)
        \<and> Manager_Get (sys_execs z) ''w'' = Some r \<and> map inst_TaskID (rn_in r) = [''b'', ''d'']"
proof -
  define y where "y = sample_leased\<lparr>sys_store := snd (Store_Commit (sys_store sample_leased) 1)\<rparr>"
  define i where "i = task_instance sample_env (sample_task ''d'' 20)"
  let ?m = "filter (\<lambda>t. 0 < task_Sequence t \<and> task_Sequence t \<le> Store_Cursor (sys_store y))
        (store_items (sys_store y))"
  let ?lives = "\<lambda>n::nat. if n = 0 then [i] else []"
  have step: "store_inv (sys_store z) \<and> s_seq (sys_store z) = n \<Longrightarrow> n < max_int64 \<Longrightarrow>
      store_inv (sys_store (snd (Broker_Publish z t))) \<and> s_seq (sys_store (snd (Broker_Publish z t))) = n + 1"
    for z t n
    using Publish_store(1,2) [of z t] by auto
  have "store_inv (sys_store sample_queued) \<and> s_seq (sys_store sample_queued) = 0 + 1 + 1 + 1"
    unfolding sample_queued_def foldl_Cons foldl_Nil
    by (intro step conjI sample_system_inv) (simp_all add: sample_system_def NewStore_def max_int64_def)
  then have inv: "store_inv (sys_store y)" by (simp add: y_def sample_leased_def Commit_inv)
  have c: "s_committed (sys_store y) < max_int64" "min_int64 \<le> 0" "(0::int64) < max_int64"
    unfolding y_def by code_simp+
  have m: "map task_ID ?m = [''b'']" "map task_DedupeKey ?m = [''b-key'']" unfolding y_def by code_simp+
  then have len: "length ?m = Suc 0" by (metis length_map length_Cons list.size(3))
  have none: "Manager_Get (NewManager 2) ''w'' = None" "em_queueSize (NewManager 2) = 2"
    by (simp_all add: NewManager_def Manager_Get_def)
  obtain r where r: "Manager_Get (sys_execs y) ''w'' = Some r"
    and rn: "\<not> rn_closed r" "\<not> rn_replay r" "rn_in r = []" "rn_cap r = 2" "rn_inflight r = {}"
    using none by (simp add: y_def sample_leased_def sample_queued_def sample_system_def NewRunner_def)
  have live: "[i] = lives_from ?lives 0 (length ?m)" by (simp only: len) simp
  have "set (map task_DedupeKey ?m) = {''b-key''}" unfolding m by simp
  then have keys: "task_DedupeKey ` set ?m = {''b-key''}" by simp
  have "inst_DedupeKey i = ''d-key''" unfolding i_def by code_simp
  then have room: "length (rn_in r) + length ?m + length [i] \<le> rn_cap r"
    "inst_keys [i] \<inter> (rn_inflight r \<union> task_DedupeKey ` set ?m) = {}"
    unfolding keys len rn by simp_all
  obtain z r' replayed where
    "CatchUp (\<lambda>n. sample_env) (live_enqueues ?lives (\<lambda>n r. (Timer, r))) (\<lambda>r. (Timer, r)) y ''w'' 0 = Some (None, z)"
    "Manager_Get (sys_execs z) ''w'' = Some r'" "rn_in r' = rn_in r @ replayed @ [i]"
    "map inst_TaskID replayed = map task_ID ?m"
    using catch_up_order [OF inv c refl r rn(1,2) live room, of "\<lambda>n. sample_env" "\<lambda>n r. (Timer, r)" "\<lambda>r. (Timer, r)"]
    by blast
  moreover have "inst_TaskID i = ''d''" unfolding i_def by code_simp
  ultimately show ?thesis using m(1) rn(3) by (fold y_def i_def) (auto simp: Let_def)
qed

text \<open>
  A catch-up that cannot open the window does nothing.  Without a runner it reports the unknown
  executor; on a runner that is replaying, or closed, it reports that a window is already open (for
  a closed one, too), and no runner changes.
\<close>

theorem catch_up_refused:
  assumes "case Manager_Get (sys_execs y) exec of None \<Rightarrow> True | Some r \<Rightarrow> rn_replay r \<or> rn_closed r"
  shows "\<exists>z. CatchUpFrom envs live w y exec from source =
      Some (Some (if Manager_Get (sys_execs y) exec = None then ErrNoExecutor else ErrAlreadyReplaying), z)
    \<and> (\<forall>e. Manager_Get (sys_execs z) e = Manager_Get (sys_execs y) e)
    \<and> z\<lparr>sys_execs := sys_execs y\<rparr> = y"
  using assms
  by (auto simp: CatchUpFrom_def ReplayWindow_def BeginReplay_def split: option.splits)

end
