(* ===== verification/Liveness.thy ===== *)
theory Liveness
  imports System Catch_Up
begin

text \<open>
  What gets done: a tick hands every task of its window to a runner that has room for them, and the
  turns of the runner's worker execute them.  The lemmas follow a hand-off (\<open>dispatchOne\<close> in
  \<open>internal/dispatch/dispatch.go\<close>), a window of them, and the worker (\<open>run\<close> and \<open>execute\<close> in
  \<open>internal/exec/runner.go\<close> with the handler of \<open>cmd/jobsched/main.go\<close>), one after the other.
\<close>

section \<open>The hand-offs of a window\<close>

abbreviation handoff_times :: "(nat \<Rightarrow> handoff_env) \<Rightarrow> nat \<Rightarrow> nat \<Rightarrow> time list" where
  "handoff_times envs i n \<equiv> map (\<lambda>j. he_now (envs j)) [i..<i + n]"

text \<open>A runner takes the tasks if it is open, outside a replay, with room and none of their keys in flight.\<close>

definition takes :: "runner \<Rightarrow> task list \<Rightarrow> bool" where
  "takes r ts \<longleftrightarrow> \<not> rn_closed r \<and> \<not> rn_replay r \<and> length (rn_in r) + length ts \<le> rn_cap r \<and>
     distinct (map task_DedupeKey ts) \<and> rn_inflight r \<inter> task_DedupeKey ` set ts = {}"

text \<open>What the hand-offs of tasks leave, compared to the state before.\<close>

definition handed_window :: "system \<Rightarrow> executor_id \<Rightarrow> runner \<Rightarrow> inst list \<Rightarrow> task list \<Rightarrow> system \<Rightarrow> bool" where
  "handed_window y exec r is ts z \<longleftrightarrow>
     Manager_Get (sys_execs z) exec = Some (runner_with r is) \<and>
     s_dispatched (sys_store z) = s_dispatched (sys_store y) \<union> task_Sequence ` set ts \<and>
     s_seq (sys_store z) = s_seq (sys_store y) \<and>
     m_dispatched (sys_metrics z) = m_dispatched (sys_metrics y) + of_nat (length ts) \<and>
     m_failed (sys_metrics z) = m_failed (sys_metrics y) \<and>
     m_succeeded (sys_metrics z) = m_succeeded (sys_metrics y)"

lemma handoff_window:
  assumes "Manager_Get (sys_execs y) exec = Some r" and "takes r ts"
    and "admits fl exec (sys_flow y) (handoff_times envs i (length ts))"
    and "\<forall>t \<in> set ts. task_Sequence t \<le> s_seq (sys_store y)"
  shows "\<exists>z. handoff_all fl envs None exec i err ts y = (err, z) \<and>
    handed_window y exec r (replayed_insts envs i ts) ts z"
  using assms
proof (induction ts arbitrary: i y r)
  case Nil
  then show ?case by (simp add: handed_window_def)
next
  case (Cons t ts)
  let ?i = "task_instance (envs i) t" and ?l = "snd (Allow fl (sys_flow y) exec (he_now (envs i)))"
  let ?y = "handed_off ?l (envs i) exec r t y"
  have times: "handoff_times envs i (length (t # ts)) = he_now (envs i) # handoff_times envs (i + 1) (length ts)"
    by (simp add: upt_rec)
  have ok: "fst (Allow fl (sys_flow y) exec (he_now (envs i)))" "admits fl exec ?l (handoff_times envs (i + 1) (length ts))"
    using Cons.prems(3) unfolding times by simp_all
  have guards: "\<not> rn_closed r" "\<not> rn_replay r" "length (rn_in r) < rn_cap r" "task_DedupeKey t \<notin> rn_inflight r"
    and seq: "task_Sequence t \<le> s_seq (sys_store y)"
    using Cons.prems(2,4) by (auto simp: takes_def)
  note one = dispatchOne_room [OF ok(1) Cons.prems(1) guards seq]
  have y: "Manager_Get (sys_execs ?y) exec = Some (runner_with r [?i])" "sys_flow ?y = ?l"
    "sys_metrics ?y = Metric_Dispatched (sys_metrics y)"
    by (simp_all add: handed_off_def)
  note store = handed_off_store [OF seq, of ?l "envs i" exec r]
  have takes: "takes (runner_with r [?i]) ts"
    using Cons.prems(2) by (auto simp: takes_def)
  have rest: "admits fl exec (sys_flow ?y) (handoff_times envs (i + 1) (length ts))"
    "\<forall>u \<in> set ts. task_Sequence u \<le> s_seq (sys_store ?y)"
    using ok(2) Cons.prems(4) store(3) y(2) by simp_all
  obtain z where z: "handoff_all fl envs None exec (i + 1) err ts ?y = (err, z)"
    "handed_window ?y exec (runner_with r [?i]) (replayed_insts envs (i + 1) ts) ts z"
    using Cons.IH [OF y(1) takes rest] by blast
  then have "handed_window y exec r (replayed_insts envs i (t # ts)) (t # ts) z"
    by (simp add: handed_window_def y(3) store Metric_Dispatched_def Inc_def)
  moreover have "(if err = None then None else err) = err" by simp
  ultimately show ?case using z(1) by (simp add: one)
qed

section \<open>The turns of a worker\<close>

lemma record_latest:
  "tid \<in> inst_TaskID ` set is \<Longrightarrow>
   \<exists>i \<in> set is. Store_TaskRecord (foldl Store_RecordTaskExecution st is) tid = Some i \<and> inst_TaskID i = tid"
proof (induction "is" rule: rev_induct)
  case (snoc i "is")
  then show ?case
    by (cases "inst_TaskID i = tid") (auto simp: Store_TaskRecord_def Store_RecordTaskExecution_def)
qed simp

text \<open>What \<open>n\<close> turns leave, compared to the state before them.\<close>

definition worked :: "system \<Rightarrow> executor_id \<Rightarrow> runner \<Rightarrow> inst list \<Rightarrow> system \<Rightarrow> bool" where
  "worked y exec r is z \<longleftrightarrow>
     Manager_Get (sys_execs z) exec = Some r \<and>
     sys_store z = foldl Store_RecordTaskExecution (sys_store y) is \<and>
     m_succeeded (sys_metrics z) = m_succeeded (sys_metrics y) + of_nat (length is) \<and>
     m_dispatched (sys_metrics z) = m_dispatched (sys_metrics y) \<and>
     m_failed (sys_metrics z) = m_failed (sys_metrics y) \<and>
     sys_queue z = sys_queue y \<and> sys_reg z = sys_reg y"

lemma worker_turns:
  assumes "Manager_Get (sys_execs y) exec = Some r" and "\<not> rn_closed r" and "rn_in r = is @ rest"
  shows "worked y exec (r\<lparr>rn_inflight := rn_inflight r - inst_DedupeKey ` set is, rn_in := rest\<rparr>) is
    (foldl (\<lambda>y _. worker_turn exec y) y is)"
  using assms
proof (induction "is" arbitrary: y r)
  case Nil
  then show ?case by (simp add: worked_def)
next
  case (Cons i "is")
  let ?r = "release (r\<lparr>rn_in := is @ rest\<rparr>) i" and ?y = "worker_turn exec y"
  have y: "?y = (main_handler i y)\<lparr>sys_execs := Manager_Put (sys_execs y) exec ?r\<rparr>"
    using Cons.prems by (simp add: worker_turn_def)
  then have "Manager_Get (sys_execs ?y) exec = Some ?r" by simp
  from Cons.IH [OF this] Cons.prems(2) show ?case
    by (simp add: worked_def release_def y main_handler_def Succeeded_def Inc_def Diff_insert2 [symmetric] insert_commute)
qed

lemma worker_events:
  "foldl (sys_step fl cfg) y (replicate (length is) (EvWorker exec)) = foldl (\<lambda>y _. worker_turn exec y) y is"
  by (induction "is" arbitrary: y) simp_all

section \<open>A window and the turns after it\<close>

text \<open>What is left of a window after its tick and as many turns of the worker as it has tasks.\<close>

definition window_done :: "system \<Rightarrow> executor_id \<Rightarrow> runner \<Rightarrow> inst list \<Rightarrow> task list \<Rightarrow> system \<Rightarrow> bool" where
  "window_done y exec r is ts z \<longleftrightarrow>
     (\<forall>t \<in> set ts. Store_Dispatched (sys_store z) (task_Sequence t) \<and>
        (\<exists>i \<in> set is. Store_TaskRecord (sys_store z) (task_ID t) = Some i \<and> inst_TaskID i = task_ID t)) \<and>
     queue_contents (sys_queue z) + mset ts = queue_contents (sys_queue y) \<and>
     m_dispatched (sys_metrics z) = m_dispatched (sys_metrics y) + of_nat (length ts) \<and>
     m_succeeded (sys_metrics z) = m_succeeded (sys_metrics y) + of_nat (length ts) \<and>
     m_failed (sys_metrics z) = m_failed (sys_metrics y) \<and>
     (\<exists>r'. Manager_Get (sys_execs z) exec = Some r' \<and> rn_in r' = [] \<and> rn_inflight r' = rn_inflight r)"

lemma dispatched_after_records [simp]:
  "Store_Dispatched (foldl Store_RecordTaskExecution st is) q = Store_Dispatched st q"
  by (induction "is" arbitrary: st) (simp_all add: Store_Dispatched_def Store_RecordTaskExecution_def)

lemma window_doneI:
  assumes "handed_window y exec r is ts t"
    and "inst_DedupeKey ` set is = task_DedupeKey ` set ts" and "inst_TaskID ` set is = task_ID ` set ts"
    and "rn_in r = []" and "takes r ts"
    and "queue_contents (sys_queue t) + mset ts = queue_contents (sys_queue y)" and "length is = length ts"
  shows "window_done y exec r is ts (foldl (\<lambda>y _. worker_turn exec y) t is)"
proof -
  have r: "Manager_Get (sys_execs t) exec = Some (runner_with r is)" using assms(1) by (simp add: handed_window_def)
  have "worked t exec ((runner_with r is)\<lparr>rn_inflight := rn_inflight (runner_with r is) - inst_DedupeKey ` set is,
      rn_in := []\<rparr>) is (foldl (\<lambda>y _. worker_turn exec y) t is)"
    using worker_turns [OF r, of "is" "[]"] assms(4,5) by (simp add: takes_def)
  moreover have "rn_inflight (runner_with r is) - inst_DedupeKey ` set is = rn_inflight r"
    using assms(2,5) by (auto simp: takes_def)
  ultimately show ?thesis
    using assms(1,3,6,7) record_latest [of _ "is" "sys_store t"]
    by (simp add: window_done_def worked_def handed_window_def) (simp add: Store_Dispatched_def)
qed

lemma window_executed:
  assumes "sys_inv y" and "Lease_Executors (sys_leases y) ks = exec # es"
    and "ts = takeWhile (in_window (NextWindow now (cfg_TickInterval cfg))) (tick_batch y)"
    and "Manager_Get (sys_execs y) exec = Some r" and "rn_in r = []" and "takes r ts"
    and "admits fl exec (sys_flow y) (handoff_times envs 0 (length ts))"
  shows "window_done y exec r (replayed_insts envs 0 ts) ts
    (foldl (sys_step fl cfg) y (EvClockTick envs ks now # replicate (length ts) (EvWorker exec)))"
proof -
  let ?win = "NextWindow now (cfg_TickInterval cfg)" and ?is = "replayed_insts envs 0 ts"
  have q: "queue_inv (sys_queue y)" using assms(1) by (simp add: sys_inv_def)
  have seqs: "\<forall>t \<in> set ts. task_Sequence t \<le> s_seq (sys_store (drained y))"
    using assms(1,3) batch_props(1) [OF q]
    by (auto simp: sys_inv_def queued_ok_def drained_def dest!: set_takeWhileD) (metis set_mset_mset)
  have "Manager_Get (sys_execs (drained y)) exec = Some r" "sys_flow (drained y) = sys_flow y"
    using assms(4) by (simp_all add: drained_def)
  then obtain h where h: "handoff_all fl envs None exec 0 None ts (drained y) = (None, h)"
    "handed_window (drained y) exec r ?is ts h"
    using handoff_window [of "drained y" exec r ts fl envs 0 None] assms(6,7) seqs by auto
  let ?t = "main_tick fl cfg envs ks now y"
  have t: "?t = Dispatcher_requeue h (dropWhile (in_window ?win) (tick_batch y))"
    using h(1) assms(2,3) by (simp add: main_tick_def Tick_cases [OF q] Let_def)
  have "queue_contents (sys_queue ?t) = mset (dropWhile (in_window ?win) (tick_batch y))"
    using Tick_None_queue(1) [OF q, of fl envs ks ?win] assms(2) by (simp add: main_tick_def tick_rest_def)
  then have queue: "queue_contents (sys_queue ?t) + mset ts = queue_contents (sys_queue y)"
    using assms(3) batch_props(1) [OF q] by (metis add.commute mset_append takeWhile_dropWhile_id)
  have "handed_window y exec r ?is ts ?t"
    using h(2) by (simp add: t requeue_enq_all handed_window_def drained_def)
  moreover have "inst_DedupeKey ` set ?is = task_DedupeKey ` set ts"
    using replayed_insts_simps(2) [of envs 0 ts] by (simp add: inst_keys_def)
  moreover have "inst_TaskID ` set ?is = task_ID ` set ts"
    by (metis list.set_map replayed_insts_simps(3))
  ultimately have "window_done y exec r ?is ts (foldl (\<lambda>y _. worker_turn exec y) ?t ?is)"
    by (rule window_doneI [OF _ _ _ assms(5,6) queue replayed_insts_simps(1)])
  then show ?thesis using worker_events [of fl cfg ?t ?is exec] by simp
qed

section \<open>From the request to the execution\<close>

definition requested_task :: "string \<Rightarrow> string \<Rightarrow> time \<Rightarrow> time \<Rightarrow> publish_request \<Rightarrow> task" where
  "requested_task tid key now created req =
     NewTask tid key created (pr_Group req) (pr_Payload req) (now + wrap64 (pr_DueAfter req * millisecond))"

lemma publish_ready:
  assumes "sys_inv y" and "s_seq (sys_store y) < max_int64"
    and "Store_Len (sys_store y) < r_cap (s_ring (sys_store y))"
    and "Queue_Len (sys_queue y) < q_limit (sys_queue y)"
    and "\<not> trims_to_empty (pr_Group req)" and "pr_DependsOn req = []" and "Graph_Ready (sys_deps y) tid"
    and "handlePublish tid key now created ''POST'' (Some req) y = (resp, z)"
  shows "resp = RespAccepted (s_seq (sys_store y) + 1) tid" "sys_inv z"
    "queue_contents (sys_queue z) =
       add_mset (published_task y (requested_task tid key now created req)) (queue_contents (sys_queue y))"
    "sys_execs z = sys_execs y" "sys_leases z = sys_leases y" "sys_flow z = sys_flow y"
proof -
  let ?t = "requested_task tid key now created req"
  have tid: "task_ID ?t = tid" by (simp add: requested_task_def NewTask_def)
  have st: "store_inv (sys_store y)" using assms(1) by (simp add: sys_inv_def)
  obtain res w where p: "Broker_Publish y ?t = (res, w)" by fastforce
  have h: "handlePublish tid key now created ''POST'' (Some req) y =
      (case res of Inl e \<Rightarrow> (error_response e, w) | Inr q \<Rightarrow> (RespAccepted q tid, w))"
    using assms(5,6) p tid by (simp add: handlePublish_def requested_task_def Let_def split: sum.split)
  have "res = Inr (s_seq (sys_store y) + 1) \<and> sys_queue w = snd (Queue_Enqueue (sys_queue y) (published_task y ?t))"
    using Publish_cases [OF st assms(2), of ?t] assms(3,4,7) p tid
    by (auto simp: Let_def published_task_def)
  moreover from this have z: "z = w" "resp = RespAccepted (s_seq (sys_store y) + 1) tid" using h assms(8) by simp_all
  ultimately show "queue_contents (sys_queue z) = add_mset (published_task y ?t) (queue_contents (sys_queue y))"
    using Enqueue_ok(2) [of "sys_queue y" "published_task y ?t"] assms(4) by (simp add: Queue_Len_def)
  show "resp = RespAccepted (s_seq (sys_store y) + 1) tid" by (rule z)
  show "sys_inv z" using Publish_inv(1) [OF assms(1,2), of ?t] p z by simp
  show "sys_execs z = sys_execs y" "sys_leases z = sys_leases y" "sys_flow z = sys_flow y"
    using Publish_frames [of y ?t] p z by simp_all
qed

lemma batch_single:
  assumes "queue_inv (sys_queue y)" and "queue_contents (sys_queue y) = {#u#}"
  shows "tick_batch y = [u]"
  using batch_props(1) [OF assms(1)] assms(2) by simp

text \<open>A small configuration and some events for the witnesses.\<close>

definition sample_config :: config where
  "sample_config = (Load '':8080'')\<lparr>cfg_StoreCapacity := 4, cfg_QueueSize := 4\<rparr>"

definition sample_request :: "string list \<Rightarrow> publish_request" where
  "sample_request deps = \<lparr>pr_Group = ''batch'', pr_Payload = [], pr_DueAfter = 0, pr_DependsOn = deps\<rparr>"

definition sample_tick :: sys_event where
  "sample_tick = EvClockTick (\<lambda>n. sample_env) [''w''] 5"

lemma sample_tick_ok: "event_ok sample_tick"
  by (simp add: sample_tick_def sample_env_def wait_ok_def)

definition sample_registered :: system where
  "sample_registered = foldl (sys_step id sample_config) (main_state id sample_config) [EvExecutorReq 5 ''POST'' (Some ''w'')]"

lemma sample_registered_reads:
  "Lease_Executors (sys_leases sample_registered) [''w''] = [''w'']"
  "Manager_Get (sys_execs sample_registered) ''w'' = Some (NewRunner 64)"
  "has_credits 1 5 (sys_flow sample_registered) ''w''"
proof -
  show "Lease_Executors (sys_leases sample_registered) [''w''] = [''w'']" by code_simp
  have "sys_execs sample_registered = snd (Manager_Add (NewManager 64) ''w'')"
    by (simp add: sample_registered_def handleExecutor_def main_state_def sample_config_def Load_def Let_def case_prod_beta)
  moreover have "Manager_Get (NewManager 64) ''w'' = None" "em_queueSize (NewManager 64) = 64"
    by (simp_all add: NewManager_def Manager_Get_def)
  ultimately show "Manager_Get (sys_execs sample_registered) ''w'' = Some (NewRunner 64)" by simp
  have "sys_flow sample_registered = NewLimiter id DefaultPolicy"
    by (simp add: sample_registered_def handleExecutor_def main_state_def sample_config_def Load_def Let_def case_prod_beta)
  then show "has_credits 1 5 (sys_flow sample_registered) ''w''"
    by (simp add: has_credits_def NewLimiter_def Policy_Validate_def DefaultPolicy_def exI [of _ 400])
qed

lemma id_rounding: "float_rounding id 0"
  by (simp add: float_rounding_def mono_def)

section \<open>Properties\<close>

text \<open>
  C6: every task of a window is executed.  In any reachable state, when the executor the tick takes
  has an idle runner with an empty queue and room for the tasks of the window, whose dedupe keys
  differ and are not in flight, and the limiter's credits cover them, then after the tick and as
  many turns of the runner's worker as the window has tasks: each of the tasks is marked as handed
  off and has an execution record of its own, exactly these tasks have left the waiting queue, the
  dispatched and succeeded counters have gone up by their number and no failure is counted, and the
  runner is idle again with the keys in flight it had before.
\<close>

theorem window_executes:
  assumes "float_rounding fl u" and "\<forall>ev \<in> set evs. event_ok ev" and "int (length evs) \<le> max_int64"
    and "y = foldl (sys_step fl cfg) (main_state fl cfg) evs"
    and "ts = takeWhile (in_window (NextWindow now (cfg_TickInterval cfg))) (fst (Queue_Drain (sys_queue y)))"
    and "Lease_Executors (sys_leases y) ks = exec # es" and "Manager_Get (sys_execs y) exec = Some r"
    and "rn_in r = []" and "length ts \<le> rn_cap r"
    and "distinct (map task_DedupeKey ts)" and "rn_inflight r \<inter> task_DedupeKey ` set ts = {}"
    and "has_credits (length ts) t0 (sys_flow y) exec" and "sorted (t0 # handoff_times envs 0 (length ts))"
    and "z = foldl (sys_step fl cfg) y (EvClockTick envs ks now # replicate (length ts) (EvWorker exec))"
  shows "(\<forall>t \<in> set ts. Store_Dispatched (sys_store z) (task_Sequence t)
        \<and> (\<exists>i. Store_TaskRecord (sys_store z) (task_ID t) = Some i \<and> inst_TaskID i = task_ID t))
    \<and> queue_contents (sys_queue z) + mset ts = queue_contents (sys_queue y)
    \<and> m_dispatched (sys_metrics z) = m_dispatched (sys_metrics y) + of_nat (length ts)
    \<and> m_succeeded (sys_metrics z) = m_succeeded (sys_metrics y) + of_nat (length ts)
    \<and> m_failed (sys_metrics z) = m_failed (sys_metrics y)
    \<and> (\<exists>r'. Manager_Get (sys_execs z) exec = Some r' \<and> rn_in r' = [] \<and> rn_inflight r' = rn_inflight r)"
proof -
  have inv: "sys_inv y" using events_inv [OF assms(2,3), of fl cfg] assms(4) by simp
  then have "runner_ok r" using assms(7) by (auto simp: sys_inv_def execs_ok_def)
  then have takes: "takes r ts" using assms(8-11) by (simp add: takes_def runner_ok_def)
  have "admits fl exec (sys_flow y) (handoff_times envs 0 (length ts))"
    using burst_granted [OF assms(1) _ assms(13)] assms(12) by simp
  from window_executed [OF inv assms(6) _ assms(7,8) takes this] assms(5,14)
  have "window_done y exec r (replayed_insts envs 0 ts) ts z" by (simp add: tick_batch_def)
  then show ?thesis unfolding window_done_def by blast
qed

theorem window_executes_witness:
  "let y = snd (handlePublish ''t'' ''k'' 5 5 ''POST'' (Some (sample_request [])) sample_registered);
       z = foldl (sys_step id sample_config) y [sample_tick, EvWorker ''w'']
   in Store_TaskRecord (sys_store z) ''t'' \<noteq> None \<and> m_succeeded (sys_metrics z) = 1"
proof -
  let ?evs = "[EvExecutorReq 5 ''POST'' (Some ''w''), EvPublishReq ''t'' ''k'' 5 5 ''POST'' (Some (sample_request []))]"
  define y where "y = foldl (sys_step id sample_config) (main_state id sample_config) ?evs"
  have y: "y = snd (handlePublish ''t'' ''k'' 5 5 ''POST'' (Some (sample_request [])) sample_registered)"
    by (simp add: y_def sample_registered_def)
  define ts where "ts = takeWhile (in_window (NextWindow 5 (cfg_TickInterval sample_config))) (fst (Queue_Drain (sys_queue y)))"
  have ids: "map task_ID ts = [''t'']" "map task_DedupeKey ts = [''k'']" unfolding ts_def y_def by code_simp+
  then obtain t where t: "ts = [t]" "task_ID t = ''t''" "task_DedupeKey t = ''k''" by auto
  define z where "z = foldl (sys_step id sample_config) y
      (EvClockTick (\<lambda>n. sample_env) [''w''] 5 # replicate (length ts) (EvWorker ''w''))"
  have ok: "\<forall>ev \<in> set ?evs. event_ok ev" "int (length ?evs) \<le> max_int64" by (simp_all add: max_int64_def)
  have frames: "sys_execs y = sys_execs sample_registered" "sys_flow y = sys_flow sample_registered"
    "sys_leases y = sys_leases sample_registered" "m_succeeded (sys_metrics y) = 0"
  proof -
    show "sys_execs y = sys_execs sample_registered" "sys_flow y = sys_flow sample_registered"
      "sys_leases y = sys_leases sample_registered"
      using handlePublish_step [of "''t''" "''k''" 5 5 "''POST''" "Some (sample_request [])" sample_registered]
      unfolding y by auto
    show "m_succeeded (sys_metrics y) = 0" unfolding y_def by code_simp
  qed
  have r: "rn_in (NewRunner 64) = []" "length ts \<le> rn_cap (NewRunner 64)" "distinct (map task_DedupeKey ts)"
    "rn_inflight (NewRunner 64) \<inter> task_DedupeKey ` set ts = {}"
    by (simp_all add: NewRunner_def t)
  have c: "has_credits (length ts) 5 (sys_flow y) ''w''" "sorted (5 # handoff_times (\<lambda>n. sample_env) 0 (length ts))"
    using sample_registered_reads(3) by (simp_all add: frames t sample_env_def)
  note window = window_executes [OF id_rounding ok y_def ts_def sample_registered_reads(1)[folded frames]
      sample_registered_reads(2)[folded frames] r c z_def]
  have "Store_TaskRecord (sys_store z) ''t'' \<noteq> None" using window t(1,2) by auto
  moreover have "m_succeeded (sys_metrics z) = 1" using window frames(4) by (simp add: t(1))
  moreover have "z = foldl (sys_step id sample_config) y [sample_tick, EvWorker ''w'']"
    by (simp add: z_def t(1) sample_tick_def)
  ultimately show ?thesis by (simp only: Let_def y [symmetric]) blast
qed

text \<open>
  C5: a published task runs.  In any reachable state with an empty waiting queue and room in the
  store, with an idle runner of the executor the tick takes (nothing queued in it, and the dedupe key
  of the task not in flight), and with a credit left for that executor in the rate limiter, last
  refilled no later than the hand-off, a publish request for a group that is not blank, with no
  dependencies and under an id that waits for nothing, is accepted with the next sequence; and when it
  is due in the window of the next tick, that tick and one turn of the worker leave an execution
  record of the task, under its own dedupe key, its sequence marked as handed off, and the waiting
  queue empty.
\<close>

theorem published_task_runs:
  assumes "float_rounding fl u" and "\<forall>ev \<in> set evs. event_ok ev" and "int (length evs) < max_int64"
    and "y = foldl (sys_step fl cfg) (main_state fl cfg) evs"
    and "Store_Len (sys_store y) < r_cap (s_ring (sys_store y))" and "q_items (sys_queue y) = []"
    and "\<not> trims_to_empty (pr_Group req)" and "pr_DependsOn req = []" and "Graph_Ready (sys_deps y) tid"
    and "Lease_Executors (sys_leases y) ks = exec # es" and "Manager_Get (sys_execs y) exec = Some r"
    and "rn_in r = []" and "0 < rn_cap r" and "key \<notin> rn_inflight r"
    and "has_credits 1 t0 (sys_flow y) exec" and "t0 \<le> he_now (envs 0)"
    and "Window_Contains (NextWindow tick (cfg_TickInterval cfg)) (now + wrap64 (pr_DueAfter req * millisecond))"
    and "handlePublish tid key now created ''POST'' (Some req) y = (resp, y1)"
    and "z = sys_step fl cfg (sys_step fl cfg y1 (EvClockTick envs ks tick)) (EvWorker exec)"
  shows "resp = RespAccepted (s_seq (sys_store y) + 1) tid
    \<and> (\<exists>i. Store_TaskRecord (sys_store z) tid = Some i \<and> inst_TaskID i = tid \<and> inst_DedupeKey i = key)
    \<and> Store_Dispatched (sys_store z) (s_seq (sys_store y) + 1) \<and> queue_contents (sys_queue z) = {#}"
proof -
  have inv: "sys_inv y" "s_seq (sys_store y) < max_int64"
    using events_inv [OF assms(2) less_imp_le [OF assms(3)], of fl cfg] assms(3,4) by simp_all
  have room: "Queue_Len (sys_queue y) < q_limit (sys_queue y)"
    using inv(1) assms(6) by (simp add: sys_inv_def queue_inv_def Queue_Len_def)
  note pub = publish_ready [OF inv assms(5) room assms(7-9,18)]
  let ?u = "published_task y (requested_task tid key now created req)"
  have u: "task_ID ?u = tid" "task_DedupeKey ?u = key" "task_Sequence ?u = s_seq (sys_store y) + 1"
    "in_window (NextWindow tick (cfg_TickInterval cfg)) ?u"
    using assms(17) by (simp_all add: published_task_def requested_task_def NewTask_def)
  have q: "queue_contents (sys_queue y1) = {#?u#}" using pub(3) assms(6) by (simp add: queue_contents_def)
  have "queue_inv (sys_queue y1)" using pub(2) by (simp add: sys_inv_def)
  from batch_single [OF this q]
  have ts: "[?u] = takeWhile (in_window (NextWindow tick (cfg_TickInterval cfg))) (tick_batch y1)" using u(4) by simp
  have "runner_ok r" using inv(1) assms(11) by (auto simp: sys_inv_def execs_ok_def)
  then have takes: "takes r [?u]" using assms(12-14) u(2) by (simp add: takes_def runner_ok_def)
  have "admits fl exec (sys_flow y1) (handoff_times envs 0 (length [?u]))"
    using burst_granted [OF assms(1), of "handoff_times envs 0 1" t0 "sys_flow y" exec] assms(15,16) pub(6) by simp
  from window_executed [OF pub(2) _ ts _ assms(12) takes this] assms(10,11,19) pub(4,5)
  have "window_done y1 exec r (replayed_insts envs 0 [?u]) [?u] z" by simp
  then show ?thesis
    using pub(1) u q by (auto simp: window_done_def)
qed

theorem published_task_runs_witness:
  "let (resp, y) = handlePublish ''t'' ''k'' 5 5 ''POST'' (Some (sample_request [])) sample_registered;
       z = sys_step id sample_config (sys_step id sample_config y sample_tick) (EvWorker ''w'')
   in resp = RespAccepted 1 ''t'' \<and> map_option inst_DedupeKey (Store_TaskRecord (sys_store z) ''t'') = Some ''k''"
proof -
  let ?y = sample_registered
  obtain resp y1 where p: "handlePublish ''t'' ''k'' 5 5 ''POST'' (Some (sample_request [])) ?y = (resp, y1)" by fastforce
  let ?z = "sys_step id sample_config (sys_step id sample_config y1 (EvClockTick (\<lambda>n. sample_env) [''w''] 5)) (EvWorker ''w'')"
  have ok: "\<forall>ev \<in> set [EvExecutorReq 5 ''POST'' (Some ''w'')]. event_ok ev"
    "int (length [EvExecutorReq 5 ''POST'' (Some ''w'')]) < max_int64" by (simp_all add: max_int64_def)
  have room: "Store_Len (sys_store ?y) < r_cap (s_ring (sys_store ?y))" "q_items (sys_queue ?y) = []"
    "\<not> trims_to_empty (pr_Group (sample_request []))" "pr_DependsOn (sample_request []) = []"
    "Graph_Ready (sys_deps ?y) ''t''" "s_seq (sys_store ?y) = 0"
    by code_simp+
  have run: "rn_in (NewRunner 64) = []" "0 < rn_cap (NewRunner 64)" "''k'' \<notin> rn_inflight (NewRunner 64)"
    by (simp_all add: NewRunner_def)
  have due: "5 \<le> he_now sample_env" "Window_Contains (NextWindow 5 (cfg_TickInterval sample_config))
      (5 + wrap64 (pr_DueAfter (sample_request []) * millisecond))"
    by code_simp+
  from published_task_runs [OF id_rounding ok sample_registered_def room(1-5) sample_registered_reads(1,2) run
      sample_registered_reads(3) due(1) due(2) p refl] room(6)
  have "resp = RespAccepted 1 ''t''" "map_option inst_DedupeKey (Store_TaskRecord (sys_store ?z) ''t'') = Some ''k''"
    by auto
  then show ?thesis unfolding sample_tick_def p Let_def prod.case by blast
qed

end
