(* ===== verification/Schedules.thy ===== *)
theory Schedules
  imports Once Liveness
begin

text \<open>
  Executable schedules: the steps of \<open>Goroutines\<close> as functions, of a choice of the goroutine that runs
  next and of what it gets from outside.  Every schedule that can be evaluated is a run of the step
  relation, which is how particular runs are exhibited.
\<close>

section \<open>Steps of a runner\<close>

fun is_idle :: "caller_pc \<Rightarrow> bool" where
  "is_idle (CIdle x) \<longleftrightarrow> True"
| "is_idle _ \<longleftrightarrow> False"

fun runner_next :: "action \<Rightarrow> runner_sys \<Rightarrow> runner_sys option" where
  "runner_next (Enq t i) s =
     (if y_lock s = None \<and> is_idle (y_thr s t) then
        (case Enqueue_try (y_r s) i of
           (Some res, r') \<Rightarrow> Some (s\<lparr>y_r := r', y_thr := goes s t (CIdle res),
              y_sent := (if res = None \<and> \<not> rn_replay (y_r s) then y_sent s @ [(Live, i)] else y_sent s),
              y_accepted := (if res = None then y_accepted s @ [(Live, i)] else y_accepted s)\<rparr>)
         | (None, r') \<Rightarrow> Some (s\<lparr>y_r := r', y_thr := goes s t (CSlow i)\<rparr>))
      else None)"
| "runner_next (SlowSend t) s =
     (case y_thr s t of
        CSlow i \<Rightarrow>
          map_option (\<lambda>r'. s\<lparr>y_r := r', y_thr := goes s t (CSlowSent i), y_sent := y_sent s @ [(LiveSlow, i)],
              y_plain := False\<rparr>) (chan_send (y_r s) i)
      | _ \<Rightarrow> None)"
| "runner_next (SlowMark t) s =
     (case y_thr s t of
        CSlowSent i \<Rightarrow>
          if y_lock s = None
          then Some (s\<lparr>y_r := reserve (y_r s) i, y_thr := goes s t (CIdle None),
              y_accepted := y_accepted s @ [(LiveSlow, i)]\<rparr>)
          else None
      | _ \<Rightarrow> None)"
| "runner_next (SlowTimeout t) s =
     (case y_thr s t of CSlow i \<Rightarrow> Some (s\<lparr>y_thr := goes s t (CIdle (Some RunnerErrFull))\<rparr>) | _ \<Rightarrow> None)"
| "runner_next (SlowStop t) s =
     (case y_thr s t of
        CSlow i \<Rightarrow> if rn_stop (y_r s) then Some (s\<lparr>y_thr := goes s t (CIdle (Some ErrClosed))\<rparr>) else None
      | _ \<Rightarrow> None)"
| "runner_next (ReplaySend t i) s =
     (if y_lock s = None \<and> is_idle (y_thr s t) then
        if rn_closed (y_r s) then Some (s\<lparr>y_thr := goes s t (CIdle (Some ErrClosed))\<rparr>)
        else Some (s\<lparr>y_r := reserve (y_r s) i, y_lock := Some t, y_thr := goes s t (CSend i None),
               y_plain := False\<rparr>)
      else None)"
| "runner_next (SendOk t) s =
     (case y_thr s t of
        CSend i k \<Rightarrow>
          map_option (\<lambda>r'. s\<lparr>y_r := r', y_lock := None, y_thr := goes s t (after_send k None),
              y_sent := y_sent s @ [(send_origin k, i)]\<rparr>) (chan_send (y_r s) i)
      | _ \<Rightarrow> None)"
| "runner_next (SendTimeout t) s =
     (case y_thr s t of
        CSend i k \<Rightarrow> Some (s\<lparr>y_r := release (y_r s) i, y_lock := None,
              y_thr := goes s t (after_send k (Some RunnerErrFull))\<rparr>)
      | _ \<Rightarrow> None)"
| "runner_next (OpenReplay t) s =
     (if y_lock s = None \<and> is_idle (y_thr s t) then
        (case BeginReplay (y_r s) of
           (ok, r') \<Rightarrow> Some (s\<lparr>y_r := r',
              y_thr := goes s t (CIdle (if ok then None else Some ErrAlreadyReplaying)),
              y_mark := (if ok then length (y_sent s) else y_mark s)\<rparr>))
      else None)"
| "runner_next (CloseReplay t) s =
     (if y_lock s = None \<and> is_idle (y_thr s t) then
        (case EndReplay_take (y_r s) of (flush, r') \<Rightarrow> Some (s\<lparr>y_r := r', y_thr := goes s t (CFlush flush)\<rparr>))
      else None)"
| "runner_next (FlushNext t) s =
     (case y_thr s t of
        CFlush (i # rest) \<Rightarrow>
          if y_lock s = None
          then Some (s\<lparr>y_r := reserve (y_r s) i, y_lock := Some t, y_thr := goes s t (CSend i (Some rest)),
                 y_plain := False\<rparr>)
          else None
      | _ \<Rightarrow> None)"
| "runner_next (FlushEnd t) s =
     (case y_thr s t of CFlush [] \<Rightarrow> Some (s\<lparr>y_thr := goes s t (CIdle None)\<rparr>) | _ \<Rightarrow> None)"
| "runner_next (ShutBegin t) s =
     (if y_lock s = None \<and> is_idle (y_thr s t) then
        if rn_closed (y_r s) then Some s
        else Some (s\<lparr>y_r := (y_r s)\<lparr>rn_closed := True\<rparr>, y_thr := goes s t CShutWait\<rparr>)
      else None)"
| "runner_next (ShutStop t) s =
     (if y_thr s t = CShutWait \<and> rn_wg (y_r s) = 0
      then Some (s\<lparr>y_r := (y_r s)\<lparr>rn_stop := True\<rparr>, y_thr := goes s t CShutStop\<rparr>) else None)"
| "runner_next (ShutDone t) s =
     (if y_thr s t = CShutStop
      then Some (s\<lparr>y_r := (y_r s)\<lparr>rn_done := True\<rparr>, y_thr := goes s t (CIdle None)\<rparr>) else None)"
| "runner_next Recv s =
     (case (y_worker s, rn_in (y_r s)) of
        (WIdle, i # rest) \<Rightarrow> Some (s\<lparr>y_r := (y_r s)\<lparr>rn_in := rest\<rparr>, y_worker := WGot i\<rparr>)
      | _ \<Rightarrow> None)"
| "runner_next WorkerStop s =
     (if y_worker s = WIdle \<and> rn_stop (y_r s) then Some (s\<lparr>y_worker := WExited []\<rparr>) else None)"
| "runner_next StartInst s =
     (case y_worker s of
        WGot i \<Rightarrow>
          if y_lock s \<noteq> None then None
          else if rn_closed (y_r s) then Some (s\<lparr>y_worker := WExited [i]\<rparr>)
          else Some (s\<lparr>y_r := (y_r s)\<lparr>rn_wg := rn_wg (y_r s) + 1\<rparr>, y_worker := WRunning i,
                 y_started := y_started s @ [i]\<rparr>)
      | _ \<Rightarrow> None)"
| "runner_next HandlerReturn s =
     (case y_worker s of WRunning i \<Rightarrow> Some (s\<lparr>y_worker := WFinish i\<rparr>) | _ \<Rightarrow> None)"
| "runner_next FinishInst s =
     (case y_worker s of
        WFinish i \<Rightarrow> if y_lock s = None then Some (s\<lparr>y_r := release (y_r s) i, y_worker := WWgDone i\<rparr>) else None
      | _ \<Rightarrow> None)"
| "runner_next LeaveGroup s =
     (case y_worker s of
        WWgDone i \<Rightarrow> Some (s\<lparr>y_r := (y_r s)\<lparr>rn_wg := rn_wg (y_r s) - 1\<rparr>, y_worker := WIdle\<rparr>)
      | _ \<Rightarrow> None)"

lemma idle_iff: "is_idle pc \<longleftrightarrow> (\<exists>x. pc = CIdle x)" by (cases pc) simp_all

text \<open>An action has one outcome, so the function is the whole step relation.\<close>

lemma runner_next_step: "runner_next a s = Some s' \<Longrightarrow> runner_step s a s'"
  by (cases a)
    (auto simp: runner_step_simps idle_iff split: if_splits prod.splits option.splits caller_pc.splits
      worker_pc.splits list.splits)

lemma runner_step_next: "runner_step s a s' \<Longrightarrow> runner_next a s = Some s'"
  by (induction rule: runner_step.induct) (simp_all add: case_prod_beta)

lemma runner_next_iff: "runner_next a s = Some s' \<longleftrightarrow> runner_step s a s'"
  using runner_next_step runner_step_next by blast

declare runner_next.simps [simp del]

section \<open>Steps of the program\<close>

text \<open>
  A choice: a publish request with the uuids and instants its goroutine reads; a registration; the
  next step of a request; of the ticking goroutine, with the order of the lease table and what the
  hand-off reads; of the heartbeat; of a call in a runner; of a worker or its handler.
\<close>

datatype choice =
  ChPublish nat string string time time publish_request
| ChRegister nat executor_id
| ChReq nat time
| ChTick "executor_id list" handoff_env
| ChTickCall action
| ChHeart "executor_id list" time
| ChHeartCall action
| ChWork nat action
| ChHandler nat

definition publish_next :: "nat \<Rightarrow> string \<Rightarrow> string \<Rightarrow> time \<Rightarrow> time \<Rightarrow> publish_request \<Rightarrow> world \<Rightarrow> world option" where
  "publish_next t i k now created req w =
     (if w_req w t = ReqIdle \<and> \<not> trims_to_empty (pr_Group req) \<and> i \<notin> w_ids w
      then Some (w\<lparr>w_req := req_at w t (ReqDeps
             (NewTask i k created (pr_Group req) (pr_Payload req) (now + wrap64 (pr_DueAfter req * millisecond)))
             (pr_DependsOn req)), w_ids := insert i (w_ids w)\<rparr>)
      else None)"

definition register_next :: "config \<Rightarrow> nat \<Rightarrow> executor_id \<Rightarrow> world \<Rightarrow> world option" where
  "register_next cfg t e w =
     (if w_req w t = ReqIdle \<and> e \<noteq> [] then
        (case gget (w_em w) e of
           Some a \<Rightarrow> Some (w\<lparr>w_req := req_at w t (ReqAcquire e)\<rparr>)
         | None \<Rightarrow> Some (w\<lparr>w_em := gput e (w_next w) (w_em w),
             w_run := run_at w (w_next w) (runner_start (cfg_RunnerQueue cfg)), w_next := w_next w + 1,
             w_req := req_at w t (ReqAcquire e)\<rparr>))
      else None)"

definition req_next :: "nat \<Rightarrow> time \<Rightarrow> world \<Rightarrow> world option" where
  "req_next t now w =
     (case w_req w t of
        ReqDeps u (d # ds) \<Rightarrow>
          Some (w\<lparr>w_deps := Graph_Add (w_deps w) (task_ID u) [d], w_req := req_at w t (ReqDeps u ds)\<rparr>)
      | ReqDeps u [] \<Rightarrow>
          (case Store_Append (w_store w) u of
             (Inl err, st) \<Rightarrow> Some (w\<lparr>w_store := st, w_req := req_at w t (ReqDone (error_response err))\<rparr>)
           | (Inr seq, st) \<Rightarrow> Some (w\<lparr>w_store := st, w_req := req_at w t (ReqClear (u\<lparr>task_Sequence := seq\<rparr>))\<rparr>))
      | ReqClear u \<Rightarrow>
          Some (w\<lparr>w_store := Store_ClearTaskRecord (w_store w) (task_ID u), w_req := req_at w t (ReqRegister u)\<rparr>)
      | ReqRegister u \<Rightarrow>
          Some (w\<lparr>w_reg := Registry_Register (w_reg w) u, w_req := req_at w t (ReqReady u)\<rparr>)
      | ReqReady u \<Rightarrow>
          Some (w\<lparr>w_req := req_at w t (if Graph_Ready (w_deps w) (task_ID u) then ReqEnqueue u else ReqAdvance u)\<rparr>)
      | ReqEnqueue u \<Rightarrow>
          (case Queue_Enqueue (w_queue w) u of
             (None, q) \<Rightarrow> Some (w\<lparr>w_queue := q, w_req := req_at w t (ReqAdvance u)\<rparr>)
           | (Some err, q) \<Rightarrow> Some (w\<lparr>w_queue := q, w_req := req_at w t (ReqDone (error_response err))\<rparr>))
      | ReqAdvance u \<Rightarrow>
          Some (w\<lparr>w_progress := Cursor_Advance (w_progress w) (task_Sequence u), w_req := req_at w t (ReqCount u)\<rparr>)
      | ReqCount u \<Rightarrow>
          Some (w\<lparr>w_metrics := Published (w_metrics w),
            w_req := req_at w t (ReqDone (RespAccepted (task_Sequence u) (task_ID u)))\<rparr>)
      | ReqAcquire e \<Rightarrow>
          (case Lease_Acquire (w_leases w) e now of
             ((slot, ok), lm) \<Rightarrow> Some (w\<lparr>w_leases := lm, w_req := req_at w t (ReqDone (RespRegistered e slot))\<rparr>))
      | _ \<Rightarrow> None)"

definition tick_next ::
  "(rat \<Rightarrow> rat) \<Rightarrow> config \<Rightarrow> executor_id list \<Rightarrow> handoff_env \<Rightarrow> world \<Rightarrow> world option" where
  "tick_next fl cfg ks env w =
     (case w_tick w of
        TickWait \<Rightarrow>
          (case Queue_Drain (w_queue w) of
             ([], q) \<Rightarrow> Some (w\<lparr>w_queue := q\<rparr>)
           | (u # us, q) \<Rightarrow> Some (w\<lparr>w_queue := q,
               w_tick := TickLease (NextWindow (he_now env) (cfg_TickInterval cfg)) (u # us)\<rparr>))
      | TickLease win batch \<Rightarrow>
          if range_order (lm_leases (w_leases w)) ks then
            (case Lease_Executors (w_leases w) ks of
               [] \<Rightarrow> Some (w\<lparr>w_tick := TickRequeue batch\<rparr>)
             | e # es \<Rightarrow> Some (w\<lparr>w_tick := TickNext (e, win, batch)\<rparr>))
          else None
      | TickRequeue (u # us) \<Rightarrow>
          Some (w\<lparr>w_queue := snd (Queue_Enqueue (w_queue w) u), w_tick := TickRequeue us\<rparr>)
      | TickRequeue [] \<Rightarrow> Some (w\<lparr>w_tick := TickWait\<rparr>)
      | TickNext (e, win, []) \<Rightarrow> Some (w\<lparr>w_tick := TickWait\<rparr>)
      | TickNext (e, win, u # us) \<Rightarrow>
          if \<not> Window_Contains win (task_DueAt u) then Some (w\<lparr>w_tick := TickRequeue (u # us)\<rparr>)
          else
            (case Allow fl (w_flow w) e (he_now env) of
               (False, fw) \<Rightarrow> Some (w\<lparr>w_flow := fw, w_tick := TickNext (e, win, us)\<rparr>)
             | (True, fw) \<Rightarrow> Some (w\<lparr>w_flow := fw, w_tick := TickGet (e, win, us) u (task_instance env u)\<rparr>))
      | TickGet (e, win, us) u i \<Rightarrow>
          (case gget (w_em w) e of
             None \<Rightarrow> Some (w\<lparr>w_tick := TickFail (e, win, us)\<rparr>)
           | Some a \<Rightarrow> Some (w\<lparr>w_tick := TickEnqueue a (e, win, us) u i\<rparr>))
      | TickEnqueue a c u i \<Rightarrow>
          (case runner_next (Enq 0 i) (w_run w a) of
             None \<Rightarrow> None
           | Some s \<Rightarrow> Some (w\<lparr>w_run := run_at w a s, w_tick := TickCall a c u\<rparr>))
      | TickCall a c u \<Rightarrow>
          (case y_thr (w_run w a) 0 of
             CIdle None \<Rightarrow> Some (w\<lparr>w_tick := TickMark c u\<rparr>)
           | CIdle (Some err) \<Rightarrow> Some (w\<lparr>w_tick := TickFail c\<rparr>)
           | _ \<Rightarrow> None)
      | TickMark c u \<Rightarrow>
          Some (w\<lparr>w_store := Store_MarkDispatched (w_store w) (task_Sequence u) True, w_tick := TickCommit c u\<rparr>)
      | TickCommit c u \<Rightarrow>
          (case Store_Commit (w_store w) (task_Sequence u) of
             (err, st) \<Rightarrow> Some (w\<lparr>w_store := st,
               w_tick := (case err of None \<Rightarrow> TickSet c u | Some x \<Rightarrow> TickFail c)\<rparr>))
      | TickSet c u \<Rightarrow>
          Some (w\<lparr>w_reg := Registry_SetState (w_reg w) (task_ID u) TaskDispatched, w_tick := TickCount c\<rparr>)
      | TickCount c \<Rightarrow> Some (w\<lparr>w_metrics := Metric_Dispatched (w_metrics w), w_tick := TickNext c\<rparr>)
      | TickFail c \<Rightarrow> Some (w\<lparr>w_metrics := Failed (w_metrics w), w_tick := TickNext c\<rparr>)
      | TickStopped \<Rightarrow> None)"

definition tick_call_next :: "action \<Rightarrow> world \<Rightarrow> world option" where
  "tick_call_next b w =
     (case w_tick w of
        TickCall a c u \<Rightarrow>
          if b \<in> {SlowSend 0, SlowMark 0, SlowTimeout 0, SlowStop 0}
          then map_option (\<lambda>s. w\<lparr>w_run := run_at w a s\<rparr>) (runner_next b (w_run w a)) else None
      | _ \<Rightarrow> None)"

definition heart_next :: "executor_id list \<Rightarrow> time \<Rightarrow> world \<Rightarrow> world option" where
  "heart_next ks clock_now w =
     (case w_heart w of
        HeartWait \<Rightarrow>
          if range_order (lm_leases (w_leases w)) ks
          then Some (w\<lparr>w_heart := HeartEvict clock_now (Lease_ExpiredLeases (w_leases w) clock_now ks)\<rparr>) else None
      | HeartEvict now (e # es) \<Rightarrow>
          (case Lease_Evict (w_leases w) e of
             (hit, lm) \<Rightarrow> Some (w\<lparr>w_leases := lm,
               w_heart := (if hit then HeartGet now e es else HeartEvict now es)\<rparr>))
      | HeartEvict now [] \<Rightarrow>
          if range_order (lm_leases (w_leases w)) ks
          then Some (w\<lparr>w_heart := HeartLoop now (Lease_Executors (w_leases w) ks)\<rparr>) else None
      | HeartGet now e es \<Rightarrow>
          (case gget (w_em w) e of
             Some a \<Rightarrow> Some (w\<lparr>w_heart := HeartShut a now e es\<rparr>)
           | None \<Rightarrow> Some (w\<lparr>w_heart := HeartRemove now e es\<rparr>))
      | HeartShut a now e es \<Rightarrow>
          map_option (\<lambda>s. w\<lparr>w_run := run_at w a s, w_heart := HeartShutWait a now e es\<rparr>)
            (runner_next (ShutBegin 1) (w_run w a))
      | HeartShutWait a now e es \<Rightarrow>
          if is_idle (y_thr (w_run w a) 1) then Some (w\<lparr>w_heart := HeartRemove now e es\<rparr>) else None
      | HeartRemove now e es \<Rightarrow> Some (w\<lparr>w_em := gdel e (w_em w), w_heart := HeartCount now es\<rparr>)
      | HeartCount now es \<Rightarrow> Some (w\<lparr>w_metrics := Evicted (w_metrics w), w_heart := HeartEvict now es\<rparr>)
      | HeartLoop now (e # es) \<Rightarrow>
          Some (w\<lparr>w_heart := (if Lease_Expired (w_leases w) e now then HeartLoop now es else HeartRenew now e es)\<rparr>)
      | HeartLoop now [] \<Rightarrow> Some (w\<lparr>w_heart := HeartWait\<rparr>)
      | HeartRenew now e es \<Rightarrow>
          Some (w\<lparr>w_leases := snd (Lease_Renew (w_leases w) e clock_now), w_heart := HeartLoop now es\<rparr>)
      | HeartStopped \<Rightarrow> None)"

definition heart_call_next :: "action \<Rightarrow> world \<Rightarrow> world option" where
  "heart_call_next b w =
     (case w_heart w of
        HeartShutWait a now e es \<Rightarrow>
          if b \<in> {ShutStop 1, ShutDone 1}
          then map_option (\<lambda>s. w\<lparr>w_run := run_at w a s\<rparr>) (runner_next b (w_run w a)) else None
      | _ \<Rightarrow> None)"

definition work_next :: "nat \<Rightarrow> action \<Rightarrow> world \<Rightarrow> world option" where
  "work_next a b w =
     (if a < w_next w \<and> b \<in> {Recv, WorkerStop, StartInst, FinishInst, LeaveGroup}
      then map_option (\<lambda>s. w\<lparr>w_run := run_at w a s\<rparr>) (runner_next b (w_run w a)) else None)"

definition handler_next :: "nat \<Rightarrow> world \<Rightarrow> world option" where
  "handler_next a w =
     (if a < w_next w then
        (case (y_worker (w_run w a), w_hand w a) of
           (WRunning i, HandlerStart) \<Rightarrow>
             Some (w\<lparr>w_store := Store_RecordTaskExecution (w_store w) i, w_hand := (w_hand w)(a := HandlerRecorded)\<rparr>)
         | (WRunning i, HandlerRecorded) \<Rightarrow>
             Some (w\<lparr>w_metrics := Succeeded (w_metrics w), w_hand := (w_hand w)(a := HandlerCounted)\<rparr>)
         | (WRunning i, HandlerCounted) \<Rightarrow>
             map_option (\<lambda>s. w\<lparr>w_run := run_at w a s, w_hand := (w_hand w)(a := HandlerStart)\<rparr>)
               (runner_next HandlerReturn (w_run w a))
         | _ \<Rightarrow> None)
      else None)"

fun world_next :: "(rat \<Rightarrow> rat) \<Rightarrow> config \<Rightarrow> choice \<Rightarrow> world \<Rightarrow> world option" where
  "world_next fl cfg (ChPublish t i k now created req) w = publish_next t i k now created req w"
| "world_next fl cfg (ChRegister t e) w = register_next cfg t e w"
| "world_next fl cfg (ChReq t now) w = req_next t now w"
| "world_next fl cfg (ChTick ks env) w = tick_next fl cfg ks env w"
| "world_next fl cfg (ChTickCall b) w = tick_call_next b w"
| "world_next fl cfg (ChHeart ks now) w = heart_next ks now w"
| "world_next fl cfg (ChHeartCall b) w = heart_call_next b w"
| "world_next fl cfg (ChWork a b) w = work_next a b w"
| "world_next fl cfg (ChHandler a) w = handler_next a w"

fun run_schedule :: "(rat \<Rightarrow> rat) \<Rightarrow> config \<Rightarrow> choice list \<Rightarrow> world \<Rightarrow> world option" where
  "run_schedule fl cfg [] w = Some w"
| "run_schedule fl cfg (c # cs) w = (case world_next fl cfg c w of None \<Rightarrow> None | Some w' \<Rightarrow> run_schedule fl cfg cs w')"

section \<open>Schedules are runs\<close>

lemma publish_next_step: "publish_next t i k now created req w = Some w' \<Longrightarrow> publish_step w w'"
  by (auto simp: publish_next_def intro!: pub_start split: if_splits)

lemma register_next_step: "register_next cfg t e w = Some w' \<Longrightarrow> register_step cfg w w'"
  by (auto simp: register_next_def simp del: One_nat_def intro: register_step.intros split: if_splits option.splits)

lemma req_next_step: "req_next t now w = Some w' \<Longrightarrow> publish_step w w' \<or> register_step cfg w w'"
  by (auto simp: req_next_def intro: publish_step.intros register_step.intros
      split: req_pc.splits list.splits prod.splits sum.splits option.splits)

lemma tick_next_step: "tick_next fl cfg ks env w = Some w' \<Longrightarrow> tick_step fl cfg w w'"
  by (auto simp: tick_next_def intro: tick_step.intros tick_commit [where err = None, simplified]
      tick_commit [where err = "Some x" for x, simplified] runner_next_step
      split: tick_pc.splits list.splits prod.splits option.splits if_splits bool.splits caller_pc.splits)


lemma tick_call_next_step: "tick_call_next b w = Some w' \<Longrightarrow> tick_step fl cfg w w'"
proof (cases "w_tick w")
  case (TickCall a c u)
  assume "tick_call_next b w = Some w'"
  then obtain s where "b \<in> {SlowSend 0, SlowMark 0, SlowTimeout 0, SlowStop 0}" "runner_next b (w_run w a) = Some s"
    "w' = w\<lparr>w_run := run_at w a s\<rparr>"
    by (simp add: tick_call_next_def TickCall split: if_split_asm) blast
  then show ?thesis using tick_slow [OF TickCall _ runner_next_step] by simp
qed (simp_all add: tick_call_next_def)

lemma heart_next_step: "heart_next ks now w = Some w' \<Longrightarrow> heart_step w w'"
  by (auto simp: heart_next_def idle_iff simp del: One_nat_def intro: heart_step.intros
      heart_evict [where hit = True, simplified] heart_evict [where hit = False, simplified] runner_next_step
      split: heart_pc.splits list.splits prod.splits option.splits if_splits)

lemma heart_call_next_step: "heart_call_next b w = Some w' \<Longrightarrow> heart_step w w'"
proof (cases "w_heart w")
  case (HeartShutWait a now e es)
  assume "heart_call_next b w = Some w'"
  then obtain s where "b \<in> {ShutStop 1, ShutDone 1}" "runner_next b (w_run w a) = Some s"
    "w' = w\<lparr>w_run := run_at w a s\<rparr>"
    by (simp add: heart_call_next_def HeartShutWait split: if_split_asm) blast
  then show ?thesis using heart_closing [OF HeartShutWait _ runner_next_step] by simp
qed (simp_all add: heart_call_next_def)

lemma work_next_step: "work_next a b w = Some w' \<Longrightarrow> work_step w w'"
proof -
  assume "work_next a b w = Some w'"
  then obtain s where "a < w_next w" "b \<in> {Recv, WorkerStop, StartInst, FinishInst, LeaveGroup}"
    "runner_next b (w_run w a) = Some s" "w' = w\<lparr>w_run := run_at w a s\<rparr>"
    by (simp add: work_next_def split: if_split_asm) blast
  then show ?thesis using work_runner [OF _ _ runner_next_step] by simp
qed

lemma handler_next_step: "handler_next a w = Some w' \<Longrightarrow> work_step w w'"
  by (auto simp: handler_next_def intro: work_record work_count work_return runner_next_step
      split: if_splits worker_pc.splits handler_pc.splits)

lemma world_next_step: "world_next fl cfg c w = Some w' \<Longrightarrow> world_step fl cfg w w'"
  by (cases c)
    (auto simp: world_step_def dest: publish_next_step register_next_step req_next_step [where cfg = cfg] tick_next_step
      tick_call_next_step [where fl = fl and cfg = cfg] heart_next_step heart_call_next_step work_next_step handler_next_step)

lemma run_schedule_from:
  "run_schedule fl cfg cs w = Some w' \<Longrightarrow> world_run fl cfg n w \<Longrightarrow> world_run fl cfg (n + length cs) w'"
proof (induction cs arbitrary: n w)
  case (Cons c cs)
  then obtain v where v: "world_next fl cfg c w = Some v" "run_schedule fl cfg cs v = Some w'"
    by (auto split: option.splits)
  have "world_run fl cfg (Suc n) v" using Cons.prems(2) world_next_step [OF v(1)] by (rule run_of.run_step)
  from Cons.IH [OF v(2) this] show ?case by simp
qed simp

lemma run_schedule_run:
  "run_schedule fl cfg cs (world_start fl cfg) = Some w \<Longrightarrow> world_run fl cfg (length cs) w"
  using run_schedule_from [of fl cfg cs "world_start fl cfg" w 0] by (simp add: run_of.run_init)


text \<open>
  A schedule for the witnesses: an executor registers, two tasks are published, the second while the
  ticking goroutine has already drained the first, and both are handed off and executed.
\<close>

definition publish_choices :: "nat \<Rightarrow> string \<Rightarrow> choice list" where
  "publish_choices t i = ChPublish t i i 5 5 (sample_request []) # replicate 7 (ChReq t 5)"

definition handoff_choices :: "choice list" where
  "handoff_choices = replicate 11 (ChTick [''w''] sample_env)"

definition worker_choices :: "nat \<Rightarrow> choice list" where
  "worker_choices a = [ChWork a Recv, ChWork a StartInst, ChHandler a, ChHandler a, ChHandler a,
     ChWork a FinishInst, ChWork a LeaveGroup]"

definition sample_schedule :: "choice list" where
  "sample_schedule = [ChRegister 0 ''w'', ChReq 0 5] @ publish_choices 1 ''a''
     @ [ChTick [''w''] sample_env] @ publish_choices 2 ''b'' @ handoff_choices @ worker_choices 0
     @ [ChTick [''w''] sample_env] @ handoff_choices @ worker_choices 0"

definition sample_world :: world where
  "sample_world = the (run_schedule id sample_config sample_schedule (world_start id sample_config))"


lemma sample_world_run: "world_run id sample_config (length sample_schedule) sample_world"
proof (rule run_schedule_run)
  have "map_option executed_ids (run_schedule id sample_config sample_schedule (world_start id sample_config))
      = Some [''a'', ''b'']"
    by code_simp
  then show "run_schedule id sample_config sample_schedule (world_start id sample_config) = Some sample_world"
    by (auto simp: sample_world_def)
qed

section \<open>Properties\<close>

text \<open>
  C2: A task is executed at most once, whatever the goroutines do in between.  In every state the program
  reaches through any interleaving of publish and executor requests, ticks, sweeps and workers, the
  executions that the runners have started (of all runners that ever existed, the evicted ones
  included) are of tasks with different ids, none of which waits in the queue, and each of which
  some publish request has drawn.
\<close>

theorem executed_at_most_once:
  assumes "world_run fl cfg n w"
  shows "distinct (executed_ids w @ map task_ID (q_items (w_queue w))) \<and> set (executed_ids w) \<subseteq> w_ids w"
proof -
  have inv: "once_inv w" using once.run_inv [OF assms order_refl] .
  have "set (executed_ids w) \<subseteq> w_ids w"
  proof
    fix x
    assume "x \<in> set (executed_ids w)"
    then obtain a where a: "x \<in> inst_TaskID ` set (y_started (w_run w a))" by (auto simp: executed_ids_def)
    have "map snd (y_sent (w_run w a)) = y_started (w_run w a) @ in_hand (y_worker (w_run w a)) @ rn_in (y_r (w_run w a))"
      using inv by (simp add: once_parts fifo_inv_def)
    then have "x \<in># ids_at w (AtRunner a)" using a by (auto simp: sent_ids_def)
    then show "x \<in> w_ids w" using inv by (auto simp: once_inv_def simp del: ids_at.simps)
  qed
  with once_executed [OF inv] show ?thesis by blast
qed

theorem executed_at_most_once_witness:
  "executed_ids sample_world = [''a'', ''b''] \<and> distinct (executed_ids sample_world) \<and> ''b'' \<in> w_ids sample_world"
proof -
  have "executed_ids sample_world = [''a'', ''b'']" unfolding sample_world_def by code_simp
  then show ?thesis using executed_at_most_once [OF sample_world_run] by auto
qed

end
