(* ===== verification/Interleaved.thy ===== *)
theory Interleaved
  imports Schedules
begin

text \<open>
  What holds of the components in every state of the interleaved program (\<open>Goroutines\<close>): each
  component's own invariant, and that no goroutine holds a task the others do not know.
\<close>

section \<open>The invariant\<close>

text \<open>A task that has been retained by the store and entered in the registry.\<close>

definition retained :: "store \<Rightarrow> task \<Rightarrow> bool" where
  "retained st u \<longleftrightarrow> u \<in> set (store_items st)"

definition known :: "store \<Rightarrow> registry \<Rightarrow> task \<Rightarrow> bool" where
  "known st r u \<longleftrightarrow> retained st u \<and> Registry_Get r (task_ID u) \<noteq> None"

text \<open>The tasks the ticking goroutine holds.\<close>

fun tick_tasks :: "tick_pc \<Rightarrow> task set" where
  "tick_tasks (TickLease win us) = set us"
| "tick_tasks (TickRequeue us) = set us"
| "tick_tasks (TickNext c) = set (rest_of c)"
| "tick_tasks (TickGet c u i) = insert u (set (rest_of c))"
| "tick_tasks (TickEnqueue a c u i) = insert u (set (rest_of c))"
| "tick_tasks (TickCall a c u) = insert u (set (rest_of c))"
| "tick_tasks (TickMark c u) = insert u (set (rest_of c))"
| "tick_tasks (TickCommit c u) = insert u (set (rest_of c))"
| "tick_tasks (TickSet c u) = insert u (set (rest_of c))"
| "tick_tasks (TickCount c) = set (rest_of c)"
| "tick_tasks (TickFail c) = set (rest_of c)"
| "tick_tasks _ = {}"

fun req_ok :: "store \<Rightarrow> registry \<Rightarrow> req_pc \<Rightarrow> bool" where
  "req_ok st r (ReqClear u) \<longleftrightarrow> retained st u"
| "req_ok st r (ReqRegister u) \<longleftrightarrow> retained st u"
| "req_ok st r (ReqReady u) \<longleftrightarrow> known st r u"
| "req_ok st r (ReqEnqueue u) \<longleftrightarrow> known st r u"
| "req_ok st r (ReqAdvance u) \<longleftrightarrow> known st r u"
| "req_ok st r (ReqCount u) \<longleftrightarrow> known st r u"
| "req_ok st r (ReqDone (RespAccepted q k)) \<longleftrightarrow> (\<exists>u. known st r u \<and> task_ID u = k \<and> task_Sequence u = q)"
| "req_ok st r _ \<longleftrightarrow> True"

definition comps_inv :: "world \<Rightarrow> bool" where
  "comps_inv w \<longleftrightarrow> store_inv (w_store w) \<and> queue_inv (w_queue w) \<and> registry_inv (w_reg w)
     \<and> graph_inv (w_deps w) \<and> lease_inv (w_leases w) \<and> c_pos (w_progress w) \<le> s_seq (w_store w)"

definition held_inv :: "world \<Rightarrow> bool" where
  "held_inv w \<longleftrightarrow> (\<forall>t. req_ok (w_store w) (w_reg w) (w_req w t))
     \<and> (\<forall>u \<in># queue_contents (w_queue w). known (w_store w) (w_reg w) u)
     \<and> (\<forall>u \<in> tick_tasks (w_tick w). known (w_store w) (w_reg w) u)"

definition world_inv :: "nat \<Rightarrow> world \<Rightarrow> bool" where
  "world_inv n w \<longleftrightarrow> comps_inv w \<and> held_inv w \<and> s_seq (w_store w) \<le> int n
     \<and> lm_next (w_leases w) \<le> int n"

section \<open>What every step keeps\<close>

text \<open>The store and the registry only grow, so what is known stays known.\<close>

definition grows :: "world \<Rightarrow> world \<Rightarrow> bool" where
  "grows w w' \<longleftrightarrow> set (store_items (w_store w)) \<subseteq> set (store_items (w_store w'))
     \<and> (\<forall>k. Registry_Get (w_reg w) k \<noteq> None \<longrightarrow> Registry_Get (w_reg w') k \<noteq> None)"

lemma known_grows:
  assumes "grows w w'"
  shows "retained (w_store w) u \<Longrightarrow> retained (w_store w') u"
    and "known (w_store w) (w_reg w) u \<Longrightarrow> known (w_store w') (w_reg w') u"
    and "req_ok (w_store w) (w_reg w) pc \<Longrightarrow> req_ok (w_store w') (w_reg w') pc"
proof -
  show r: "retained (w_store w) u \<Longrightarrow> retained (w_store w') u" for u
    using assms by (auto simp: grows_def retained_def)
  show k: "known (w_store w) (w_reg w) u \<Longrightarrow> known (w_store w') (w_reg w') u" for u
    using assms r by (auto simp: grows_def known_def)
  show "req_ok (w_store w) (w_reg w) pc \<Longrightarrow> req_ok (w_store w') (w_reg w') pc"
    using r k by (induction "w_store w" "w_reg w" pc rule: req_ok.induct) auto
qed

lemma grows_same [simp]: "w_store w' = w_store w \<Longrightarrow> w_reg w' = w_reg w \<Longrightarrow> grows w w'"
  by (simp add: grows_def)

lemma held_step:
  assumes "held_inv w" and "grows w w'"
    and "\<And>t. w_req w' t = w_req w t \<or> req_ok (w_store w') (w_reg w') (w_req w' t)"
    and "\<And>u. u \<in># queue_contents (w_queue w') \<Longrightarrow>
      u \<in># queue_contents (w_queue w) \<or> u \<in> tick_tasks (w_tick w) \<or> known (w_store w') (w_reg w') u"
    and "\<And>u. u \<in> tick_tasks (w_tick w') \<Longrightarrow> u \<in># queue_contents (w_queue w) \<or> u \<in> tick_tasks (w_tick w)"
  shows "held_inv w'"
  using assms known_grows [OF assms(2)] unfolding held_inv_def by metis


text \<open>A step of a request, of which only the new pc and the component it calls matter.\<close>

lemma Append_grows:
  assumes "store_inv st" and "s_seq st < max_int64" and "Store_Append st u = (res, st')"
  shows "store_inv st'" "s_seq st' = s_seq st + 1" "set (store_items st) \<subseteq> set (store_items st')"
    and "res = Inr q \<Longrightarrow> u\<lparr>task_Sequence := q\<rparr> \<in> set (store_items st')"
  using Append_inv [OF assms(1,2), of u] Append_items [OF assms] Append_result [OF assms(1,2), of u] assms(3)
  by (auto split: if_splits)

lemma Enqueue_members:
  assumes "Queue_Enqueue q u = (err, q')" and "v \<in># queue_contents q'"
  shows "v \<in># queue_contents q \<or> v = u"
  using assms Enqueue_ok [of q u] Enqueue_full [of q u]
  by (cases "int (length (q_items q)) < q_limit q") auto

lemma store_items_frames [simp]:
  "store_items (Store_MarkDispatched s q d) = store_items s" "store_items (snd (Store_Commit s q)) = store_items s"
  "store_items (Store_RecordTaskExecution s i) = store_items s" "store_items (Store_ClearTaskRecord s k) = store_items s"
  by (simp_all add: store_items_def)

lemma Register_registry_inv: "registry_inv r \<Longrightarrow> registry_inv (Registry_Register r u)"
  using registry_step_inv [of r "CallRegister u"] by simp

lemma SetState_registry_inv: "registry_inv r \<Longrightarrow> registry_inv (Registry_SetState r k x)"
  using registry_step_inv [of r "CallSetState k x"] by simp

lemma held_sequence:
  "comps_inv w \<Longrightarrow> known (w_store w) (w_reg w) u \<Longrightarrow> task_Sequence u \<le> s_seq (w_store w)"
  by (auto simp: comps_inv_def store_inv_def known_def retained_def)

lemma inv_publish:
  assumes "publish_step w w'" and "world_inv n w" and "int n < max_int64"
  shows "world_inv (Suc n) w'"
proof -
  have c: "comps_inv w" "held_inv w" "s_seq (w_store w) \<le> int n" "lm_next (w_leases w) \<le> int n" and st: "store_inv (w_store w)" "s_seq (w_store w) < max_int64"
    and inv: "queue_inv (w_queue w)" "registry_inv (w_reg w)" "graph_inv (w_deps w)"
    using assms(2,3) by (simp_all add: world_inv_def comps_inv_def)
  have pc: "req_ok (w_store w) (w_reg w) (w_req w t)" for t using c(2) by (simp add: held_inv_def)
  have "comps_inv w' \<and> s_seq (w_store w') \<le> int (Suc n) \<and> lm_next (w_leases w') \<le> int (Suc n)"
    using assms(1) c st inv pc
  proof (induction rule: publish_step.induct)
    case (pub_advance w t u)
    then have "req_ok (w_store w) (w_reg w) (ReqAdvance u)" by metis
    then show ?case using held_sequence [of w u] pub_advance by (auto simp: comps_inv_def Cursor_Advance_def)
  next
    case (pub_enqueue w t u q)
    then show ?case using Enqueue_inv [of "w_queue w" u] by (simp add: comps_inv_def)
  next
    case (pub_overflow w t u err q)
    then show ?case using Enqueue_inv [of "w_queue w" u] by (simp add: comps_inv_def)
  next
    case (pub_full w t u err st)
    then show ?case using Append_grows [OF pub_full.prems(5,6) pub_full.hyps(2)] by (simp add: comps_inv_def)
  next
    case (pub_append w t u seq st)
    then show ?case using Append_grows [OF pub_append.prems(5,6) pub_append.hyps(2)] by (simp add: comps_inv_def)
  qed (simp_all add: comps_inv_def Register_registry_inv Graph_Add_inv)
  moreover have "held_inv w'"
    using assms(1) c(2) st pc
  proof (induction rule: publish_step.induct)
    case (pub_enqueue w t u q)
    then have "req_ok (w_store w) (w_reg w) (ReqEnqueue u)" by metis
    then show ?case
      by (intro held_step [OF pub_enqueue.prems(1)]) (auto dest: Enqueue_members [OF pub_enqueue.hyps(2)])
  next
    case (pub_overflow w t u err q)
    then have "req_ok (w_store w) (w_reg w) (ReqEnqueue u)" by metis
    then show ?case
      by (intro held_step [OF pub_overflow.prems(1)])
        (auto simp: error_response_def dest: Enqueue_members [OF pub_overflow.hyps(2)])
  next
    case (pub_append w t u seq st)
    note a = Append_grows [OF pub_append.prems(2,3) pub_append.hyps(2)]
    show ?case
      by (intro held_step [OF pub_append.prems(1)]) (use a in \<open>auto simp: grows_def retained_def\<close>)
  next
    case (pub_full w t u err st)
    note a = Append_grows [OF pub_full.prems(2,3) pub_full.hyps(2)]
    show ?case
      by (intro held_step [OF pub_full.prems(1)]) (use a in \<open>auto simp: grows_def error_response_def\<close>)
  next
    case (pub_register w t u)
    then have "req_ok (w_store w) (w_reg w) (ReqRegister u)" by metis
    then show ?case
      by (intro held_step [OF pub_register.prems(1)]) (auto simp: grows_def known_def)
  next
    case (pub_clear w t u)
    then have "req_ok (w_store w) (w_reg w) (ReqClear u)" by metis
    then show ?case
      by (intro held_step [OF pub_clear.prems(1)]) (auto simp: grows_def retained_def)
  next
    case (pub_count w t u)
    then have "req_ok (w_store w) (w_reg w) (ReqCount u)" by metis
    then show ?case by (intro held_step [OF pub_count.prems(1)]) auto
  next
    case (pub_advance w t u)
    then have "req_ok (w_store w) (w_reg w) (ReqAdvance u)" by metis
    then show ?case by (intro held_step [OF pub_advance.prems(1)]) auto
  next
    case (pub_ready w t u)
    then have "req_ok (w_store w) (w_reg w) (ReqReady u)" by metis
    then show ?case by (intro held_step [OF pub_ready.prems(1)]) auto
  next
    case (pub_waits w t u)
    then have "req_ok (w_store w) (w_reg w) (ReqReady u)" by metis
    then show ?case by (intro held_step [OF pub_waits.prems(1)]) auto
  qed (erule held_step; auto)+
  ultimately show ?thesis by (simp add: world_inv_def)
qed


text \<open>
  A step that touches neither the requests nor the queue, and leaves the ticking goroutine with tasks
  it had.
\<close>

lemma held_frame:
  assumes "held_inv w" and "grows w w'" and "w_req w' = w_req w" and "w_queue w' = w_queue w"
    and "tick_tasks (w_tick w') \<subseteq> tick_tasks (w_tick w)"
  shows "held_inv w'"
  by (rule held_step [OF assms(1,2)]) (use assms(3-5) in auto)

lemma inv_register:
  assumes "register_step cfg w w'" and "world_inv n w" and "int n < max_int64"
  shows "world_inv (Suc n) w'"
proof -
  have c: "comps_inv w" "held_inv w" "s_seq (w_store w) \<le> int n" "lm_next (w_leases w) \<le> int n"
    using assms(2) by (simp_all add: world_inv_def)
  have "comps_inv w' \<and> s_seq (w_store w') \<le> int (Suc n) \<and> lm_next (w_leases w') \<le> int (Suc n)"
    using assms(1) c
  proof (induction rule: register_step.induct)
    case (reg_acquire w t e now slot ok lm)
    then show ?case
      using Acquire_inv [of "w_leases w" e now] Acquire_next [of "w_leases w" e now] assms(3)
      by (simp add: comps_inv_def)
  qed (simp_all add: comps_inv_def)
  moreover have "held_inv w'"
    using assms(1) c(2)
  proof (induction rule: register_step.induct)
    case (reg_acquire w t e now slot ok lm)
    show ?case by (rule held_step [OF reg_acquire.prems]) auto
  qed (erule held_step; auto)+
  ultimately show ?thesis by (simp add: world_inv_def)
qed

lemma inv_tick:
  assumes "tick_step fl cfg w w'" and "world_inv n w"
  shows "world_inv (Suc n) w'"
proof -
  have c: "comps_inv w" "held_inv w" "s_seq (w_store w) \<le> int n" "lm_next (w_leases w) \<le> int n" and q: "queue_inv (w_queue w)"
    using assms(2) by (simp_all add: world_inv_def comps_inv_def)
  have "comps_inv w' \<and> s_seq (w_store w') \<le> int (Suc n) \<and> lm_next (w_leases w') \<le> int (Suc n)"
    using assms(1) c
  proof (induction rule: tick_step.induct)
    case (tick_idle w q)
    then show ?case using Drain_inv [of "w_queue w"] by (simp add: comps_inv_def)
  next
    case (tick_drain w batch q now)
    then show ?case using Drain_inv [of "w_queue w"] by (simp add: comps_inv_def)
  next
    case (tick_requeue w u us)
    then show ?case using Enqueue_inv [of "w_queue w" u] by (simp add: comps_inv_def)
  next
    case (tick_commit w c u err st)
    then show ?case
      using Commit_inv [of "w_store w" "task_Sequence u"] store_frames(6) [of "w_store w" "task_Sequence u"]
      by (simp add: comps_inv_def)
  qed (simp_all add: comps_inv_def MarkDispatched_inv SetState_registry_inv)
  moreover have "held_inv w'"
    using assms(1) c(2) q
  proof (induction rule: tick_step.induct)
    case (tick_idle w q)
    then show ?case
      using wq.drain_empty [of "w_queue w"] by (intro held_step [OF tick_idle.prems(1)]) auto
  next
    case (tick_drain w batch q now)
    have "queue_contents q = {#}" "set batch = set_mset (queue_contents (w_queue w))"
      using wq.drain_empty [OF tick_drain.prems(2)] wq.drain_out [OF tick_drain.prems(2), THEN arg_cong, of set_mset]
        tick_drain.hyps(2) by simp_all
    then show ?case by (intro held_step [OF tick_drain.prems(1)]) auto
  next
    case (tick_requeue w u us)
    then show ?case
      using Enqueue_members [of "w_queue w" u, OF prod.collapse [symmetric]]
      by (intro held_step [OF tick_requeue.prems(1)]) auto
  next
    case (tick_commit w c u err st)
    have "store_items st = store_items (w_store w)"
      using store_items_frames(2) [of "w_store w" "task_Sequence u"] tick_commit.hyps(2) by simp
    then show ?case
      using tick_commit.hyps(1)
      by (intro held_frame [OF tick_commit.prems(1)]) (auto simp: grows_def split: option.split)
  next
    case (tick_mark w c u)
    then show ?case by (intro held_frame [OF tick_mark.prems(1)]) (auto simp: grows_def)
  next
    case (tick_set w c u)
    then show ?case by (intro held_frame [OF tick_set.prems(1)]) (auto simp: grows_def SetState_reads)
  qed (erule held_frame; auto)+
  ultimately show ?thesis by (simp add: world_inv_def)
qed

lemma inv_heart:
  assumes "heart_step w w'" and "world_inv n w"
  shows "world_inv (Suc n) w'"
proof -
  have c: "comps_inv w" "held_inv w" "s_seq (w_store w) \<le> int n" "lm_next (w_leases w) \<le> int n"
    using assms(2) by (simp_all add: world_inv_def)
  have "comps_inv w' \<and> s_seq (w_store w') \<le> int (Suc n) \<and> lm_next (w_leases w') \<le> int (Suc n)"
    using assms(1) c
  proof (induction rule: heart_step.induct)
    case (heart_evict w now e es hit lm)
    then show ?case using Evict_inv [of "w_leases w" e] Evict_reads(3) [of "w_leases w" e] by (simp add: comps_inv_def)
  qed (simp_all add: comps_inv_def Renew_inv Renew_reads(3))
  moreover have "held_inv w'"
    using assms(1) c(2)
  proof (induction rule: heart_step.induct)
  qed (erule held_frame; simp)+
  ultimately show ?thesis by (simp add: world_inv_def)
qed

lemma inv_work:
  assumes "work_step w w'" and "world_inv n w"
  shows "world_inv (Suc n) w'"
proof -
  have c: "comps_inv w" "held_inv w" "s_seq (w_store w) \<le> int n" "lm_next (w_leases w) \<le> int n"
    using assms(2) by (simp_all add: world_inv_def)
  have "comps_inv w' \<and> s_seq (w_store w') \<le> int (Suc n) \<and> lm_next (w_leases w') \<le> int (Suc n)"
    using assms(1) c by (induction rule: work_step.induct) (simp_all add: comps_inv_def)
  moreover have "held_inv w'"
    using assms(1) c(2)
  proof (induction rule: work_step.induct)
  qed (erule held_frame; simp add: grows_def)+
  ultimately show ?thesis by (simp add: world_inv_def)
qed

lemma inv_start: "world_inv 0 (world_start fl cfg)"
proof -
  have "s_seq (NewStore k) = 0" "lm_next (Lease_New d) = 0" for k d by (simp_all add: NewStore_def Lease_New_def)
  then show ?thesis
    by (simp add: world_inv_def comps_inv_def held_inv_def world_start_def store_inv_new queue_inv_new
        registry_inv_new graph_inv_new lease_inv_new NewCursor_def)
qed

interpretation wm: state_machine "\<lambda>w. w = world_start fl cfg" "world_step fl cfg" world_inv "nat max_int64"
  for fl cfg
  by unfold_locales
    (auto simp: world_step_def inv_start zless_nat_eq_int_zless
      intro: inv_publish inv_register inv_tick inv_heart inv_work)

lemma world_run_inv: "world_run fl cfg n w \<Longrightarrow> int n \<le> max_int64 \<Longrightarrow> world_inv n w"
  by (rule wm.run_inv) (simp_all add: le_nat_iff)

section \<open>Properties\<close>

text \<open>
  C4: The components stay consistent under any interleaving.  In every state that the goroutines of
  the program reach in at most as many steps as a 64-bit sequence has numbers: the queue is within
  its limit; every task that waits in it, or that the ticking goroutine holds, is retained by the
  store and registered; a publish that has been answered with a sequence and an id has left a task
  with both retained and registered; the published progress and the committed cursor do not pass the
  last sequence, nor do the sequences of retained tasks, which increase; and no two executors hold
  the same slot.
\<close>

theorem consistent_under_interleaving:
  assumes "world_run fl cfg n w" and "int n \<le> max_int64"
  shows "Queue_Len (w_queue w) \<le> q_limit (w_queue w)
    \<and> (\<forall>u \<in> set (q_items (w_queue w)) \<union> tick_tasks (w_tick w).
          u \<in> set (store_items (w_store w)) \<and> Registry_Get (w_reg w) (task_ID u) \<noteq> None)
    \<and> (\<forall>t seq k. w_req w t = ReqDone (RespAccepted seq k) \<longrightarrow>
          (\<exists>u \<in> set (store_items (w_store w)). task_ID u = k \<and> task_Sequence u = seq)
          \<and> Registry_Get (w_reg w) k \<noteq> None)
    \<and> Cursor_Position (w_progress w) \<le> s_seq (w_store w) \<and> Store_Cursor (w_store w) \<le> s_seq (w_store w)
    \<and> sorted_wrt (<) (map task_Sequence (store_items (w_store w)))
    \<and> (\<forall>u \<in> set (store_items (w_store w)). task_Sequence u \<le> s_seq (w_store w))
    \<and> (\<forall>e e' s. lm_slotOf (w_leases w) e = Some s \<longrightarrow> lm_slotOf (w_leases w) e' = Some s \<longrightarrow> e = e')"
proof -
  have c: "store_inv (w_store w)" "queue_inv (w_queue w)" "lease_inv (w_leases w)"
    "c_pos (w_progress w) \<le> s_seq (w_store w)" and h: "held_inv w"
    using world_run_inv [OF assms] by (simp_all add: world_inv_def comps_inv_def)
  have req: "req_ok (w_store w) (w_reg w) (w_req w t)" for t using h by (simp add: held_inv_def)
  have "(\<exists>u \<in> set (store_items (w_store w)). task_ID u = k \<and> task_Sequence u = seq)
      \<and> Registry_Get (w_reg w) k \<noteq> None" if "w_req w t = ReqDone (RespAccepted seq k)" for t seq k
    using req [of t] that by (auto simp: known_def retained_def)
  moreover have "Queue_Len (w_queue w) \<le> q_limit (w_queue w)"
    using queue_inv_limit [OF c(2)] by (simp add: Queue_Len_def)
  moreover have "\<forall>u \<in> set (q_items (w_queue w)) \<union> tick_tasks (w_tick w).
      u \<in> set (store_items (w_store w)) \<and> Registry_Get (w_reg w) (task_ID u) \<noteq> None"
    using h by (auto simp: held_inv_def known_def retained_def queue_contents_def)
  ultimately show ?thesis
    using c slots_of_inv [OF c(3)] by (simp add: store_inv_def Cursor_Position_def Store_Cursor_def)
qed


theorem consistent_under_interleaving_witness:
  "w_req sample_world 2 = ReqDone (RespAccepted 2 ''b'')
   \<and> (\<exists>u \<in> set (store_items (w_store sample_world)). task_ID u = ''b'' \<and> task_Sequence u = 2)"
proof -
  have answered: "w_req sample_world 2 = ReqDone (RespAccepted 2 ''b'')"
    unfolding sample_world_def by code_simp
  have "int (length sample_schedule) \<le> max_int64"
    by (simp add: sample_schedule_def publish_choices_def handoff_choices_def worker_choices_def max_int64_def)
  from consistent_under_interleaving [OF sample_world_run this] answered show ?thesis by blast
qed

end
