(* ===== verification/Races.thy ===== *)
theory Races
  imports Interleaved
begin

text \<open>
  What can go wrong between the heartbeat and a registration.  A sweep lists every lease that is not
  valid, those it evicted before included (\<open>ExpiredLeases\<close>), and \<open>Evict\<close> acts on the lease table, the
  manager and the runner one after the other, without looking again at what the first decision
  rested on.
\<close>

section \<open>Steps of a registration\<close>

lemma register_reads:
  assumes "Lease_Acquire m e now = ((slot, ok), m')" and "lm_slotOf m e = None"
  shows "lm_slotOf m' e = Some slot"
    and "Lease_Lease m' e = Some \<lparr>lease_Executor = e, lease_Slot = slot, lease_State = LeaseLeased,
      lease_Expires = now + lm_timeout m\<rparr>"
  using assms by (auto simp: Lease_Acquire_def Lease_Lease_def Let_def)

text \<open>A registration of an executor without a runner or a slot, which nothing interrupts.\<close>

lemma registration_run:
  assumes "world_run fl cfg n w" and "w_req w t = ReqIdle" and "e \<noteq> []" and "gget (w_em w) e = None"
    and "lm_slotOf (w_leases w) e = None"
  shows "\<exists>w' slot. world_run fl cfg (n + 2) w' \<and> w_req w' t = ReqDone (RespRegistered e slot)
    \<and> lm_slotOf (w_leases w') e = Some slot
    \<and> (\<exists>l. Lease_Lease (w_leases w') e = Some l \<and> lease_State l = LeaseLeased
        \<and> lease_Expires l = now + lm_timeout (w_leases w))
    \<and> gget (w_em w') e = Some (w_next w) \<and> w_run w' (w_next w) = runner_start (cfg_RunnerQueue cfg)
    \<and> w_heart w' = w_heart w \<and> w_next w' = w_next w + 1"
proof -
  let ?w1 = "w\<lparr>w_em := gput e (w_next w) (w_em w), w_run := run_at w (w_next w) (runner_start (cfg_RunnerQueue cfg)),
      w_next := w_next w + 1, w_req := req_at w t (ReqAcquire e)\<rparr>"
  have "register_step cfg w ?w1" by (rule reg_new) (use assms in simp_all)
  then have w1: "world_run fl cfg (Suc n) ?w1"
    using assms(1) by (auto simp: world_step_def intro: run_of.run_step)
  obtain slot ok lm where l: "Lease_Acquire (w_leases w) e now = ((slot, ok), lm)" by (metis prod.exhaust)
  let ?w2 = "?w1\<lparr>w_leases := lm, w_req := req_at ?w1 t (ReqDone (RespRegistered e slot))\<rparr>"
  have "register_step cfg ?w1 ?w2" by (rule reg_acquire) (use l in simp_all)
  with w1 have "world_run fl cfg (n + 2) ?w2" by (auto simp: world_step_def intro: run_of.run_step)
  then show ?thesis using register_reads [OF l assms(5)] by (intro exI [of _ ?w2] exI [of _ slot]) auto
qed

section \<open>Properties\<close>

text \<open>
  C37: A registration can lose its runner without the runner being stopped.  From any reachable state in
  which the heartbeat is about to remove the runner of an executor it found to have none, because the
  lease it evicted again had been evicted before, a registration of that executor that comes first is
  answered with a slot and leaves an executor that holds the slot, has no runner in the manager, and
  whose new runner is open and never shut down.
\<close>

theorem registration_loses_runner:
  assumes "world_run fl cfg n w" and "w_heart w = HeartRemove sweep_now e es" and "w_req w t = ReqIdle"
    and "e \<noteq> []" and "gget (w_em w) e = None" and "lm_slotOf (w_leases w) e = None"
  shows "\<exists>w' slot. world_run fl cfg (n + 3) w' \<and> w_req w' t = ReqDone (RespRegistered e slot)
    \<and> lm_slotOf (w_leases w') e = Some slot \<and> gget (w_em w') e = None
    \<and> w_next w' = w_next w + 1 \<and> \<not> IsClosed (y_r (w_run w' (w_next w)))"
proof -
  from registration_run [OF assms(1,3-6)]
  obtain v slot where v: "world_run fl cfg (n + 2) v" "w_req v t = ReqDone (RespRegistered e slot)"
    "lm_slotOf (w_leases v) e = Some slot" "w_run v (w_next w) = runner_start (cfg_RunnerQueue cfg)"
    "w_heart v = w_heart w" "w_next v = w_next w + 1"
    by blast
  let ?w = "v\<lparr>w_em := gdel e (w_em v), w_heart := HeartCount sweep_now es\<rparr>"
  have "heart_step v ?w" by (rule heart_remove) (simp add: v(5) assms(2))
  then have "world_run fl cfg (Suc (n + 2)) ?w"
    using v(1) by (auto simp: world_step_def intro: run_of.run_step)
  then show ?thesis
    using v by (intro exI [of _ ?w] exI [of _ slot]) (simp add: IsClosed_def runner_start_def NewRunner_def numeral_3_eq_3)
qed

text \<open>A schedule: an executor registers, a sweep finds its lease lapsed, evicts it and shuts its runner down.\<close>

definition evicted_schedule :: "choice list" where
  "evicted_schedule = [ChRegister 0 ''w'', ChReq 0 5] @ replicate 4 (ChHeart [''w''] (100 * second))
     @ [ChHeartCall (ShutStop 1), ChHeartCall (ShutDone 1)] @ replicate 6 (ChHeart [''w''] (100 * second))"

definition evicted_world :: "nat \<Rightarrow> world" where
  "evicted_world k = the (run_schedule id sample_config
     (evicted_schedule @ replicate k (ChHeart [''w''] (102 * second))) (world_start id sample_config))"

definition race_view ::
  "world \<Rightarrow> heart_pc \<times> bool \<times> nat option \<times> int option \<times> duration" where
  "race_view w = (w_heart w, w_req w 1 = ReqIdle, gget (w_em w) ''w'', lm_slotOf (w_leases w) ''w'',
     lm_timeout (w_leases w))"

lemma evicted_world_run:
  assumes "map_option race_view (run_schedule id sample_config
     (evicted_schedule @ replicate k (ChHeart [''w''] (102 * second))) (world_start id sample_config)) = Some v"
  shows "world_run id sample_config (length evicted_schedule + k) (evicted_world k)" "race_view (evicted_world k) = v"
proof -
  obtain w where w: "run_schedule id sample_config
     (evicted_schedule @ replicate k (ChHeart [''w''] (102 * second))) (world_start id sample_config) = Some w"
    "race_view w = v"
    using assms by auto
  then have "evicted_world k = w" by (simp add: evicted_world_def)
  with run_schedule_run [OF w(1)] w(2)
  show "world_run id sample_config (length evicted_schedule + k) (evicted_world k)" "race_view (evicted_world k) = v"
    by simp_all
qed

lemma evicted_worlds:
  "map_option race_view (run_schedule id sample_config
     (evicted_schedule @ replicate 1 (ChHeart [''w''] (102 * second))) (world_start id sample_config)) =
   Some (HeartEvict (102 * second) [''w''], True, None, None, 15 * second)"
  "map_option race_view (run_schedule id sample_config
     (evicted_schedule @ replicate 3 (ChHeart [''w''] (102 * second))) (world_start id sample_config)) =
   Some (HeartRemove (102 * second) ''w'' [], True, None, None, 15 * second)"
  by code_simp+

theorem registration_loses_runner_witness:
  "\<exists>n w slot. world_run id sample_config n w \<and> w_req w 1 = ReqDone (RespRegistered ''w'' slot)
    \<and> lm_slotOf (w_leases w) ''w'' = Some slot \<and> gget (w_em w) ''w'' = None"
proof -
  note run = evicted_world_run [OF evicted_worlds(2)]
  have view: "w_heart (evicted_world 3) = HeartRemove (102 * second) ''w'' []" "w_req (evicted_world 3) 1 = ReqIdle"
    "gget (w_em (evicted_world 3)) ''w'' = None" "lm_slotOf (w_leases (evicted_world 3)) ''w'' = None"
    using run(2) by (auto simp: race_view_def)
  have "''w'' \<noteq> []" by simp
  from registration_loses_runner [OF run(1) view(1,2) this view(3,4)] show ?thesis by blast
qed

text \<open>
  C38: A registration can be evicted at once.  From any reachable state in which the heartbeat is about
  to evict an executor that its sweep listed, and which holds no slot (its lease was evicted before),
  a registration of that executor that comes first is answered with a slot and has a valid lease;
  the next step of the heartbeat evicts that lease, and goes on to shut the new runner down.
\<close>

theorem fresh_registration_evicted:
  assumes "world_run fl cfg n w" and "w_heart w = HeartEvict sweep_now (e # es)" and "w_req w t = ReqIdle"
    and "e \<noteq> []" and "gget (w_em w) e = None" and "lm_slotOf (w_leases w) e = None" and "0 \<le> lm_timeout (w_leases w)"
  shows "\<exists>v w' slot. world_run fl cfg (n + 2) v \<and> w_req v t = ReqDone (RespRegistered e slot)
    \<and> \<not> Lease_Expired (w_leases v) e now \<and> lm_slotOf (w_leases v) e = Some slot
    \<and> world_run fl cfg (n + 3) w' \<and> w_req w' t = ReqDone (RespRegistered e slot)
    \<and> Lease_Expired (w_leases w') e later \<and> lm_slotOf (w_leases w') e = None
    \<and> w_heart w' = HeartGet sweep_now e es \<and> gget (w_em w') e = Some (w_next w)"
proof -
  from registration_run [OF assms(1,3-6), of now]
  obtain v slot l where v: "world_run fl cfg (n + 2) v" "w_req v t = ReqDone (RespRegistered e slot)"
    "lm_slotOf (w_leases v) e = Some slot" "Lease_Lease (w_leases v) e = Some l" "lease_State l = LeaseLeased"
    "lease_Expires l = now + lm_timeout (w_leases w)" "gget (w_em v) e = Some (w_next w)" "w_heart v = w_heart w"
    by blast
  have valid: "\<not> Lease_Expired (w_leases v) e now"
    using v(4-6) assms(7) by (simp add: Expired_lapsed lease_lapsed_def)
  obtain hit lm where lm: "Lease_Evict (w_leases v) e = (hit, lm)" by fastforce
  then have evicted: "hit" "lm_slotOf lm e = None" "Lease_Expired lm e later"
    using v(4) by (auto simp: Lease_Evict_def Lease_Lease_def Lease_Expired_def lease_lapsed_def)
  let ?w = "v\<lparr>w_leases := lm, w_heart := HeartGet sweep_now e es\<rparr>"
  have "heart_step v ?w" using heart_evict [of v sweep_now e es hit lm] v(8) assms(2) lm evicted(1) by simp
  then have "world_run fl cfg (Suc (n + 2)) ?w"
    using v(1) by (auto simp: world_step_def intro: run_of.run_step)
  then show ?thesis
    using v valid evicted by (intro exI [of _ v] exI [of _ ?w] exI [of _ slot]) (simp add: numeral_3_eq_3)
qed

theorem fresh_registration_evicted_witness:
  "\<exists>n w slot. world_run id sample_config n w \<and> w_req w 1 = ReqDone (RespRegistered ''w'' slot)
    \<and> lm_slotOf (w_leases w) ''w'' = None"
proof -
  note run = evicted_world_run [OF evicted_worlds(1)]
  have view: "w_heart (evicted_world 1) = HeartEvict (102 * second) [''w'']" "w_req (evicted_world 1) 1 = ReqIdle"
    "gget (w_em (evicted_world 1)) ''w'' = None" "lm_slotOf (w_leases (evicted_world 1)) ''w'' = None"
    "0 \<le> lm_timeout (w_leases (evicted_world 1))"
    using run(2) by (auto simp: race_view_def)
  have "''w'' \<noteq> []" by simp
  from fresh_registration_evicted [OF run(1) view(1,2) this view(3,4,5)] show ?thesis by blast
qed

end
