(* ===== verification/Atomic_Runs.thy ===== *)
theory Atomic_Runs
  imports Interleaved
begin

text \<open>
  The events of \<open>System\<close>, in which whole calls follow each other, are runs of the interleaved program:
  each event is a schedule of \<open>Goroutines\<close> in which one goroutine makes its steps without being
  interrupted.  Here are requests and ticks; \<open>Event_Schedules\<close> has the other events and the theorem.  So whatever \<open>System\<close> reaches, the goroutines can reach, and what is shown of all
  interleavings holds there too.
\<close>

section \<open>Seeing a system\<close>

definition map_runs :: "('k, nat) gomap \<Rightarrow> (nat \<Rightarrow> runner_sys) \<Rightarrow> ('k, runner) gomap" where
  "map_runs m rs = map (\<lambda>(e, a). (e, y_r (rs a))) m"

definition seen_of :: "config \<Rightarrow> world \<Rightarrow> system" where
  "seen_of cfg w =
     \<lparr>sys_store = w_store w, sys_queue = w_queue w, sys_reg = w_reg w, sys_deps = w_deps w,
      sys_leases = w_leases w,
      sys_execs = \<lparr>em_runners = map_runs (w_em w) (w_run w), em_queueSize = cfg_RunnerQueue cfg\<rparr>,
      sys_metrics = w_metrics w, sys_flow = w_flow w, sys_progress = w_progress w,
      sys_cache = Map.empty, sys_hits = 0, sys_misses = 0\<rparr>"

text \<open>No goroutine is in the middle of a call; the runners of the manager have a pointer each.\<close>

definition idle_runner :: "runner_sys \<Rightarrow> bool" where
  "idle_runner s \<longleftrightarrow> y_lock s = None \<and> y_worker s = WIdle \<and> is_idle (y_thr s 0) \<and> is_idle (y_thr s 1) \<and> rn_wg (y_r s) = 0"

definition pointers_ok :: "world \<Rightarrow> bool" where
  "pointers_ok w \<longleftrightarrow> gwf (w_em w) \<and> distinct (map snd (w_em w)) \<and> (\<forall>a \<in> snd ` set (w_em w). a < w_next w)
     \<and> (\<forall>a. w_next w \<le> a \<longrightarrow> w_hand w a = HandlerStart)"

definition runners_idle :: "world \<Rightarrow> bool" where
  "runners_idle w \<longleftrightarrow> (\<forall>a \<in> snd ` set (w_em w). idle_runner (w_run w a) \<and> w_hand w a = HandlerStart)"

text \<open>Requests come on goroutines of their own, of which there always is an unused one.\<close>

definition spare :: "(nat \<Rightarrow> req_pc) \<Rightarrow> bool" where
  "spare f \<longleftrightarrow> finite {t. f t \<noteq> ReqIdle}"

lemma spare_upd [simp]: "spare (f(t := pc)) = spare f"
proof -
  have "{x. (f(t := pc)) x \<noteq> ReqIdle} \<subseteq> insert t {x. f x \<noteq> ReqIdle}"
    "{x. f x \<noteq> ReqIdle} \<subseteq> insert t {x. (f(t := pc)) x \<noteq> ReqIdle}"
    by (auto split: if_splits)
  then show ?thesis unfolding spare_def by (meson finite_insert finite_subset)
qed

definition quiet :: "world \<Rightarrow> bool" where
  "quiet w \<longleftrightarrow> w_tick w = TickWait \<and> w_heart w = HeartWait \<and> spare (w_req w) \<and> pointers_ok w \<and> runners_idle w"

lemma map_runs_get: "gget (map_runs m rs) e = map_option (\<lambda>a. y_r (rs a)) (gget m e)"
  by (induction m) (auto simp: map_runs_def)

lemma map_runs_del: "map_runs (gdel e m) rs = gdel e (map_runs m rs)"
  by (induction m) (auto simp: map_runs_def)

lemma map_runs_put: "map_runs (gput e a m) rs = gput e (y_r (rs a)) (map_runs m rs)"
  by (induction m) (auto simp: map_runs_def)

lemma map_runs_other: "a \<notin> snd ` set m \<Longrightarrow> map_runs m (rs(a := s)) = map_runs m rs"
  by (force simp: map_runs_def)

lemma map_runs_upd:
  "gwf m \<Longrightarrow> distinct (map snd m) \<Longrightarrow> gget m e = Some a \<Longrightarrow> map_runs m (rs(a := s)) = gput e (y_r s) (map_runs m rs)"
proof (induction m)
  case (Cons p m)
  obtain e' a' where p: "p = (e', a')" by (cases p)
  have wf: "gwf m" "e' \<notin> fst ` set m" "distinct (map snd m)" "a' \<notin> snd ` set m"
    using Cons.prems(1,2) by (auto simp: p gwf_def gkeys_def)
  show ?case
  proof (cases "e' = e")
    case True
    then have "a' = a" using Cons.prems(3) by (simp add: p)
    with True wf(4) map_runs_other [of a m rs s] show ?thesis by (simp add: p map_runs_def)
  next
    case False
    then have g: "gget m e = Some a" using Cons.prems(3) by (simp add: p)
    then have "a \<in> snd ` set m" by (force dest: map_of_SomeD)
    then have "a' \<noteq> a" using wf(4) by blast
    with False Cons.IH [OF wf(1,3) g] show ?thesis by (simp add: p map_runs_def)
  qed
qed simp

abbreviation steps :: "(rat \<Rightarrow> rat) \<Rightarrow> config \<Rightarrow> world \<Rightarrow> world \<Rightarrow> bool" where
  "steps fl cfg \<equiv> (world_step fl cfg)\<^sup>*\<^sup>*"

lemma schedule_steps: "run_schedule fl cfg cs w = Some w' \<Longrightarrow> steps fl cfg w w'"
proof (induction cs arbitrary: w)
  case (Cons c cs)
  then obtain v where "world_next fl cfg c w = Some v" "run_schedule fl cfg cs v = Some w'"
    by (auto split: option.splits)
  with Cons.IH show ?case by (meson world_next_step converse_rtranclp_into_rtranclp)
qed simp

lemma steps_run: "steps fl cfg w w' \<Longrightarrow> world_run fl cfg n w \<Longrightarrow> \<exists>k. world_run fl cfg k w'"
  by (induction rule: rtranclp_induct) (auto intro: run_of.run_step)

text \<open>What a goroutine that makes a whole call leaves: a quiet world that shows the result of the call.\<close>

definition completes :: "(rat \<Rightarrow> rat) \<Rightarrow> config \<Rightarrow> world \<Rightarrow> system \<Rightarrow> string set \<Rightarrow> bool" where
  "completes fl cfg w y ids \<longleftrightarrow> (\<exists>w'. steps fl cfg w w' \<and> quiet w' \<and> seen_of cfg w' = y \<and> w_ids w' \<subseteq> ids)"

lemma completes_step: "steps fl cfg w v \<Longrightarrow> completes fl cfg v y ids \<Longrightarrow> completes fl cfg w y ids"
  unfolding completes_def by (blast intro: rtranclp_trans)

lemmas completes_by = completes_step [OF schedule_steps]

lemma completes_now: "quiet w \<Longrightarrow> seen_of cfg w = y \<Longrightarrow> w_ids w \<subseteq> ids \<Longrightarrow> completes fl cfg w y ids"
  unfolding completes_def by blast

lemma idle_request: "quiet w \<Longrightarrow> \<exists>t. w_req w t = ReqIdle"
  unfolding quiet_def spare_def by (metis (mono_tags, lifting) ex_new_if_finite infinite_UNIV_nat mem_Collect_eq)

section \<open>Publish requests\<close>

lemma add_deps_steps:
  "w_req w t = ReqDeps u ds \<Longrightarrow>
   steps fl cfg w (w\<lparr>w_deps := add_deps (w_deps w) (task_ID u) ds, w_req := req_at w t (ReqDeps u [])\<rparr>)"
proof (induction ds arbitrary: w)
  case Nil
  then have "req_at w t (ReqDeps u []) = w_req w" by (auto simp: fun_upd_idem_iff)
  then show ?case by simp
next
  case (Cons d ds)
  let ?w = "w\<lparr>w_deps := Graph_Add (w_deps w) (task_ID u) [d], w_req := req_at w t (ReqDeps u ds)\<rparr>"
  have "world_step fl cfg w ?w" using pub_dep [of w t u d ds] Cons.prems by (simp add: world_step_def)
  moreover have "steps fl cfg ?w (?w\<lparr>w_deps := add_deps (w_deps ?w) (task_ID u) ds,
      w_req := req_at ?w t (ReqDeps u [])\<rparr>)"
    by (rule Cons.IH) simp
  ultimately have "steps fl cfg w (?w\<lparr>w_deps := add_deps (w_deps ?w) (task_ID u) ds,
      w_req := req_at ?w t (ReqDeps u [])\<rparr>)"
    by (rule converse_rtranclp_into_rtranclp)
  then show ?case by (simp add: fun_upd_def cong: if_cong)
qed


lemmas quiet_defs = quiet_def pointers_ok_def runners_idle_def

lemma publish_completes:
  assumes quiet: "quiet w" and "w_req w t = ReqDeps u []"
  shows "completes fl cfg w (snd (Broker_Publish (seen_of cfg w) u)) (w_ids w)"
proof (cases "Store_Append (w_store w) u")
  case (Pair res st)
  show ?thesis
  proof (cases res)
    case (Inl err)
    show ?thesis
      by (rule completes_step [OF schedule_steps [where cs = "[ChReq t 0]"]])
        (simp add: req_next_def assms(2) Pair Inl, rule completes_now,
          simp_all add: quiet [unfolded quiet_defs] quiet_defs seen_of_def Broker_Publish_def Pair Inl)
  next
    case (Inr seq)
    let ?u = "u\<lparr>task_Sequence := seq\<rparr>"
    show ?thesis
    proof (cases "Graph_Ready (w_deps w) (task_ID u)")
      case False
      show ?thesis
        by (rule completes_step [OF schedule_steps [where cs = "replicate 6 (ChReq t 0)"]])
          (simp add: numeral_eq_Suc req_next_def assms(2) Pair Inr False, rule completes_now,
            simp_all add: quiet [unfolded quiet_defs] quiet_defs seen_of_def Broker_Publish_def Pair Inr False)
    next
      case True
      show ?thesis
      proof (cases "Queue_Enqueue (w_queue w) ?u")
        case enq: (Pair err q)
        show ?thesis
        proof (cases err)
          case None
          show ?thesis
            by (rule completes_step [OF schedule_steps [where cs = "replicate 7 (ChReq t 0)"]])
              (simp add: numeral_eq_Suc req_next_def assms(2) Pair Inr True enq None, rule completes_now,
                simp_all add: quiet [unfolded quiet_defs] quiet_defs seen_of_def Broker_Publish_def Pair Inr True enq None)
        next
          case (Some e)
          show ?thesis
            by (rule completes_step [OF schedule_steps [where cs = "replicate 5 (ChReq t 0)"]])
              (simp add: numeral_eq_Suc req_next_def assms(2) Pair Inr True enq Some, rule completes_now,
                simp_all add: quiet [unfolded quiet_defs] quiet_defs seen_of_def Broker_Publish_def Pair Inr True enq Some)
        qed
      qed
    qed
  qed
qed

lemma handlePublish_completes:
  assumes "quiet w" and "i \<notin> w_ids w"
  shows "completes fl cfg w (snd (handlePublish i k now created m body (seen_of cfg w))) (insert i (w_ids w))"
proof (cases "m = ''POST'' \<and> (\<exists>req. body = Some req \<and> \<not> trims_to_empty (pr_Group req))")
  case False
  then have "snd (handlePublish i k now created m body (seen_of cfg w)) = seen_of cfg w"
    by (auto simp: handlePublish_def split: option.splits)
  then show ?thesis using assms(1) by (auto intro: completes_now)
next
  case True
  then obtain req where req: "m = ''POST''" "body = Some req" "\<not> trims_to_empty (pr_Group req)" by blast
  let ?u = "NewTask i k created (pr_Group req) (pr_Payload req) (now + wrap64 (pr_DueAfter req * millisecond))"
  obtain t where t: "w_req w t = ReqIdle" using idle_request [OF assms(1)] by blast
  let ?v = "w\<lparr>w_req := req_at w t (ReqDeps ?u (pr_DependsOn req)), w_ids := insert i (w_ids w)\<rparr>"
  let ?w = "?v\<lparr>w_deps := add_deps (w_deps ?v) (task_ID ?u) (pr_DependsOn req), w_req := req_at ?v t (ReqDeps ?u [])\<rparr>"
  have "world_step fl cfg w ?v"
    using pub_start [OF t req(3) assms(2) refl] by (simp add: world_step_def)
  then have "steps fl cfg w ?w"
    using add_deps_steps [of ?v t ?u "pr_DependsOn req" fl cfg] by (simp add: converse_rtranclp_into_rtranclp)
  moreover have "completes fl cfg ?w (snd (Broker_Publish (seen_of cfg ?w) ?u)) (w_ids ?w)"
    by (rule publish_completes [of _ t]) (use assms(1) in \<open>simp_all add: quiet_defs\<close>)
  moreover have "snd (handlePublish i k now created m body (seen_of cfg w)) = snd (Broker_Publish (seen_of cfg ?w) ?u)"
    by (simp add: handlePublish_def req Let_def seen_of_def split: prod.split sum.split)
  ultimately show ?thesis by (auto dest: completes_step)
qed

section \<open>Executor requests\<close>

lemma gput_new: "gget m k = None \<Longrightarrow> gput k v m = m @ [(k, v)]"
  by (induction m) auto

lemma quiet_new_runner:
  assumes "quiet w" and "gget (w_em w) e = None"
  shows "quiet (w\<lparr>w_em := gput e (w_next w) (w_em w), w_run := run_at w (w_next w) (runner_start n), w_next := w_next w + 1\<rparr>)"
proof -
  have m: "gput e (w_next w) (w_em w) = w_em w @ [(e, w_next w)]"
    using assms(2) by (simp add: gput_new)
  have old: "a < w_next w" if "a \<in> snd ` set (w_em w)" for a using assms(1) that by (auto simp: quiet_def pointers_ok_def)
  have "idle_runner (runner_start n)" by (simp add: idle_runner_def runner_start_def NewRunner_def)
  then show ?thesis
    using assms(1) old gwf_gput [of "w_em w" e "w_next w"]
    by (auto simp: quiet_defs m less_SucI dest: less_imp_neq)
qed


lemma handleExecutor_completes:
  assumes "quiet w"
  shows "completes fl cfg w (snd (handleExecutor now m body (seen_of cfg w))) (w_ids w)"
proof (cases "m = ''POST'' \<and> (\<exists>e. body = Some e \<and> e \<noteq> [])")
  case False
  then have "snd (handleExecutor now m body (seen_of cfg w)) = seen_of cfg w"
    by (auto simp: handleExecutor_def split: option.splits)
  then show ?thesis using assms by (auto intro: completes_now)
next
  case True
  then obtain e where e: "m = ''POST''" "body = Some e" "e \<noteq> []" by blast
  obtain t where t: "w_req w t = ReqIdle" using idle_request [OF assms] by blast
  obtain slot ok lm where l: "Lease_Acquire (w_leases w) e now = ((slot, ok), lm)" by (metis prod.exhaust)
  show ?thesis
  proof (cases "gget (w_em w) e")
    case (Some a)
    let ?w = "w\<lparr>w_leases := lm, w_req := req_at w t (ReqDone (RespRegistered e slot))\<rparr>"
    from Some have get: "gget (map_runs (w_em w) (w_run w)) e = Some (y_r (w_run w a))" by (simp add: map_runs_get)
    have run: "run_schedule fl cfg [ChRegister t e, ChReq t now] w = Some ?w"
      by (simp add: register_next_def req_next_def t e Some l)
    have "completes fl cfg ?w (snd (handleExecutor now m body (seen_of cfg w))) (w_ids w)"
      by (rule completes_now)
        (use assms in \<open>simp_all add: quiet_defs seen_of_def handleExecutor_def e l Manager_Add_def get Let_def\<close>)
    then show ?thesis by (rule completes_by [OF run])
  next
    case None
    then have get: "gget (map_runs (w_em w) (w_run w)) e = None" by (simp add: map_runs_get)
    have "w_next w \<notin> snd ` set (w_em w)" using assms by (auto simp: quiet_defs)
    then have put: "map_runs (gput e (w_next w) (w_em w)) (run_at w (w_next w) (runner_start n)) =
        gput e (NewRunner n) (map_runs (w_em w) (w_run w))" for n
      by (simp add: map_runs_put map_runs_other runner_start_def)
    let ?w = "w\<lparr>w_em := gput e (w_next w) (w_em w), w_run := run_at w (w_next w) (runner_start (cfg_RunnerQueue cfg)),
      w_next := w_next w + 1, w_leases := lm, w_req := req_at w t (ReqDone (RespRegistered e slot))\<rparr>"
    have q: "quiet ?w" using quiet_new_runner [OF assms None, of "cfg_RunnerQueue cfg"] by (simp add: quiet_defs)
    have run: "run_schedule fl cfg [ChRegister t e, ChReq t now] w = Some ?w"
      by (simp add: register_next_def req_next_def t e None l)
    have seen: "seen_of cfg ?w = snd (handleExecutor now m body (seen_of cfg w))"
      by (simp add: seen_of_def handleExecutor_def e l Manager_Add_def get put Let_def)
    have "completes fl cfg ?w (snd (handleExecutor now m body (seen_of cfg w))) (w_ids w)"
      by (rule completes_now [OF q seen]) simp
    then show ?thesis by (rule completes_by [OF run])
  qed
qed

section \<open>Ticks\<close>

text \<open>A world in which only the ticking goroutine is in the middle of a call.\<close>

definition quiet_tick :: "world \<Rightarrow> bool" where
  "quiet_tick w \<longleftrightarrow> quiet (w\<lparr>w_tick := TickWait\<rparr>)"

lemmas quiet_tick_defs = quiet_tick_def quiet_defs

lemma requeue_completes:
  assumes "quiet_tick w" and "w_tick w = TickRequeue us"
  shows "completes fl cfg w (Dispatcher_requeue (seen_of cfg w) us) (w_ids w)"
  using assms
proof (induction us arbitrary: w)
  case Nil
  have "run_schedule fl cfg [ChTick [] sample_env] w = Some (w\<lparr>w_tick := TickWait\<rparr>)"
    by (simp add: tick_next_def Nil)
  from schedule_steps [OF this] show ?case
    by (rule completes_step, intro completes_now) (use Nil in \<open>simp_all add: quiet_tick_def seen_of_def\<close>)
next
  case (Cons u us)
  let ?w = "w\<lparr>w_queue := snd (Queue_Enqueue (w_queue w) u), w_tick := TickRequeue us\<rparr>"
  have run: "run_schedule fl cfg [ChTick [] sample_env] w = Some ?w" by (simp add: tick_next_def Cons.prems(2))
  have "completes fl cfg ?w (Dispatcher_requeue (seen_of cfg ?w) us) (w_ids ?w)"
    by (rule Cons.IH) (use Cons.prems in \<open>simp_all add: quiet_tick_defs\<close>)
  from completes_by [OF run this] show ?case by (simp add: seen_of_def)
qed

text \<open>A call of \<open>Enqueue\<close> whose wait, if it has to wait, ends by its timer.\<close>

lemma enqueue_steps:
  assumes "w_tick w = TickEnqueue a c u i" and "idle_runner (w_run w a)"
  shows "\<exists>s. steps fl cfg w (w\<lparr>w_run := run_at w a s, w_tick := TickCall a c u\<rparr>) \<and> idle_runner s
    \<and> y_thr s 0 = CIdle (fst (Runner_Enqueue (Pair Timer) (y_r (w_run w a)) i))
    \<and> y_r s = snd (Runner_Enqueue (Pair Timer) (y_r (w_run w a)) i)"
proof -
  let ?s = "w_run w a"
  have idle: "y_lock ?s = None" "is_idle (y_thr ?s 0)" using assms(2) by (simp_all add: idle_runner_def)
  obtain res r' where r': "Enqueue_try (y_r ?s) i = (res, r')" by fastforce
  have wg: "rn_wg r' = rn_wg (y_r ?s)" using r' by (auto simp: Enqueue_try_cases split: if_splits)
  show ?thesis
  proof (cases res)
    case (Some res')
    obtain s where s: "runner_next (Enq 0 i) ?s = Some s" "y_thr s 0 = CIdle res'" "y_r s = r'" "idle_runner s"
      using idle r' Some assms(2) wg by (simp add: runner_next.simps idle_runner_def)
    have "run_schedule fl cfg [ChTick [] sample_env] w = Some (w\<lparr>w_run := run_at w a s, w_tick := TickCall a c u\<rparr>)"
      by (simp add: tick_next_def assms(1) s(1))
    from schedule_steps [OF this] show ?thesis
      using s r' Some by (intro exI [of _ s]) (simp add: Runner_Enqueue_def)
  next
    case None
    let ?s1 = "?s\<lparr>y_r := r', y_thr := goes ?s 0 (CSlow i)\<rparr>"
    let ?s2 = "?s1\<lparr>y_thr := goes ?s1 0 (CIdle (Some RunnerErrFull))\<rparr>"
    have "run_schedule fl cfg [ChTick [] sample_env, ChTickCall (SlowTimeout 0)] w =
        Some (w\<lparr>w_run := run_at w a ?s2, w_tick := TickCall a c u\<rparr>)"
      using idle r' None by (simp add: tick_next_def tick_call_next_def assms(1) runner_next.simps)
    from schedule_steps [OF this] show ?thesis
      using r' None assms(2) wg by (intro exI [of _ ?s2]) (simp add: Runner_Enqueue_def idle_runner_def)
  qed
qed


text \<open>One hand-off, from the head of the loop over the batch to the next.\<close>

definition ticks_to :: "(rat \<Rightarrow> rat) \<Rightarrow> config \<Rightarrow> world \<Rightarrow> tick_pc \<Rightarrow> system \<Rightarrow> bool" where
  "ticks_to fl cfg w pc y \<longleftrightarrow> (\<exists>v. steps fl cfg w v \<and> quiet_tick v \<and> w_tick v = pc \<and> seen_of cfg v = y \<and> w_ids v = w_ids w)"

lemma ticks_toI:
  "steps fl cfg w v \<Longrightarrow> quiet_tick v \<Longrightarrow> w_tick v = pc \<Longrightarrow> seen_of cfg v = y \<Longrightarrow> w_ids v = w_ids w \<Longrightarrow>
   ticks_to fl cfg w pc y"
  unfolding ticks_to_def by blast

lemma seen_run:
  assumes "quiet_tick w" and "gget (w_em w) e = Some a"
  shows "seen_of cfg (w\<lparr>w_run := run_at w a s\<rparr>) =
    (seen_of cfg w)\<lparr>sys_execs := Manager_Put (sys_execs (seen_of cfg w)) e (y_r s)\<rparr>"
  using assms by (simp add: seen_of_def Manager_Put_def map_runs_upd quiet_tick_defs)

lemma dispatchOne_steps:
  assumes "quiet_tick w" and "w_tick w = TickNext (e, win, u # us)" and "in_window win u" and "he_wait env = Pair Timer"
  shows "ticks_to fl cfg w (TickNext (e, win, us)) (snd (dispatchOne fl env None e u (seen_of cfg w)))"
proof (cases "Allow fl (w_flow w) e (he_now env)")
  case (Pair ok fw)
  show ?thesis
  proof (cases ok)
    case False
    let ?v = "w\<lparr>w_flow := fw, w_tick := TickNext (e, win, us)\<rparr>"
    have run: "run_schedule fl cfg [ChTick [] env] w = Some ?v"
      using assms(3) by (simp add: tick_next_def assms(2) Pair False)
    show ?thesis
      by (rule ticks_toI [OF schedule_steps [OF run]])
        (use assms(1) Pair False in \<open>simp_all add: quiet_tick_defs seen_of_def dispatchOne_def\<close>)
  next
    case True
    show ?thesis
    proof (cases "gget (w_em w) e")
      case None
      let ?v = "w\<lparr>w_flow := fw, w_metrics := Failed (w_metrics w), w_tick := TickNext (e, win, us)\<rparr>"
      have run: "run_schedule fl cfg [ChTick [] env, ChTick [] env, ChTick [] env] w = Some ?v"
        using assms(3) by (simp add: tick_next_def assms(2) Pair True None)
      have get: "gget (map_runs (w_em w) (w_run w)) e = None" by (simp add: map_runs_get None)
      show ?thesis
        by (rule ticks_toI [OF schedule_steps [OF run]])
          (use assms(1) Pair True in \<open>simp_all add: quiet_tick_defs seen_of_def dispatchOne_def Manager_Dispatch_def
            Manager_Get_def get Let_def\<close>)
    next
      case (Some a)
      let ?i = "task_instance env u" and ?r = "y_r (w_run w a)" and ?c = "(e, win, us)"
      let ?v = "w\<lparr>w_flow := fw, w_tick := TickEnqueue a ?c u ?i\<rparr>"
      have run: "run_schedule fl cfg [ChTick [] env, ChTick [] env] w = Some ?v"
        using assms(3) by (simp add: tick_next_def assms(2) Pair True Some)
      have "(e, a) \<in> set (w_em w)" using Some by (rule map_of_SomeD)
      then have idle: "idle_runner (w_run ?v a)" using assms(1) by (force simp: quiet_tick_defs)
      obtain err r' where r': "Runner_Enqueue (Pair Timer) ?r ?i = (err, r')" by fastforce
      obtain x where x: "steps fl cfg ?v (?v\<lparr>w_run := run_at w a x, w_tick := TickCall a ?c u\<rparr>)" "idle_runner x"
        "y_thr x 0 = CIdle err" "y_r x = r'"
        using enqueue_steps [OF _ idle, of ?c u ?i fl cfg] r' by auto
      let ?x = "?v\<lparr>w_run := run_at w a x, w_tick := TickCall a ?c u\<rparr>"
      have to_x: "steps fl cfg w ?x" by (rule rtranclp_trans [OF schedule_steps [OF run] x(1)])
      have quiet: "quiet_tick (?x\<lparr>w_tick := pc\<rparr>)" for pc
        using assms(1) x(2) by (auto simp: quiet_tick_defs)
      have get: "Manager_Get (sys_execs (seen_of cfg w)) e = Some ?r"
        by (simp add: seen_of_def Manager_Get_def map_runs_get Some)
      have disp: "Manager_Dispatch (Pair Timer) (sys_execs (seen_of cfg w)) e ?i =
          (err, Manager_Put (sys_execs (seen_of cfg w)) e r')"
        by (simp add: Manager_Dispatch_def get r')
      have seen: "seen_of cfg ?x = (seen_of cfg w)\<lparr>sys_flow := fw,
          sys_execs := Manager_Put (sys_execs (seen_of cfg w)) e r'\<rparr>"
        using seen_run [OF assms(1) Some, of cfg x] x(4) by (simp add: seen_of_def)
      have flow: "sys_flow (seen_of cfg w) = w_flow w" by (simp add: seen_of_def)
      have d: "snd (dispatchOne fl env None e u (seen_of cfg w)) =
        (let y = seen_of cfg ?x in
         case err of
           Some er \<Rightarrow> y\<lparr>sys_metrics := Failed (sys_metrics y)\<rparr>
         | None \<Rightarrow>
             (case Store_Commit (Store_MarkDispatched (sys_store y) (task_Sequence u) True) (task_Sequence u) of
                (Some er, st) \<Rightarrow> y\<lparr>sys_store := st, sys_metrics := Failed (sys_metrics y)\<rparr>
              | (None, st) \<Rightarrow> y\<lparr>sys_store := st, sys_reg := Registry_SetState (sys_reg y) (task_ID u) TaskDispatched,
                  sys_metrics := Metric_Dispatched (sys_metrics y)\<rparr>))"
        unfolding seen
        by (simp add: dispatchOne_def Pair True assms(4) disp flow markDispatched_def Let_def split: option.split prod.split)
      obtain cerr st where st: "Store_Commit (Store_MarkDispatched (w_store w) (task_Sequence u) True) (task_Sequence u) = (cerr, st)"
        by fastforce
      let ?n = "TickNext ?c"
      have "ticks_to fl cfg w ?n (let y = seen_of cfg ?x in y\<lparr>sys_metrics := Failed (sys_metrics y)\<rparr>)" if "err = Some er" for er
      proof -
        have run: "run_schedule fl cfg [ChTick [] env, ChTick [] env] ?x = Some (?x\<lparr>w_metrics := Failed (w_metrics ?x), w_tick := ?n\<rparr>)"
          using x(3) that by (simp add: tick_next_def)
        show ?thesis
          by (rule ticks_toI [OF rtranclp_trans [OF to_x schedule_steps [OF run]]])
            (use quiet [of ?n] in \<open>simp_all add: quiet_tick_defs seen_of_def\<close>)
      qed
      moreover have "ticks_to fl cfg w ?n (let y = seen_of cfg ?x in y\<lparr>sys_store := st, sys_metrics := Failed (sys_metrics y)\<rparr>)"
        if "err = None" "cerr = Some er" for er
      proof -
        have run: "run_schedule fl cfg (replicate 4 (ChTick [] env)) ?x =
            Some (?x\<lparr>w_store := st, w_metrics := Failed (w_metrics ?x), w_tick := ?n\<rparr>)"
          using x(3) that st by (simp add: tick_next_def numeral_eq_Suc)
        show ?thesis
          by (rule ticks_toI [OF rtranclp_trans [OF to_x schedule_steps [OF run]]])
            (use quiet [of ?n] in \<open>simp_all add: quiet_tick_defs seen_of_def\<close>)
      qed
      moreover have "ticks_to fl cfg w ?n (let y = seen_of cfg ?x in y\<lparr>sys_store := st,
          sys_reg := Registry_SetState (sys_reg y) (task_ID u) TaskDispatched, sys_metrics := Metric_Dispatched (sys_metrics y)\<rparr>)"
        if "err = None" "cerr = None"
      proof -
        have run: "run_schedule fl cfg (replicate 5 (ChTick [] env)) ?x =
            Some (?x\<lparr>w_store := st, w_reg := Registry_SetState (w_reg ?x) (task_ID u) TaskDispatched,
              w_metrics := Metric_Dispatched (w_metrics ?x), w_tick := ?n\<rparr>)"
          using x(3) that st by (simp add: tick_next_def numeral_eq_Suc)
        show ?thesis
          by (rule ticks_toI [OF rtranclp_trans [OF to_x schedule_steps [OF run]]])
            (use quiet [of ?n] in \<open>simp_all add: quiet_tick_defs seen_of_def\<close>)
      qed
      moreover have "sys_store (seen_of cfg ?x) = w_store w" by (simp add: seen_of_def)
      ultimately show ?thesis
        unfolding d by (cases err; cases cerr) (simp_all add: st Let_def)
    qed
  qed
qed

lemma tick_loop_completes:
  assumes "quiet_tick w" and "w_tick w = TickNext (e, win, us)" and "\<forall>n. he_wait (envs n) = Pair Timer"
  shows "completes fl cfg w (snd (tick_loop fl envs None e win i err us (seen_of cfg w))) (w_ids w)"
  using assms(1,2)
proof (induction us arbitrary: w i err)
  case Nil
  let ?v = "w\<lparr>w_tick := TickWait\<rparr>"
  have run: "run_schedule fl cfg [ChTick [] sample_env] w = Some ?v" by (simp add: tick_next_def Nil)
  have "completes fl cfg ?v (snd (tick_loop fl envs None e win i err [] (seen_of cfg w))) (w_ids w)"
    by (rule completes_now) (use Nil in \<open>simp_all add: quiet_tick_def seen_of_def\<close>)
  then show ?case by (rule completes_by [OF run])
next
  case (Cons u us)
  show ?case
  proof (cases "in_window win u")
    case False
    let ?v = "w\<lparr>w_tick := TickRequeue (u # us)\<rparr>"
    have run: "run_schedule fl cfg [ChTick [] sample_env] w = Some ?v"
      using False by (simp add: tick_next_def Cons.prems(2))
    have "completes fl cfg ?v (Dispatcher_requeue (seen_of cfg ?v) (u # us)) (w_ids ?v)"
      by (rule requeue_completes) (use Cons.prems in \<open>simp_all add: quiet_tick_defs\<close>)
    from completes_by [OF run this] show ?thesis using False by (simp add: seen_of_def)
  next
    case True
    obtain er z where z: "dispatchOne fl (envs i) None e u (seen_of cfg w) = (er, z)" by fastforce
    obtain v where v: "steps fl cfg w v" "quiet_tick v" "w_tick v = TickNext (e, win, us)" "seen_of cfg v = z" "w_ids v = w_ids w"
      using dispatchOne_steps [OF Cons.prems True assms(3)[rule_format, of i], of fl cfg] z by (auto simp: ticks_to_def)
    show ?thesis
      using completes_step [OF v(1) Cons.IH [OF v(2,3), of "i + 1" "if er \<noteq> None \<and> err = None then er else err"]] True z v(4,5)
      by simp
  qed
qed

lemma Tick_completes:
  assumes "quiet w" and "\<forall>n. he_wait (envs n) = Pair Timer" and "range_order (lm_leases (w_leases w)) ks"
  shows "completes fl cfg w (main_tick fl cfg envs ks now (seen_of cfg w)) (w_ids w)"
proof -
  obtain batch q where q: "Queue_Drain (w_queue w) = (batch, q)" by fastforce
  define env where "env = sample_env\<lparr>he_now := now\<rparr>"
  define win where "win = NextWindow now (cfg_TickInterval cfg)"
  have tick: "main_tick fl cfg envs ks now (seen_of cfg w) =
     (if batch = [] then seen_of cfg (w\<lparr>w_queue := q\<rparr>)
      else case Lease_Executors (w_leases w) ks of
        [] \<Rightarrow> Dispatcher_requeue (seen_of cfg (w\<lparr>w_queue := q\<rparr>)) batch
      | e # es \<Rightarrow> snd (tick_loop fl envs None e win 0 None batch (seen_of cfg (w\<lparr>w_queue := q\<rparr>))))"
    using q by (simp add: main_tick_def Tick_def seen_of_def win_def Let_def split: list.split)
  have wait: "w_tick w = TickWait" using assms(1) by (simp add: quiet_def)
  show ?thesis
  proof (cases batch)
    case Nil
    have run: "run_schedule fl cfg [ChTick ks env] w = Some (w\<lparr>w_queue := q\<rparr>)"
      using q Nil by (simp add: tick_next_def wait)
    have "completes fl cfg (w\<lparr>w_queue := q\<rparr>) (main_tick fl cfg envs ks now (seen_of cfg w)) (w_ids w)"
      by (rule completes_now) (use assms(1) Nil tick in \<open>simp_all add: quiet_defs\<close>)
    then show ?thesis by (rule completes_by [OF run])
  next
    case (Cons u us)
    show ?thesis
    proof (cases "Lease_Executors (w_leases w) ks")
      case none: Nil
      let ?v = "w\<lparr>w_queue := q, w_tick := TickRequeue batch\<rparr>"
      have run: "run_schedule fl cfg [ChTick ks env, ChTick ks env] w = Some ?v"
        using q Cons assms(3) none by (simp add: tick_next_def wait)
      have "completes fl cfg ?v (Dispatcher_requeue (seen_of cfg ?v) batch) (w_ids ?v)"
        by (rule requeue_completes) (use assms(1) in \<open>simp_all add: quiet_tick_defs\<close>)
      from completes_by [OF run this] show ?thesis using tick none Cons by (simp add: seen_of_def)
    next
      case (Cons e es)
      let ?v = "w\<lparr>w_queue := q, w_tick := TickNext (e, win, batch)\<rparr>"
      have run: "run_schedule fl cfg [ChTick ks env, ChTick ks env] w = Some ?v"
        using q \<open>batch = u # us\<close> assms(3) Cons by (simp add: tick_next_def wait env_def win_def)
      have "completes fl cfg ?v (snd (tick_loop fl envs None e win 0 None batch (seen_of cfg ?v))) (w_ids ?v)"
        by (rule tick_loop_completes [OF _ _ assms(2)]) (use assms(1) in \<open>simp_all add: quiet_tick_defs\<close>)
      from completes_by [OF run this] show ?thesis using tick \<open>batch = u # us\<close> Cons by (simp add: seen_of_def)
    qed
  qed
qed

end
