(* ===== verification/Event_Schedules.thy ===== *)
theory Event_Schedules
  imports Atomic_Runs
begin

text \<open>
  The rest of \<open>Atomic_Runs\<close>: sweeps and turns of workers as schedules, and the theorem that a run of
  events of \<open>System\<close> is a run of the interleaved program.
\<close>

section \<open>Sweeps\<close>

text \<open>A world in which only the heartbeat is in the middle of a call.\<close>

definition quiet_heart :: "world \<Rightarrow> bool" where
  "quiet_heart w \<longleftrightarrow> quiet (w\<lparr>w_heart := HeartWait\<rparr>)"

lemmas quiet_heart_defs = quiet_heart_def quiet_defs

definition hearts_to :: "(rat \<Rightarrow> rat) \<Rightarrow> config \<Rightarrow> world \<Rightarrow> heart_pc \<Rightarrow> system \<Rightarrow> bool" where
  "hearts_to fl cfg w pc y \<longleftrightarrow> (\<exists>v. steps fl cfg w v \<and> quiet_heart v \<and> w_heart v = pc \<and> seen_of cfg v = y \<and> w_ids v = w_ids w)"

lemma hearts_toI:
  "run_schedule fl cfg cs w = Some v \<Longrightarrow> quiet_heart v \<Longrightarrow> w_heart v = pc \<Longrightarrow> seen_of cfg v = y \<Longrightarrow> w_ids v = w_ids w \<Longrightarrow>
   hearts_to fl cfg w pc y"
  unfolding hearts_to_def by (blast intro: schedule_steps)

lemma hearts_to_trans:
  assumes "hearts_to fl cfg w pc y"
    and "\<And>v. quiet_heart v \<Longrightarrow> w_heart v = pc \<Longrightarrow> seen_of cfg v = y \<Longrightarrow> hearts_to fl cfg v pc' z"
  shows "hearts_to fl cfg w pc' z"
proof -
  obtain v where v: "steps fl cfg w v" "quiet_heart v" "w_heart v = pc" "seen_of cfg v = y" "w_ids v = w_ids w"
    using assms(1) by (auto simp: hearts_to_def)
  obtain x where "steps fl cfg v x" "quiet_heart x" "w_heart x = pc'" "seen_of cfg x = z" "w_ids x = w_ids v"
    using assms(2) [OF v(2-4)] by (auto simp: hearts_to_def)
  then show ?thesis using v(1,5) unfolding hearts_to_def by (metis rtranclp_trans)
qed

text \<open>The runner an eviction shuts down is removed, so what its worker does meanwhile is not seen.\<close>

lemma gdel_gput: "gdel k (gput k v m) = gdel k m"
  by (induction m) auto

lemma Evictor_Evict_cases:
  "Evictor_Evict drain y e =
     (case Lease_Evict (sys_leases y) e of
        (False, m) \<Rightarrow> y\<lparr>sys_leases := m\<rparr>
      | (True, m) \<Rightarrow> y\<lparr>sys_leases := m, sys_execs := Manager_Remove (sys_execs y) e,
          sys_metrics := Evicted (sys_metrics y)\<rparr>)"
  by (simp add: Evictor_Evict_def Manager_Put_def Manager_Remove_def gdel_gput Let_def split: prod.split bool.split option.split)

lemma shut_schedule:
  assumes "w_heart w = HeartShut a now e es" and "idle_runner (w_run w a)"
  shows "\<exists>cs s. run_schedule fl cfg cs w = Some (w\<lparr>w_run := run_at w a s, w_heart := HeartRemove now e es\<rparr>)"
proof -
  let ?s = "w_run w a"
  have idle: "y_lock ?s = None" "is_idle (y_thr ?s 1)" "rn_wg (y_r ?s) = 0" using assms(2) by (simp_all add: idle_runner_def)
  show ?thesis
  proof (cases "rn_closed (y_r ?s)")
    case True
    have "run_schedule fl cfg [ChHeart [] 0, ChHeart [] 0] w =
        Some (w\<lparr>w_run := run_at w a ?s, w_heart := HeartRemove now e es\<rparr>)"
      using idle True by (simp add: heart_next_def assms(1) runner_next.simps del: One_nat_def)
    then show ?thesis by blast
  next
    case False
    let ?s1 = "?s\<lparr>y_r := (y_r ?s)\<lparr>rn_closed := True\<rparr>, y_thr := goes ?s 1 CShutWait\<rparr>"
    let ?s2 = "?s1\<lparr>y_r := (y_r ?s1)\<lparr>rn_stop := True\<rparr>, y_thr := goes ?s1 1 CShutStop\<rparr>"
    let ?s3 = "?s2\<lparr>y_r := (y_r ?s2)\<lparr>rn_done := True\<rparr>, y_thr := goes ?s2 1 (CIdle None)\<rparr>"
    have "run_schedule fl cfg [ChHeart [] 0, ChHeartCall (ShutStop 1), ChHeartCall (ShutDone 1), ChHeart [] 0] w =
        Some (w\<lparr>w_run := run_at w a ?s3, w_heart := HeartRemove now e es\<rparr>)"
      using idle False by (simp add: heart_next_def heart_call_next_def assms(1) runner_next.simps del: One_nat_def)
    then show ?thesis by blast
  qed
qed

lemma run_schedule_append:
  "run_schedule fl cfg cs w = Some v \<Longrightarrow> run_schedule fl cfg (cs @ ds) w = run_schedule fl cfg ds v"
  by (induction cs arbitrary: w) (auto split: option.splits)

lemma delete_set: "set (gdel e m) \<subseteq> set m"
  by (auto simp: AList.delete_eq)

lemma gdel_values: "distinct (map snd m) \<Longrightarrow> distinct (map snd (gdel e m))"
  by (simp add: AList.delete_eq distinct_map_filter)

lemma gdel_pointer: "gwf m \<Longrightarrow> distinct (map snd m) \<Longrightarrow> gget m e = Some a \<Longrightarrow> a \<notin> snd ` set (gdel e m)"
proof (induction m)
  case (Cons p m)
  obtain e' a' where p: "p = (e', a')" by (cases p)
  show ?case
  proof (cases "e' = e")
    case True
    with Cons.prems show ?thesis using delete_set [of e m] by (auto simp: p)
  next
    case False
    then have g: "gget m e = Some a" using Cons.prems(3) by (simp add: p)
    then have "a \<in> snd ` set m" by (force dest: map_of_SomeD)
    moreover have "gwf m" using Cons.prems(1) by (simp add: p gwf_def gkeys_def)
    ultimately show ?thesis using Cons False g by (auto simp: p)
  qed
qed simp

lemma evict_steps:
  assumes "quiet_heart w" and "w_heart w = HeartEvict now (e # es)"
  shows "hearts_to fl cfg w (HeartEvict now es) (Evictor_Evict drain (seen_of cfg w) e)"
proof (cases "Lease_Evict (w_leases w) e")
  case (Pair hit lm)
  show ?thesis
  proof (cases hit)
    case False
    have run: "run_schedule fl cfg [ChHeart [] 0] w = Some (w\<lparr>w_leases := lm, w_heart := HeartEvict now es\<rparr>)"
      by (simp add: heart_next_def assms(2) Pair False)
    show ?thesis
      by (rule hearts_toI [OF run])
        (use assms(1) Pair False in \<open>simp_all add: quiet_heart_defs seen_of_def Evictor_Evict_cases\<close>)
  next
    case True
    let ?v = "\<lambda>r. w\<lparr>w_leases := lm, w_run := r, w_em := gdel e (w_em w), w_metrics := Evicted (w_metrics w),
      w_heart := HeartEvict now es\<rparr>"
    have pointers: "gwf (w_em w)" "distinct (map snd (w_em w))" using assms(1) by (simp_all add: quiet_heart_defs)
    have quiet: "quiet_heart (?v r)" if "\<And>b. b \<in> snd ` set (gdel e (w_em w)) \<Longrightarrow> r b = w_run w b" for r
      using assms(1) that delete_set [of e "w_em w"] gdel_values [of "w_em w" e] by (force simp: quiet_heart_defs)
    show ?thesis
    proof (cases "gget (w_em w) e")
      case None
      have run: "run_schedule fl cfg (replicate 4 (ChHeart [] 0)) w = Some (?v (w_run w))"
        by (simp add: numeral_eq_Suc heart_next_def assms(2) Pair True None)
      show ?thesis
        by (rule hearts_toI [OF run quiet])
          (simp_all add: seen_of_def Evictor_Evict_cases Pair True Manager_Remove_def map_runs_del)
    next
      case (Some a)
      let ?w = "w\<lparr>w_leases := lm, w_heart := HeartShut a now e es\<rparr>"
      have "(e, a) \<in> set (w_em w)" using Some by (rule map_of_SomeD)
      then have "idle_runner (w_run ?w a)" using assms(1) by (force simp: quiet_heart_defs)
      then obtain cs s where cs: "run_schedule fl cfg cs ?w = Some (?w\<lparr>w_run := run_at w a s, w_heart := HeartRemove now e es\<rparr>)"
        using shut_schedule [of ?w a now e es fl cfg] by auto
      have "run_schedule fl cfg [ChHeart [] 0, ChHeart [] 0] w = Some ?w"
        by (simp add: heart_next_def assms(2) Pair True Some)
      from run_schedule_append [OF this, of "cs @ [ChHeart [] 0, ChHeart [] 0]"]
      have run: "run_schedule fl cfg ([ChHeart [] 0, ChHeart [] 0] @ cs @ [ChHeart [] 0, ChHeart [] 0]) w = Some (?v (run_at w a s))"
        by (simp add: run_schedule_append [OF cs] heart_next_def)
      have gone: "a \<notin> snd ` set (gdel e (w_em w))" by (rule gdel_pointer [OF pointers Some])
      show ?thesis
        by (rule hearts_toI [OF run quiet])
          (use gone in \<open>auto simp: seen_of_def Evictor_Evict_cases Pair True Manager_Remove_def map_runs_del
            map_runs_other simp flip: map_runs_del\<close>)
    qed
  qed
qed

lemma evict_loop_steps:
  "quiet_heart w \<Longrightarrow> w_heart w = HeartEvict now es \<Longrightarrow>
   hearts_to fl cfg w (HeartEvict now []) (foldl (Evictor_Evict drain) (seen_of cfg w) es)"
proof (induction es arbitrary: w)
  case Nil
  then show ?case by (auto intro: hearts_toI [of _ _ "[]"])
next
  case (Cons e es)
  have "hearts_to fl cfg w (HeartEvict now []) (foldl (Evictor_Evict drain) (Evictor_Evict drain (seen_of cfg w) e) es)"
    by (rule hearts_to_trans [OF evict_steps [OF Cons.prems, of fl cfg drain]]) (use Cons.IH in metis)
  then show ?case by simp
qed

lemma renew_loop_completes:
  assumes "quiet_heart w" and "w_heart w = HeartLoop now es"
  shows "completes fl cfg w (renew_loop now clock es (seen_of cfg w)) (w_ids w)"
  using assms
proof (induction es arbitrary: w)
  case Nil
  have run: "run_schedule fl cfg [ChHeart [] 0] w = Some (w\<lparr>w_heart := HeartWait\<rparr>)"
    by (simp add: heart_next_def Nil.prems(2))
  have "completes fl cfg (w\<lparr>w_heart := HeartWait\<rparr>) (renew_loop now clock [] (seen_of cfg w)) (w_ids w)"
    by (rule completes_now) (use Nil in \<open>simp_all add: quiet_heart_def seen_of_def\<close>)
  then show ?case by (rule completes_by [OF run])
next
  case (Cons e es)
  have leases: "sys_leases (seen_of cfg w) = w_leases w" by (simp add: seen_of_def)
  show ?case
  proof (cases "Lease_Expired (w_leases w) e now")
    case True
    let ?v = "w\<lparr>w_heart := HeartLoop now es\<rparr>"
    have run: "run_schedule fl cfg [ChHeart [] 0] w = Some ?v"
      by (simp add: heart_next_def Cons.prems(2) True)
    have "completes fl cfg ?v (renew_loop now clock es (seen_of cfg ?v)) (w_ids ?v)"
      by (rule Cons.IH) (use Cons.prems in \<open>simp_all add: quiet_heart_defs\<close>)
    from completes_by [OF run this] show ?thesis using True by (simp add: Heartbeat_expired_def seen_of_def)
  next
    case False
    let ?v = "w\<lparr>w_leases := snd (Lease_Renew (w_leases w) e (clock e)), w_heart := HeartLoop now es\<rparr>"
    have run: "run_schedule fl cfg [ChHeart [] 0, ChHeart [] (clock e)] w = Some ?v"
      by (simp add: heart_next_def Cons.prems(2) False)
    have "completes fl cfg ?v (renew_loop now clock es (seen_of cfg ?v)) (w_ids ?v)"
      by (rule Cons.IH) (use Cons.prems in \<open>simp_all add: quiet_heart_defs\<close>)
    moreover have "renew_loop now clock (e # es) (seen_of cfg w) = renew_loop now clock es (seen_of cfg ?v)"
      using False by (simp add: Heartbeat_expired_def Heartbeat_Renew_def seen_of_def case_prod_beta)
    ultimately show ?thesis by (auto intro: completes_by [OF run])
  qed
qed

lemma gkeys_gput: "gget m k \<noteq> None \<Longrightarrow> gkeys (gput k v m) = gkeys m"
  by (induction m) (auto simp: gkeys_def)

lemma Evict_keys: "gkeys (lm_leases (snd (Lease_Evict m e))) = gkeys (lm_leases m)"
  by (auto simp: Lease_Evict_def gkeys_gput split: option.split)

lemma evict_fold_keys:
  "gkeys (lm_leases (sys_leases (foldl (Evictor_Evict drain) y es))) = gkeys (lm_leases (sys_leases y))"
  by (induction es arbitrary: y) (simp_all add: Evict_leases Evict_keys)

lemma sweep_completes:
  assumes "quiet w" and "range_order (lm_leases (w_leases w)) ks" and "range_order (lm_leases (w_leases w)) ks'"
  shows "completes fl cfg w (Heartbeat_sweep drain now clock ks ks' (seen_of cfg w)) (w_ids w)"
proof -
  let ?es = "Lease_ExpiredLeases (w_leases w) now ks"
  let ?w = "w\<lparr>w_heart := HeartEvict now ?es\<rparr>"
  have wait: "w_heart w = HeartWait" using assms(1) by (simp add: quiet_def)
  then have run: "run_schedule fl cfg [ChHeart ks now] w = Some ?w" using assms(2) by (simp add: heart_next_def)
  have seen: "seen_of cfg ?w = seen_of cfg w" by (simp add: seen_of_def)
  let ?y = "foldl (Evictor_Evict drain) (seen_of cfg w) ?es"
  have "hearts_to fl cfg ?w (HeartEvict now []) (foldl (Evictor_Evict drain) (seen_of cfg ?w) ?es)"
    by (rule evict_loop_steps) (use assms(1) wait in \<open>simp_all add: quiet_heart_defs\<close>)
  then obtain v where v: "steps fl cfg ?w v" "quiet_heart v" "w_heart v = HeartEvict now []" "seen_of cfg v = ?y" "w_ids v = w_ids w"
    unfolding seen hearts_to_def by auto
  have leases: "w_leases v = sys_leases ?y" unfolding v(4) [symmetric] by (simp add: seen_of_def)
  have "gkeys (lm_leases (w_leases v)) = gkeys (lm_leases (w_leases w))"
    unfolding leases by (simp add: evict_fold_keys seen_of_def)
  then have order: "range_order (lm_leases (w_leases v)) ks'" using assms(3) by (simp add: range_order_def)
  let ?v = "v\<lparr>w_heart := HeartLoop now (Lease_Executors (w_leases v) ks')\<rparr>"
  have run': "run_schedule fl cfg [ChHeart ks' 0] v = Some ?v" using order by (simp add: heart_next_def v(3))
  have "completes fl cfg ?v (renew_loop now clock (Lease_Executors (w_leases v) ks') (seen_of cfg ?v)) (w_ids ?v)"
    by (rule renew_loop_completes) (use v(2) in \<open>simp_all add: quiet_heart_defs\<close>)
  moreover have "renew_loop now clock (Lease_Executors (w_leases v) ks') (seen_of cfg ?v) =
      Heartbeat_sweep drain now clock ks ks' (seen_of cfg w)"
  proof -
    have "seen_of cfg ?v = seen_of cfg v" "sys_leases (seen_of cfg w) = w_leases w" by (simp_all add: seen_of_def)
    then show ?thesis by (simp add: Heartbeat_sweep_def v(4) leases Let_def)
  qed
  ultimately show ?thesis
    using completes_by [OF run completes_step [OF v(1) completes_by [OF run']]] v(5) by simp
qed

section \<open>Turns of workers\<close>

lemma worker_completes:
  assumes "quiet w"
  shows "completes fl cfg w (worker_turn e (seen_of cfg w)) (w_ids w)"
proof (cases "gget (w_em w) e")
  case None
  then have "worker_turn e (seen_of cfg w) = seen_of cfg w"
    by (simp add: worker_turn_def seen_of_def Manager_Get_def map_runs_get)
  then show ?thesis using assms by (auto intro: completes_now)
next
  case (Some a)
  let ?s = "w_run w a"
  let ?r = "y_r ?s"
  have get: "Manager_Get (sys_execs (seen_of cfg w)) e = Some ?r"
    by (simp add: seen_of_def Manager_Get_def map_runs_get Some)
  have mem: "(e, a) \<in> set (w_em w)" using Some by (rule map_of_SomeD)
  have idle: "idle_runner ?s" "w_hand w a = HandlerStart" "a < w_next w"
    using assms mem by (force simp: quiet_defs)+
  show ?thesis
  proof (cases "rn_in ?r = [] \<or> rn_closed ?r")
    case True
    then have "worker_turn e (seen_of cfg w) = seen_of cfg w"
      using get by (auto simp: worker_turn_def split: list.split)
    then show ?thesis using assms by (auto intro: completes_now)
  next
    case False
    then obtain i rest where q: "rn_in ?r = i # rest" "\<not> rn_closed ?r" by (cases "rn_in ?r") auto
    let ?s' = "?s\<lparr>y_started := y_started ?s @ [i], y_r := (release (?r\<lparr>rn_in := rest\<rparr>) i)\<lparr>rn_wg := 0\<rparr>,
      y_worker := WIdle\<rparr>"
    let ?w = "w\<lparr>w_store := Store_RecordTaskExecution (w_store w) i, w_metrics := Succeeded (w_metrics w),
      w_run := run_at w a ?s'\<rparr>"
    have hand: "(w_hand w)(a := HandlerStart) = w_hand w" using idle(2) by (simp add: fun_upd_idem)
    have "y_r ?s' = release (?r\<lparr>rn_in := rest\<rparr>) i"
      using idle(1) by (cases ?r) (simp add: idle_runner_def release_def)
    then have upd: "map_runs (w_em w) (run_at w a ?s') =
        gput e (release (?r\<lparr>rn_in := rest\<rparr>) i) (map_runs (w_em w) (w_run w))"
      using map_runs_upd [of "w_em w" e a "w_run w" ?s'] assms Some by (simp only: quiet_defs)
    have run: "run_schedule fl cfg [ChWork a Recv, ChWork a StartInst, ChHandler a, ChHandler a, ChHandler a,
        ChWork a FinishInst, ChWork a LeaveGroup] w = Some ?w"
      using idle q hand
      by (simp add: work_next_def handler_next_def runner_next.simps idle_runner_def release_def)
    have quiet: "quiet ?w"
      using assms mem idle(1) by (auto simp: quiet_defs idle_runner_def release_def)
    have "seen_of cfg ?w = worker_turn e (seen_of cfg w)"
      using get q upd by (simp add: worker_turn_def main_handler_def seen_of_def Manager_Put_def)
    from completes_now [OF quiet this subset_refl]
    have "completes fl cfg ?w (worker_turn e (seen_of cfg w)) (w_ids w)" by simp
    then show ?thesis by (rule completes_by [OF run])
  qed
qed

section \<open>Runs of events\<close>

text \<open>
  The events that are the whole call of one goroutine: the lease table is visited in an order of its
  keys, and a hand-off to a full runner waits until its timer fires.
\<close>

fun plain_event :: "system \<Rightarrow> sys_event \<Rightarrow> bool" where
  "plain_event y (EvClockTick envs ks now) \<longleftrightarrow>
     (\<forall>n. he_wait (envs n) = Pair Timer) \<and> range_order (lm_leases (sys_leases y)) ks"
| "plain_event y (EvSweep drain now clock ks ks') \<longleftrightarrow>
     range_order (lm_leases (sys_leases y)) ks \<and> range_order (lm_leases (sys_leases y)) ks'"
| "plain_event y _ \<longleftrightarrow> True"

fun plain_events :: "(rat \<Rightarrow> rat) \<Rightarrow> config \<Rightarrow> system \<Rightarrow> sys_event list \<Rightarrow> bool" where
  "plain_events fl cfg y [] \<longleftrightarrow> True"
| "plain_events fl cfg y (ev # evs) \<longleftrightarrow> plain_event y ev \<and> plain_events fl cfg (sys_step fl cfg y ev) evs"

fun event_ids :: "sys_event \<Rightarrow> string list" where
  "event_ids (EvPublishReq i k now created m req) = [i]"
| "event_ids _ = []"

lemma event_completes:
  assumes "quiet w" and "plain_event (seen_of cfg w) ev" and "set (event_ids ev) \<inter> w_ids w = {}"
  shows "completes fl cfg w (sys_step fl cfg (seen_of cfg w) ev) (set (event_ids ev) \<union> w_ids w)"
proof -
  have leases: "sys_leases (seen_of cfg w) = w_leases w" by (simp add: seen_of_def)
  show ?thesis
    using assms handlePublish_completes [OF assms(1)] handleExecutor_completes [OF assms(1)]
      Tick_completes [OF assms(1)] sweep_completes [OF assms(1)] worker_completes [OF assms(1)]
    by (cases ev) (simp_all add: leases)
qed

lemma events_complete:
  assumes "quiet w" and "plain_events fl cfg (seen_of cfg w) evs"
    and "distinct (concat (map event_ids evs))" and "set (concat (map event_ids evs)) \<inter> w_ids w = {}"
  shows "\<exists>w'. steps fl cfg w w' \<and> quiet w' \<and> seen_of cfg w' = foldl (sys_step fl cfg) (seen_of cfg w) evs"
  using assms
proof (induction evs arbitrary: w)
  case Nil
  then show ?case by auto
next
  case (Cons ev evs)
  let ?ids = "set (concat (map event_ids evs))"
  have "completes fl cfg w (sys_step fl cfg (seen_of cfg w) ev) (set (event_ids ev) \<union> w_ids w)"
    by (rule event_completes) (use Cons.prems in auto)
  then obtain v where v: "steps fl cfg w v" "quiet v" "seen_of cfg v = sys_step fl cfg (seen_of cfg w) ev"
    "w_ids v \<subseteq> set (event_ids ev) \<union> w_ids w"
    unfolding completes_def by blast
  have "?ids \<inter> w_ids v = {}" using v(4) Cons.prems(3,4) by auto
  then obtain w' where "steps fl cfg v w'" "quiet w'" "seen_of cfg w' = foldl (sys_step fl cfg) (seen_of cfg v) evs"
    using Cons.IH [OF v(2)] v(3) Cons.prems(2,3) by auto
  then show ?case using v(1,3) by (auto intro: rtranclp_trans)
qed

lemma quiet_start: "quiet (world_start fl cfg)"
  by (simp add: quiet_defs spare_def world_start_def gwf_def gkeys_def)

lemma seen_start: "seen_of cfg (world_start fl cfg) = main_state fl cfg"
  by (simp add: seen_of_def world_start_def main_state_def map_runs_def NewManager_def)

section \<open>Properties\<close>

text \<open>
  C8: the program with whole calls in a row is the interleaved program under particular schedules.
  Whatever state a run of events reaches (publish and executor requests, ticks, sweeps, turns of
  workers), as long as the uuids of the publishes differ, the lease table is visited in an order of
  its keys and a hand-off to a full runner ends by its timer, the goroutines of the program can
  reach too: some run of their steps leads to a world in which every goroutine is between two calls
  and whose components are exactly those of that state.
\<close>

theorem events_are_schedules:
  assumes "plain_events fl cfg (main_state fl cfg) evs" and "distinct (concat (map event_ids evs))"
  shows "\<exists>n w. world_run fl cfg n w \<and> w_tick w = TickWait \<and> w_heart w = HeartWait
    \<and> (\<forall>a \<in> snd ` set (w_em w). y_worker (w_run w a) = WIdle)
    \<and> seen_of cfg w = foldl (sys_step fl cfg) (main_state fl cfg) evs"
proof -
  have "set (concat (map event_ids evs)) \<inter> w_ids (world_start fl cfg) = {}" by (simp add: world_start_def)
  then obtain w where w: "steps fl cfg (world_start fl cfg) w" "quiet w"
    "seen_of cfg w = foldl (sys_step fl cfg) (main_state fl cfg) evs"
    using events_complete [OF quiet_start [of fl cfg], where fl = fl and cfg = cfg and evs = evs] assms by (auto simp: seen_start)
  then obtain n where "world_run fl cfg n w"
    using steps_run [OF w(1), of 0] by (auto intro: run_of.run_init)
  with w(2,3) show ?thesis by (auto simp: quiet_def runners_idle_def idle_runner_def)
qed

definition sample_events :: "sys_event list" where
  "sample_events = [EvPublishReq ''a'' ''k'' 5 5 ''POST'' (Some (sample_request [])),
     EvExecutorReq 5 ''POST'' (Some ''w''), sample_tick, EvWorker ''w'']"

lemma sample_events_plain: "plain_events id sample_config (main_state id sample_config) sample_events"
proof -
  have "range_order (lm_leases (sys_leases (foldl (sys_step id sample_config) (main_state id sample_config)
      [EvPublishReq ''a'' ''k'' 5 5 ''POST'' (Some (sample_request [])), EvExecutorReq 5 ''POST'' (Some ''w'')]))) [''w'']"
    by code_simp
  then show ?thesis by (simp add: sample_events_def sample_tick_def sample_env_def fun_eq_iff)
qed

theorem events_are_schedules_witness:
  "\<exists>n w. world_run id sample_config n w \<and> w_tick w = TickWait \<and> Store_TaskRecord (w_store w) ''a'' \<noteq> None"
proof -
  have "distinct (concat (map event_ids sample_events))" by (simp add: sample_events_def sample_tick_def)
  from events_are_schedules [OF sample_events_plain this] obtain n w where w: "world_run id sample_config n w"
    "w_tick w = TickWait" "seen_of sample_config w = foldl (sys_step id sample_config) (main_state id sample_config) sample_events"
    by blast
  have "Store_TaskRecord (sys_store (foldl (sys_step id sample_config) (main_state id sample_config) sample_events)) ''a'' \<noteq> None"
    by code_simp
  then have "Store_TaskRecord (w_store w) ''a'' \<noteq> None" by (simp add: seen_of_def flip: w(3))
  with w(1,2) show ?thesis by blast
qed

end
