(* ===== verification/No_Deadlock.thy ===== *)
theory No_Deadlock
  imports Atomic_Runs
begin

text \<open>
  No goroutine of the interleaved program (\<open>Goroutines\<close>) ever waits for something that cannot come:
  from every reachable state every call that has begun can be finished.  Preservation: the mutex of a
  runner is free between the steps, and a goroutine is only inside a runner's call while its own pc
  says so.  Progress: unless all calls are finished, some step makes the work that is left smaller.
\<close>

section \<open>What every step keeps\<close>

fun slow_call :: "caller_pc \<Rightarrow> bool" where
  "slow_call (CSlow i) \<longleftrightarrow> True"
| "slow_call (CSlowSent i) \<longleftrightarrow> True"
| "slow_call _ \<longleftrightarrow> False"

fun tick_in :: "nat \<Rightarrow> tick_pc \<Rightarrow> bool" where
  "tick_in a (TickCall b c u) \<longleftrightarrow> b = a"
| "tick_in a _ \<longleftrightarrow> False"

fun heart_in :: "nat \<Rightarrow> heart_pc \<Rightarrow> bool" where
  "heart_in a (HeartShutWait b now e es) \<longleftrightarrow> b = a"
| "heart_in a _ \<longleftrightarrow> False"

text \<open>The ticking goroutine calls a runner as the caller 0 and the heartbeat as the caller 1.\<close>

definition calls_ok :: "bool \<Rightarrow> bool \<Rightarrow> runner_sys \<Rightarrow> bool" where
  "calls_ok ticking beating s \<longleftrightarrow> y_lock s = None \<and> group_inv s \<and> close_inv s \<and> exit_inv s
     \<and> (is_idle (y_thr s 0) \<or> ticking \<and> slow_call (y_thr s 0))
     \<and> (is_idle (y_thr s 1) \<or> beating \<and> shutting (y_thr s 1))
     \<and> (\<forall>t. 2 \<le> t \<longrightarrow> is_idle (y_thr s t))"

definition calm :: "world \<Rightarrow> bool" where
  "calm w \<longleftrightarrow> spare (w_req w)
     \<and> (\<forall>a. calls_ok (tick_in a (w_tick w)) (heart_in a (w_heart w)) (w_run w a))
     \<and> (\<forall>a. w_next w \<le> a \<longrightarrow> y_worker (w_run w a) = WIdle)"

lemma calm_calls: "calm w \<Longrightarrow> calls_ok (tick_in a (w_tick w)) (heart_in a (w_heart w)) (w_run w a)"
  by (simp add: calm_def)

lemma calls_ok_start [simp]: "calls_ok t h (runner_start cap)"
  by (simp add: calls_ok_def runner_start_def group_inv_def close_inv_def exit_inv_def NewRunner_def)

lemma calls_ok_mono: "calls_ok t h s \<Longrightarrow> (t \<Longrightarrow> t') \<Longrightarrow> (h \<Longrightarrow> h') \<Longrightarrow> calls_ok t' h' s"
  by (auto simp: calls_ok_def)

lemma runner_keeps:
  "runner_step s b s' \<Longrightarrow> group_inv s \<and> close_inv s \<and> exit_inv s \<Longrightarrow> group_inv s' \<and> close_inv s' \<and> exit_inv s'"
  by (blast intro: group_step close_step exit_step)

lemma calls_tick:
  assumes "runner_step s b s'" and "b \<in> {Enq 0 i, SlowSend 0, SlowMark 0, SlowTimeout 0, SlowStop 0}"
    and "calls_ok t h s"
  shows "calls_ok True h s' \<and> y_worker s' = y_worker s \<and> y_thr s' 1 = y_thr s 1"
  using assms(2,1,3) runner_keeps [OF assms(1)]
  by (auto simp: calls_ok_def runner_step_simps)

lemma calls_heart:
  assumes "runner_step s b s'" and "b \<in> {ShutBegin 1, ShutStop 1, ShutDone 1}" and "calls_ok t h s"
  shows "calls_ok t True s' \<and> y_worker s' = y_worker s \<and> y_thr s' 0 = y_thr s 0"
  using assms(2,1,3) runner_keeps [OF assms(1)]
  by (auto simp: calls_ok_def runner_step_simps)

lemma calls_work:
  assumes "runner_step s b s'" and "b \<in> {Recv, WorkerStop, StartInst, HandlerReturn, FinishInst, LeaveGroup}"
    and "calls_ok t h s"
  shows "calls_ok t h s' \<and> y_thr s' = y_thr s"
  using assms(2,1,3) runner_keeps [OF assms(1)]
  by (auto simp: calls_ok_def runner_step_simps)

lemma calm_publish: "publish_step w w' \<Longrightarrow> calm w \<Longrightarrow> calm w'"
  by (induction rule: publish_step.induct) (simp_all add: calm_def)

lemma calm_register: "register_step cfg w w' \<Longrightarrow> calm w \<Longrightarrow> calm w'"
  by (induction rule: register_step.induct) (simp_all add: calm_def)

lemma calm_tick: "tick_step fl cfg w w' \<Longrightarrow> calm w \<Longrightarrow> calm w'"
proof (induction rule: tick_step.induct)
  case (tick_enqueue w a c u i s)
  then have "calls_ok (tick_in a (w_tick w)) (heart_in a (w_heart w)) (w_run w a)" by (blast dest: calm_calls)
  from calls_tick [OF tick_enqueue.hyps(2) _ this, of i] tick_enqueue show ?case
    by (auto simp: calm_def elim: calls_ok_mono)
next
  case (tick_slow w a c u b s)
  then have "calls_ok (tick_in a (w_tick w)) (heart_in a (w_heart w)) (w_run w a)" by (blast dest: calm_calls)
  from calls_tick [OF tick_slow.hyps(3) _ this] tick_slow show ?case
    by (auto simp: calm_def elim: calls_ok_mono)
next
  case (tick_accepted w a c u)
  then show ?case by (auto simp: calm_def calls_ok_def)
next
  case (tick_refused w a c u err)
  then show ?case by (auto simp: calm_def calls_ok_def)
qed (simp_all add: calm_def split: option.split)

lemma calm_heart: "heart_step w w' \<Longrightarrow> calm w \<Longrightarrow> calm w'"
proof (induction rule: heart_step.induct)
  case (heart_shut w a now e es s)
  then have "calls_ok (tick_in a (w_tick w)) (heart_in a (w_heart w)) (w_run w a)" by (blast dest: calm_calls)
  from calls_heart [OF heart_shut.hyps(2) _ this] heart_shut show ?case
    by (auto simp: calm_def elim: calls_ok_mono)
next
  case (heart_closing w a now e es b s)
  then have "calls_ok (tick_in a (w_tick w)) (heart_in a (w_heart w)) (w_run w a)" by (blast dest: calm_calls)
  from calls_heart [OF heart_closing.hyps(3) _ this] heart_closing show ?case
    by (auto simp: calm_def elim: calls_ok_mono)
next
  case (heart_closed w a now e es x)
  then show ?case by (auto simp: calm_def calls_ok_def)
qed (simp_all add: calm_def)

lemma calm_work: "work_step w w' \<Longrightarrow> calm w \<Longrightarrow> calm w'"
proof (induction rule: work_step.induct)
  case (work_runner a w b s)
  then have "calls_ok (tick_in a (w_tick w)) (heart_in a (w_heart w)) (w_run w a)" by (blast dest: calm_calls)
  from calls_work [OF work_runner.hyps(3) _ this] work_runner show ?case by (auto simp: calm_def)
next
  case (work_return a w s)
  then have "calls_ok (tick_in a (w_tick w)) (heart_in a (w_heart w)) (w_run w a)" by (blast dest: calm_calls)
  from calls_work [OF work_return.hyps(3) _ this] work_return show ?case by (auto simp: calm_def)
qed (simp_all add: calm_def)

lemma calm_step: "world_step fl cfg w w' \<Longrightarrow> calm w \<Longrightarrow> calm w'"
  by (auto simp: world_step_def dest: calm_publish calm_register calm_tick calm_heart calm_work)

lemma calm_start: "calm (world_start fl cfg)"
  by (simp add: calm_def world_start_def spare_def) (simp add: runner_start_def)

interpretation cm: state_machine "\<lambda>w. w = world_start fl cfg" "world_step fl cfg" "\<lambda>n. calm" bound
  for fl cfg bound
  by unfold_locales (auto intro: calm_step calm_start)

section \<open>The work that is left\<close>

text \<open>
  How many steps the calls that have begun still take, at most: of a request, of the ticking goroutine
  (up to ten for a task of its batch, and seven for its execution), of the heartbeat (up to eight for an
  eviction and two for a renewal, of which there are as many as leases in the end), and of a worker
  until it waits in its \<open>select\<close> with nothing queued (seven for each queued instance).
\<close>

fun req_left :: "req_pc \<Rightarrow> nat" where
  "req_left ReqIdle = 0"
| "req_left (ReqDeps u ds) = 7 + length ds"
| "req_left (ReqClear u) = 6"
| "req_left (ReqRegister u) = 5"
| "req_left (ReqReady u) = 4"
| "req_left (ReqEnqueue u) = 3"
| "req_left (ReqAdvance u) = 2"
| "req_left (ReqCount u) = 1"
| "req_left (ReqAcquire e) = 3"
| "req_left (ReqDone r) = 0"

fun call_left :: "caller_pc \<Rightarrow> nat" where
  "call_left (CIdle x) = 0"
| "call_left (CSlow i) = 2"
| "call_left (CSlowSent i) = 1"
| "call_left CShutWait = 2"
| "call_left CShutStop = 1"
| "call_left _ = 0"

fun tick_left :: "(nat \<Rightarrow> runner_sys) \<Rightarrow> tick_pc \<Rightarrow> nat" where
  "tick_left rs TickWait = 0"
| "tick_left rs (TickLease win us) = 17 * length us + 3"
| "tick_left rs (TickRequeue us) = length us + 1"
| "tick_left rs (TickNext c) = 17 * length (rest_of c) + 2"
| "tick_left rs (TickGet c u i) = 17 * length (rest_of c) + 18"
| "tick_left rs (TickEnqueue a c u i) = 17 * length (rest_of c) + 17"
| "tick_left rs (TickCall a c u) = 17 * length (rest_of c) + 7 + call_left (y_thr (rs a) 0)"
| "tick_left rs (TickMark c u) = 17 * length (rest_of c) + 6"
| "tick_left rs (TickCommit c u) = 17 * length (rest_of c) + 5"
| "tick_left rs (TickSet c u) = 17 * length (rest_of c) + 4"
| "tick_left rs (TickCount c) = 17 * length (rest_of c) + 3"
| "tick_left rs (TickFail c) = 17 * length (rest_of c) + 3"
| "tick_left rs TickStopped = 0"

fun heart_left :: "(nat \<Rightarrow> runner_sys) \<Rightarrow> nat \<Rightarrow> heart_pc \<Rightarrow> nat" where
  "heart_left rs n HeartWait = 0"
| "heart_left rs n (HeartEvict now es) = 8 * length es + 2 * n + 2"
| "heart_left rs n (HeartGet now e es) = 8 * length es + 2 * n + 9"
| "heart_left rs n (HeartShut a now e es) = 8 * length es + 2 * n + 8"
| "heart_left rs n (HeartShutWait a now e es) = 8 * length es + 2 * n + 5 + call_left (y_thr (rs a) 1)"
| "heart_left rs n (HeartRemove now e es) = 8 * length es + 2 * n + 4"
| "heart_left rs n (HeartCount now es) = 8 * length es + 2 * n + 3"
| "heart_left rs n (HeartLoop now es) = 2 * length es + 1"
| "heart_left rs n (HeartRenew now e es) = 2 * length es + 2"
| "heart_left rs n HeartStopped = 0"

fun worker_left :: "worker_pc \<Rightarrow> handler_pc \<Rightarrow> nat \<Rightarrow> nat" where
  "worker_left WIdle h n = 7 * n"
| "worker_left (WGot i) h n = 7 * n + 6"
| "worker_left (WRunning i) h n =
     7 * n + (case h of HandlerStart \<Rightarrow> 5 | HandlerRecorded \<Rightarrow> 4 | HandlerCounted \<Rightarrow> 3)"
| "worker_left (WFinish i) h n = 7 * n + 2"
| "worker_left (WWgDone i) h n = 7 * n + 1"
| "worker_left (WExited is) h n = 0"

abbreviation runner_left :: "world \<Rightarrow> nat \<Rightarrow> nat" where
  "runner_left w a \<equiv> worker_left (y_worker (w_run w a)) (w_hand w a) (length (rn_in (y_r (w_run w a))))"

definition reqs_left :: "world \<Rightarrow> nat" where
  "reqs_left w = (\<Sum>t \<in> {t. w_req w t \<noteq> ReqIdle}. req_left (w_req w t))"

definition workers_left :: "world \<Rightarrow> nat" where
  "workers_left w = (\<Sum>a < w_next w. runner_left w a)"

definition work_left :: "world \<Rightarrow> nat" where
  "work_left w = reqs_left w + tick_left (w_run w) (w_tick w)
     + heart_left (w_run w) (length (lm_leases (w_leases w))) (w_heart w) + workers_left w"

text \<open>Every goroutine is between two calls, and no worker that still runs has anything to do.\<close>

definition between_calls :: "world \<Rightarrow> bool" where
  "between_calls w \<longleftrightarrow> w_tick w \<in> {TickWait, TickStopped} \<and> w_heart w \<in> {HeartWait, HeartStopped}
     \<and> (\<forall>t. w_req w t = ReqIdle \<or> (\<exists>r. w_req w t = ReqDone r))
     \<and> (\<forall>a < w_next w. y_worker (w_run w a) = WIdle \<and> rn_in (y_r (w_run w a)) = []
           \<or> exited (y_worker (w_run w a)) \<and> rn_closed (y_r (w_run w a)))
     \<and> (\<forall>a t. is_idle (y_thr (w_run w a) t))"

lemma nothing_left:
  assumes "calm w" and "work_left w = 0"
  shows "between_calls w"
proof -
  have fin: "finite {t. w_req w t \<noteq> ReqIdle}" using assms(1) by (simp add: calm_def spare_def)
  have parts: "reqs_left w = 0" "workers_left w = 0" "tick_left (w_run w) (w_tick w) = 0"
    "heart_left (w_run w) (length (lm_leases (w_leases w))) (w_heart w) = 0"
    using assms(2) by (simp_all add: work_left_def)
  have tick: "w_tick w \<in> {TickWait, TickStopped}" using parts(3) by (cases "w_tick w") auto
  have heart: "w_heart w \<in> {HeartWait, HeartStopped}" using parts(4) by (cases "w_heart w") auto
  have req: "w_req w t = ReqIdle \<or> (\<exists>r. w_req w t = ReqDone r)" for t
  proof -
    have "w_req w t \<noteq> ReqIdle \<Longrightarrow> req_left (w_req w t) = 0" using parts(1) fin by (simp add: reqs_left_def)
    then show ?thesis by (cases "w_req w t") auto
  qed
  have worker: "y_worker (w_run w a) = WIdle \<and> rn_in (y_r (w_run w a)) = []
      \<or> exited (y_worker (w_run w a)) \<and> rn_closed (y_r (w_run w a))" if "a < w_next w" for a
  proof -
    have "runner_left w a = 0" using parts(2) that by (simp add: workers_left_def)
    moreover have "exit_inv (w_run w a)" using calm_calls [OF assms(1), of a] by (simp add: calls_ok_def)
    ultimately show ?thesis by (cases "y_worker (w_run w a)") (auto simp: exit_inv_def split: handler_pc.splits)
  qed
  have "is_idle (y_thr (w_run w a) t)" for a t
  proof -
    have "\<not> tick_in a (w_tick w)" "\<not> heart_in a (w_heart w)" using tick heart by auto
    with calm_calls [OF assms(1), of a] have "is_idle (y_thr (w_run w a) 0)" "is_idle (y_thr (w_run w a) 1)"
      "2 \<le> t \<Longrightarrow> is_idle (y_thr (w_run w a) t)"
      by (simp_all add: calls_ok_def)
    then show ?thesis by (cases "t = 0"; cases "t = 1") auto
  qed
  with tick heart req worker show ?thesis by (simp add: between_calls_def)
qed

section \<open>Progress\<close>

text \<open>Finishing calls starts no request and takes back no response.\<close>

definition answers_kept :: "world \<Rightarrow> world \<Rightarrow> bool" where
  "answers_kept w w' \<longleftrightarrow> (\<forall>t. (w_req w' t = ReqIdle \<longleftrightarrow> w_req w t = ReqIdle)
     \<and> (\<forall>r. w_req w t = ReqDone r \<longrightarrow> w_req w' t = ReqDone r))"

definition can_go :: "(rat \<Rightarrow> rat) \<Rightarrow> config \<Rightarrow> world \<Rightarrow> bool" where
  "can_go fl cfg w \<longleftrightarrow> (\<exists>w'. world_step fl cfg w w' \<and> answers_kept w w' \<and> work_left w' < work_left w)"

lemma reqs_left_upd:
  assumes "spare (w_req w)" and "w_req w t \<noteq> ReqIdle" and "pc \<noteq> ReqIdle" and "w_req w' = (w_req w)(t := pc)"
  shows "reqs_left w' + req_left (w_req w t) = reqs_left w + req_left pc"
proof -
  let ?S = "{x. w_req w x \<noteq> ReqIdle}"
  have fin: "finite ?S" and t: "t \<in> ?S" using assms(1,2) by (simp_all add: spare_def)
  have "{x. w_req w' x \<noteq> ReqIdle} = ?S" using assms(2-4) by auto
  moreover have "(\<Sum>x \<in> ?S - {t}. req_left (w_req w' x)) = (\<Sum>x \<in> ?S - {t}. req_left (w_req w x))"
    by (rule sum.cong) (simp_all add: assms(4))
  ultimately show ?thesis
    unfolding reqs_left_def using sum.remove [OF fin t, of "\<lambda>x. req_left (w_req w' x)"]
      sum.remove [OF fin t, of "\<lambda>x. req_left (w_req w x)"]
    by (simp add: assms(4))
qed

lemma workers_left_upd:
  assumes "a < w_next w" and "w_next w' = w_next w" and "\<And>b. b \<noteq> a \<Longrightarrow> runner_left w' b = runner_left w b"
  shows "workers_left w' + runner_left w a = workers_left w + runner_left w' a"
proof -
  have fin: "finite {..<w_next w}" and a: "a \<in> {..<w_next w}" using assms(1) by simp_all
  have "(\<Sum>x \<in> {..<w_next w} - {a}. runner_left w' x) = (\<Sum>x \<in> {..<w_next w} - {a}. runner_left w x)"
    by (rule sum.cong) (simp_all add: assms(3))
  then show ?thesis
    unfolding workers_left_def assms(2)
    using sum.remove [OF fin a, of "runner_left w'"] sum.remove [OF fin a, of "runner_left w"] by simp
qed

lemma heart_left_mono: "heart_left rs (n + k) pc \<le> heart_left rs n pc + 2 * k"
  by (cases pc) simp_all

lemma Acquire_leases:
  "length (lm_leases m) \<le> length (lm_leases (snd (Lease_Acquire m e now)))"
  "length (lm_leases (snd (Lease_Acquire m e now))) \<le> length (lm_leases m) + 1"
  by (auto simp: Lease_Acquire_def Let_def length_gput split: option.split)

lemma request_next:
  assumes "req_left (w_req w t) \<noteq> 0"
  shows "\<exists>w' k. req_next t 0 w = Some w' \<and> w_req w' = (w_req w)(t := w_req w' t) \<and> w_req w' t \<noteq> ReqIdle
    \<and> w_tick w' = w_tick w \<and> w_heart w' = w_heart w \<and> w_run w' = w_run w \<and> w_next w' = w_next w \<and> w_hand w' = w_hand w
    \<and> length (lm_leases (w_leases w')) = length (lm_leases (w_leases w)) + k
    \<and> req_left (w_req w' t) + 2 * k < req_left (w_req w t)"
proof (cases "w_req w t")
  case (ReqDeps u ds)
  show ?thesis
  proof (cases ds)
    case Nil
    then show ?thesis
      by (cases "Store_Append (w_store w) u"; cases "fst (Store_Append (w_store w) u)")
        (auto simp: req_next_def ReqDeps)
  next
    case (Cons d ds')
    then show ?thesis by (simp add: req_next_def ReqDeps)
  qed
next
  case (ReqEnqueue u)
  then show ?thesis
    by (cases "Queue_Enqueue (w_queue w) u"; cases "fst (Queue_Enqueue (w_queue w) u)") (auto simp: req_next_def)
next
  case (ReqAcquire e)
  obtain slot ok lm where l: "Lease_Acquire (w_leases w) e 0 = ((slot, ok), lm)" by (metis prod.exhaust)
  have "length (lm_leases (w_leases w)) \<le> length (lm_leases lm)" "length (lm_leases lm) \<le> length (lm_leases (w_leases w)) + 1"
    using Acquire_leases [of "w_leases w" e 0] l by simp_all
  then obtain k where "length (lm_leases lm) = length (lm_leases (w_leases w)) + k" "k \<le> 1"
    by (metis le_iff_add nat_add_left_cancel_le)
  with l ReqAcquire show ?thesis
    by - (rule exI [of _ "w\<lparr>w_leases := lm, w_req := req_at w t (ReqDone (RespRegistered e slot))\<rparr>"], rule exI [of _ k], simp add: req_next_def)
qed (use assms in \<open>simp_all add: req_next_def\<close>)

lemma request_go:
  assumes "calm w" and "req_left (w_req w t) \<noteq> 0"
  shows "can_go fl cfg w"
proof -
  obtain w' k where w': "req_next t 0 w = Some w'" "w_req w' = (w_req w)(t := w_req w' t)" "w_req w' t \<noteq> ReqIdle"
    "w_tick w' = w_tick w" "w_heart w' = w_heart w" "w_run w' = w_run w" "w_next w' = w_next w" "w_hand w' = w_hand w"
    "length (lm_leases (w_leases w')) = length (lm_leases (w_leases w)) + k" "req_left (w_req w' t) + 2 * k < req_left (w_req w t)"
    using request_next [OF assms(2)] by blast
  have busy: "w_req w t \<noteq> ReqIdle" "w_req w t \<noteq> ReqDone r" for r using assms(2) by auto
  have "reqs_left w' + req_left (w_req w t) = reqs_left w + req_left (w_req w' t)"
    using reqs_left_upd [OF _ busy(1) w'(3,2)] assms(1) by (simp add: calm_def)
  moreover have "workers_left w' = workers_left w" by (simp add: workers_left_def w'(4-9))
  ultimately have "work_left w' < work_left w"
    using heart_left_mono [of "w_run w" "length (lm_leases (w_leases w))" k "w_heart w"] w'(10)
    by (simp add: work_left_def w'(4-9))
  moreover have "world_step fl cfg w w'" using world_next_step [of fl cfg "ChReq t 0" w w'] w'(1) by simp
  moreover have "answers_kept w w'"
  proof -
    define pc where "pc = w_req w' t"
    have "w_req w' = (w_req w)(t := pc)" "pc \<noteq> ReqIdle" using w'(2,3) unfolding pc_def .
    then show ?thesis using busy by (simp add: answers_kept_def)
  qed
  ultimately show ?thesis by (auto simp: can_go_def)
qed

text \<open>Steps of the other goroutines, which leave the requests alone.\<close>

lemma goI:
  assumes "world_step fl cfg w w'" and "w_req w' = w_req w"
    and "tick_left (w_run w') (w_tick w') + heart_left (w_run w') (length (lm_leases (w_leases w'))) (w_heart w') + workers_left w'
      < tick_left (w_run w) (w_tick w) + heart_left (w_run w) (length (lm_leases (w_leases w))) (w_heart w) + workers_left w"
  shows "can_go fl cfg w"
  unfolding can_go_def using assms
  by (intro exI [of _ w']) (simp add: answers_kept_def work_left_def reqs_left_def)

lemma workers_left_same:
  "w_next w' = w_next w \<Longrightarrow> w_hand w' = w_hand w \<Longrightarrow>
   (\<And>a. y_worker (w_run w' a) = y_worker (w_run w a) \<and> rn_in (y_r (w_run w' a)) = rn_in (y_r (w_run w a))) \<Longrightarrow>
   workers_left w' = workers_left w"
  by (simp add: workers_left_def)

lemma heart_left_same:
  "(\<And>a. y_thr (rs' a) 1 = y_thr (rs a) 1) \<Longrightarrow> heart_left rs' n pc = heart_left rs n pc"
  by (cases pc) simp_all

lemma tick_left_same:
  "(\<And>a. y_thr (rs' a) 0 = y_thr (rs a) 0) \<Longrightarrow> tick_left rs' pc = tick_left rs pc"
  by (cases pc) simp_all

lemma tick_go:
  assumes "calm w" and "tick_left (w_run w) (w_tick w) \<noteq> 0"
  shows "can_go fl cfg w"
proof -
  let ?ks = "gkeys (lm_leases (w_leases w))"
  have step: "can_go fl cfg w" if "world_next fl cfg c w = Some w'" "w_req w' = w_req w" "w_heart w' = w_heart w"
    "w_leases w' = w_leases w" "\<And>a. y_thr (w_run w' a) 1 = y_thr (w_run w a) 1"
    "tick_left (w_run w') (w_tick w') + workers_left w' < tick_left (w_run w) (w_tick w) + workers_left w" for c w'
  proof (rule goI [OF world_next_step [OF that(1)] that(2)])
    have "heart_left (w_run w') n pc = heart_left (w_run w) n pc" for n pc
      using that(5) by (intro heart_left_same) simp
    then show "tick_left (w_run w') (w_tick w') + heart_left (w_run w') (length (lm_leases (w_leases w'))) (w_heart w') + workers_left w'
      < tick_left (w_run w) (w_tick w) + heart_left (w_run w) (length (lm_leases (w_leases w))) (w_heart w) + workers_left w"
      using that(3,4,6) by simp
  qed
  have plain: "can_go fl cfg w" if "world_next fl cfg c w = Some w'" "w_req w' = w_req w" "w_heart w' = w_heart w"
    "w_leases w' = w_leases w" "w_next w' = w_next w" "w_hand w' = w_hand w"
    "\<And>a. y_worker (w_run w' a) = y_worker (w_run w a) \<and> rn_in (y_r (w_run w' a)) = rn_in (y_r (w_run w a))
        \<and> y_thr (w_run w' a) 1 = y_thr (w_run w a) 1"
    "tick_left (w_run w') (w_tick w') < tick_left (w_run w) (w_tick w)" for c w'
    by (rule step [OF that(1-4)]) (use that(5-8) workers_left_same [of w' w] in simp_all)
  note tick = plain [of "ChTick ?ks sample_env"]
  show ?thesis
  proof (cases "w_tick w")
    case (TickLease win us)
    then show ?thesis by (cases "Lease_Executors (w_leases w) ?ks") (auto intro!: tick simp: tick_next_def)
  next
    case (TickRequeue us)
    then show ?thesis by (cases us) (auto intro!: tick simp: tick_next_def)
  next
    case (TickNext c)
    obtain e win us where c: "c = (e, win, us)" by (cases c)
    show ?thesis
    proof (cases us)
      case Nil
      with TickNext c show ?thesis by (auto intro!: tick simp: tick_next_def)
    next
      case (Cons u us')
      with TickNext c show ?thesis
        by (cases "Allow fl (w_flow w) e (he_now sample_env)"; cases "fst (Allow fl (w_flow w) e (he_now sample_env))";
            cases "Window_Contains win (task_DueAt u)") (auto intro!: tick simp: tick_next_def)
    qed
  next
    case (TickGet c u i)
    obtain e win us where c: "c = (e, win, us)" by (cases c)
    with TickGet show ?thesis by (cases "gget (w_em w) e") (auto intro!: tick simp: tick_next_def)
  next
    case (TickEnqueue a c u i)
    have ok: "y_lock (w_run w a) = None" "is_idle (y_thr (w_run w a) 0)"
      using calm_calls [OF assms(1), of a] by (simp_all add: TickEnqueue calls_ok_def)
    then obtain s where s: "runner_next (Enq 0 i) (w_run w a) = Some s" "call_left (y_thr s 0) \<le> 2"
      "y_worker s = y_worker (w_run w a)" "y_thr s 1 = y_thr (w_run w a) 1"
      "length (rn_in (y_r s)) \<le> length (rn_in (y_r (w_run w a))) + 1"
      by (cases "Enqueue_try (y_r (w_run w a)) i"; cases "fst (Enqueue_try (y_r (w_run w a)) i)")
        (auto simp: runner_next.simps Enqueue_try_cases split: if_splits)
    let ?w = "w\<lparr>w_run := run_at w a s, w_tick := TickCall a c u\<rparr>"
    have "workers_left ?w \<le> workers_left w + 7"
    proof (cases "a < w_next w")
      case True
      have "runner_left ?w a \<le> runner_left w a + 7" using s(3,5) by (cases "y_worker (w_run w a)") simp_all
      with workers_left_upd [OF True, of ?w] show ?thesis by simp
    next
      case False
      then have "workers_left ?w = workers_left w" unfolding workers_left_def by (intro sum.cong) auto
      then show ?thesis by simp
    qed
    moreover have "world_next fl cfg (ChTick ?ks sample_env) w = Some ?w" using TickEnqueue s(1) by (simp add: tick_next_def)
    ultimately show ?thesis using s(2,4) TickEnqueue by (intro step [of "ChTick ?ks sample_env" ?w]) auto
  next
    case (TickCall a c u)
    have ok: "y_lock (w_run w a) = None" "is_idle (y_thr (w_run w a) 0) \<or> slow_call (y_thr (w_run w a) 0)"
      using calm_calls [OF assms(1), of a] by (simp_all add: TickCall calls_ok_def)
    show ?thesis
    proof (cases "y_thr (w_run w a) 0")
      case (CIdle x)
      with TickCall show ?thesis by (cases x) (auto intro!: tick simp: tick_next_def)
    next
      case (CSlow i)
      with TickCall show ?thesis
        by (auto intro!: plain [of "ChTickCall (SlowTimeout 0)"] simp: tick_call_next_def runner_next.simps)
    next
      case (CSlowSent i)
      have sent: "runner_step (w_run w a) (SlowMark 0) ((w_run w a)\<lparr>y_r := reserve (y_r (w_run w a)) i,
          y_thr := goes (w_run w a) 0 (CIdle None),
          y_accepted := y_accepted (w_run w a) @ [(LiveSlow, i)]\<rparr>)" (is "runner_step _ _ ?s")
        by (rule slow_mark [OF ok(1) CSlowSent])
      let ?w = "w\<lparr>w_run := run_at w a ?s\<rparr>"
      have "world_step fl cfg w ?w" using tick_slow [OF TickCall _ sent] by (simp add: world_step_def)
      then show ?thesis
      proof (rule goI)
        have "workers_left ?w = workers_left w" by (rule workers_left_same) (simp_all add: reserve_def)
        moreover have "heart_left (w_run ?w) n pc = heart_left (w_run w) n pc" for n pc by (rule heart_left_same) simp
        ultimately show "tick_left (w_run ?w) (w_tick ?w) + heart_left (w_run ?w) (length (lm_leases (w_leases ?w))) (w_heart ?w) + workers_left ?w
          < tick_left (w_run w) (w_tick w) + heart_left (w_run w) (length (lm_leases (w_leases w))) (w_heart w) + workers_left w"
          using TickCall CSlowSent by simp
      qed simp
    qed (use ok in auto)
  next
    case (TickCommit c u)
    then show ?thesis
      by (cases "Store_Commit (w_store w) (task_Sequence u)"; cases "fst (Store_Commit (w_store w) (task_Sequence u))")
        (auto intro!: tick simp: tick_next_def)
  qed (use assms(2) in \<open>auto intro!: tick simp: tick_next_def\<close>)
qed

lemma worker_go:
  assumes "calm w" and "a < w_next w" and "runner_left w a \<noteq> 0"
  shows "can_go fl cfg w"
proof -
  let ?s = "w_run w a"
  have free: "y_lock ?s = None" using calm_calls [OF assms(1), of a] by (simp add: calls_ok_def)
  have step: "can_go fl cfg w" if "world_next fl cfg c w = Some w'" "w_req w' = w_req w" "w_heart w' = w_heart w"
    "w_tick w' = w_tick w" "w_next w' = w_next w" "w_leases w' = w_leases w"
    "\<And>b. y_thr (w_run w' b) = y_thr (w_run w b)"
    "\<And>b. b \<noteq> a \<Longrightarrow> w_run w' b = w_run w b \<and> w_hand w' b = w_hand w b" "runner_left w' a < runner_left w a" for c w'
  proof (rule goI [OF world_next_step [OF that(1)] that(2)])
    have "workers_left w' < workers_left w" using workers_left_upd [OF assms(2) that(5)] that(8,9) by simp
    moreover have "heart_left (w_run w') n pc = heart_left (w_run w) n pc" for n pc
      using that(7) by (intro heart_left_same) simp
    moreover have "tick_left (w_run w') pc = tick_left (w_run w) pc" for pc
      using that(7) by (intro tick_left_same) simp
    ultimately show "tick_left (w_run w') (w_tick w') + heart_left (w_run w') (length (lm_leases (w_leases w'))) (w_heart w') + workers_left w'
      < tick_left (w_run w) (w_tick w) + heart_left (w_run w) (length (lm_leases (w_leases w))) (w_heart w) + workers_left w"
      using that(3,4,6) by simp
  qed
  show ?thesis
  proof (cases "y_worker ?s")
    case WIdle
    then obtain i rest where "rn_in (y_r ?s) = i # rest" using assms(3) by (cases "rn_in (y_r ?s)") auto
    with WIdle show ?thesis
      using assms(2) by (auto intro!: step [of "ChWork a Recv"] simp: work_next_def runner_next.simps)
  next
    case (WGot i)
    then show ?thesis
      using assms(2) free
      by (cases "rn_closed (y_r ?s)"; cases "w_hand w a")
        (auto intro!: step [of "ChWork a StartInst"] simp: work_next_def runner_next.simps)
  next
    case (WRunning i)
    then show ?thesis
      using assms(2)
      by (cases "w_hand w a") (auto intro!: step [of "ChHandler a"] simp: handler_next_def runner_next.simps)
  next
    case (WFinish i)
    then show ?thesis
      using assms(2) free
      by (auto intro!: step [of "ChWork a FinishInst"] simp: work_next_def runner_next.simps release_def)
  next
    case (WWgDone i)
    then show ?thesis
      using assms(2) by (auto intro!: step [of "ChWork a LeaveGroup"] simp: work_next_def runner_next.simps)
  qed (use assms(3) in auto)
qed

lemma length_Executors: "range_order (lm_leases m) ks \<Longrightarrow> length (Lease_Executors m ks) \<le> length (lm_leases m)"
  by (metis Lease_Executors_def fst_grange length_filter_le range_order_length)

lemma Evict_length: "length (lm_leases (snd (Lease_Evict m e))) = length (lm_leases m)"
  by (auto simp: Lease_Evict_def length_gput split: option.split)

lemma Renew_length: "length (lm_leases (snd (Lease_Renew m e now))) = length (lm_leases m)"
  by (auto simp: Lease_Renew_def length_gput split: option.split)

text \<open>A shutdown that waits for the wait group waits for a worker that can go on.\<close>

lemma heart_go:
  assumes "calm w" and "heart_left (w_run w) (length (lm_leases (w_leases w))) (w_heart w) \<noteq> 0"
  shows "can_go fl cfg w"
proof -
  let ?ks = "gkeys (lm_leases (w_leases w))"
  have step: "can_go fl cfg w" if "world_next fl cfg c w = Some w'" "w_req w' = w_req w" "w_tick w' = w_tick w"
    "w_next w' = w_next w" "w_hand w' = w_hand w"
    "\<And>a. y_worker (w_run w' a) = y_worker (w_run w a) \<and> rn_in (y_r (w_run w' a)) = rn_in (y_r (w_run w a))
        \<and> y_thr (w_run w' a) 0 = y_thr (w_run w a) 0"
    "heart_left (w_run w') (length (lm_leases (w_leases w'))) (w_heart w') <
     heart_left (w_run w) (length (lm_leases (w_leases w))) (w_heart w)" for c w'
  proof (rule goI [OF world_next_step [OF that(1)] that(2)])
    have "workers_left w' = workers_left w" using that(4-6) by (intro workers_left_same) simp_all
    moreover have "tick_left (w_run w') pc = tick_left (w_run w) pc" for pc
      using that(6) by (intro tick_left_same) simp
    ultimately show "tick_left (w_run w') (w_tick w') + heart_left (w_run w') (length (lm_leases (w_leases w'))) (w_heart w') + workers_left w'
      < tick_left (w_run w) (w_tick w) + heart_left (w_run w) (length (lm_leases (w_leases w))) (w_heart w) + workers_left w"
      using that(3,7) by simp
  qed
  note heart = step [of "ChHeart ?ks 0"]
  show ?thesis
  proof (cases "w_heart w")
    case (HeartEvict now es)
    show ?thesis
    proof (cases es)
      case Nil
      with HeartEvict show ?thesis
        using length_Executors [of "w_leases w" ?ks] by (auto intro!: heart simp: heart_next_def)
    next
      case (Cons e es')
      obtain hit lm where lm: "Lease_Evict (w_leases w) e = (hit, lm)" by fastforce
      then have "length (lm_leases lm) = length (lm_leases (w_leases w))" using Evict_length [of "w_leases w" e] by simp
      with HeartEvict Cons lm show ?thesis by (auto intro!: heart simp: heart_next_def)
    qed
  next
    case (HeartGet now e es)
    then show ?thesis by (cases "gget (w_em w) e") (auto intro!: heart simp: heart_next_def)
  next
    case (HeartShut a now e es)
    have ok: "y_lock (w_run w a) = None" "is_idle (y_thr (w_run w a) 1)"
      using calm_calls [OF assms(1), of a] by (simp_all add: HeartShut calls_ok_def)
    obtain s where s: "runner_next (ShutBegin 1) (w_run w a) = Some s" "call_left (y_thr s 1) \<le> 2"
      "y_worker s = y_worker (w_run w a)" "y_thr s 0 = y_thr (w_run w a) 0" "rn_in (y_r s) = rn_in (y_r (w_run w a))"
      using ok by (cases "rn_closed (y_r (w_run w a))") (auto simp: runner_next.simps idle_iff simp del: One_nat_def)
    with HeartShut show ?thesis by (auto intro!: heart simp: heart_next_def simp del: One_nat_def)
  next
    case (HeartShutWait a now e es)
    have ok: "group_inv (w_run w a)" "is_idle (y_thr (w_run w a) 1) \<or> shutting (y_thr (w_run w a) 1)"
      using calm_calls [OF assms(1), of a] by (simp_all add: HeartShutWait calls_ok_def)
    show ?thesis
    proof (cases "y_thr (w_run w a) 1")
      case (CIdle x)
      with HeartShutWait show ?thesis by (auto intro!: heart simp: heart_next_def simp del: One_nat_def)
    next
      case CShutWait
      show ?thesis
      proof (cases "in_group (y_worker (w_run w a))")
        case True
        then have "runner_left w a \<noteq> 0"
          by (cases "y_worker (w_run w a)") (auto split: handler_pc.split)
        moreover have "a < w_next w"
          using True assms(1) by (metis calm_def in_group.simps(4) not_le)
        ultimately show ?thesis using worker_go [OF assms(1)] by blast
      next
        case False
        then have "rn_wg (y_r (w_run w a)) = 0" using ok(1) by (simp add: group_inv_def)
        with HeartShutWait CShutWait show ?thesis
          by (auto intro!: step [of "ChHeartCall (ShutStop 1)"] simp: heart_call_next_def runner_next.simps simp del: One_nat_def)
      qed
    next
      case CShutStop
      with HeartShutWait show ?thesis
        by (auto intro!: step [of "ChHeartCall (ShutDone 1)"] simp: heart_call_next_def runner_next.simps simp del: One_nat_def)
    qed (use ok in auto)
  next
    case (HeartLoop now es)
    then show ?thesis by (cases es) (auto intro!: heart simp: heart_next_def)
  next
    case (HeartRenew now e es)
    then show ?thesis by (auto intro!: heart simp: heart_next_def Renew_length)
  qed (use assms(2) in \<open>auto intro!: heart simp: heart_next_def\<close>)
qed

lemma work_left_go:
  assumes "calm w" and "work_left w \<noteq> 0"
  shows "can_go fl cfg w"
proof (rule ccontr)
  assume stuck: "\<not> can_go fl cfg w"
  then have "req_left (w_req w t) = 0" for t using request_go [OF assms(1)] by blast
  then have "reqs_left w = 0" by (simp add: reqs_left_def)
  moreover have "a < w_next w \<Longrightarrow> runner_left w a = 0" for a
    using worker_go [OF assms(1)] stuck by blast
  then have "workers_left w = 0" by (simp add: workers_left_def)
  moreover have "tick_left (w_run w) (w_tick w) = 0" using tick_go [OF assms(1)] stuck by blast
  moreover have "heart_left (w_run w) (length (lm_leases (w_leases w))) (w_heart w) = 0"
    using heart_go [OF assms(1)] stuck by blast
  ultimately show False using assms(2) by (simp add: work_left_def)
qed

lemma finish_calls:
  "calm w \<Longrightarrow> \<exists>m w'. m \<le> work_left w \<and> ((world_step fl cfg) ^^ m) w w' \<and> between_calls w' \<and> answers_kept w w'"
proof (induction w rule: measure_induct_rule [of work_left])
  case (less w)
  show ?case
  proof (cases "work_left w = 0")
    case True
    then have "between_calls w" by (rule nothing_left [OF less.prems])
    then show ?thesis by (intro exI [of _ 0] exI [of _ w]) (simp add: answers_kept_def)
  next
    case False
    then obtain v where v: "world_step fl cfg w v" "answers_kept w v" "work_left v < work_left w"
      using work_left_go [OF less.prems] unfolding can_go_def by blast
    obtain m w' where w': "m \<le> work_left v" "((world_step fl cfg) ^^ m) v w'" "between_calls w'" "answers_kept v w'"
      using less.IH [OF v(3) calm_step [OF v(1) less.prems]] by blast
    have "((world_step fl cfg) ^^ Suc m) w w'" using relpowp_Suc_I2 [OF v(1) w'(2)] .
    moreover have "Suc m \<le> work_left w" using w'(1) v(3) by simp
    moreover have "answers_kept w w'" using v(2) w'(4) by (simp add: answers_kept_def)
    ultimately show ?thesis using w'(3) by blast
  qed
qed

section \<open>Properties\<close>

text \<open>
  C3: No goroutine can be stuck, and what was handed off can be executed.  From every state the
  program reaches through any interleaving, some continuation of at most \<open>work_left\<close> steps leads to a
  state in which every goroutine is between two calls: the ticking goroutine and the heartbeat wait
  for their next tick (or have stopped), no call is in progress in any runner, and every request that
  had begun has its response, the responses already given unchanged; and every runner that is not
  shut down has executed every instance that was ever sent to it, in that order, and waits for more.
\<close>

theorem every_call_can_finish:
  assumes "world_run fl cfg n w"
  shows "\<exists>m w'. m \<le> work_left w \<and> ((world_step fl cfg) ^^ m) w w' \<and> between_calls w'
    \<and> (\<forall>t. w_req w t \<noteq> ReqIdle \<longrightarrow> (\<exists>r. w_req w' t = ReqDone r))
    \<and> (\<forall>t r. w_req w t = ReqDone r \<longrightarrow> w_req w' t = ReqDone r)
    \<and> (\<forall>a < w_next w'. \<not> rn_closed (y_r (w_run w' a)) \<longrightarrow>
          y_started (w_run w' a) = map snd (y_sent (w_run w' a)) \<and> y_worker (w_run w' a) = WIdle)"
proof -
  have "calm w" using cm.run_inv [OF assms order_refl] .
  then obtain m w' where w': "m \<le> work_left w" "((world_step fl cfg) ^^ m) w w'" "between_calls w'" "answers_kept w w'"
    using finish_calls by blast
  have "\<exists>r. w_req w' t = ReqDone r" if "w_req w t \<noteq> ReqIdle" for t
  proof -
    have "w_req w' t \<noteq> ReqIdle" using w'(4) that by (simp add: answers_kept_def)
    then show ?thesis using w'(3) by (auto simp: between_calls_def)
  qed
  moreover have "\<forall>t r. w_req w t = ReqDone r \<longrightarrow> w_req w' t = ReqDone r" using w'(4) by (simp add: answers_kept_def)
  moreover have "y_started (w_run w' a) = map snd (y_sent (w_run w' a)) \<and> y_worker (w_run w' a) = WIdle"
    if "a < w_next w'" "\<not> rn_closed (y_r (w_run w' a))" for a
  proof -
    have idle: "y_worker (w_run w' a) = WIdle" "rn_in (y_r (w_run w' a)) = []"
      using w'(3) that by (auto simp: between_calls_def)
    obtain k where "world_run fl cfg k w'" using steps_run [OF relpowp_imp_rtranclp [OF w'(2)] assms] by blast
    then have "once_inv w'" by (rule once.run_inv [OF _ order_refl])
    then have "fifo_inv (w_run w' a)" by (simp add: once_inv_def)
    with idle show ?thesis by (simp add: fifo_inv_def)
  qed
  ultimately show ?thesis using w'(1-3) by blast
qed

text \<open>The world in which two publish requests have begun and the first task is being handed off.\<close>

definition busy_schedule :: "choice list" where
  "busy_schedule = [ChRegister 0 ''w'', ChReq 0 5] @ publish_choices 1 ''a''
     @ replicate 5 (ChTick [''w''] sample_env) @ [ChPublish 2 ''b'' ''b'' 5 5 (sample_request [''a''])]"

definition busy_world :: world where
  "busy_world = the (run_schedule id sample_config busy_schedule (world_start id sample_config))"

definition busy_view :: "world \<Rightarrow> nat \<times> bool \<times> nat" where
  "busy_view w = (req_left (w_req w 2), w_req w 2 \<noteq> ReqIdle, tick_left (w_run w) (w_tick w))"

lemma busy_reads:
  "run_schedule id sample_config busy_schedule (world_start id sample_config) = Some busy_world"
  "busy_view busy_world = (8, True, 7)"
proof -
  have "map_option busy_view (run_schedule id sample_config busy_schedule (world_start id sample_config)) = Some (8, True, 7)"
    by code_simp
  then show "run_schedule id sample_config busy_schedule (world_start id sample_config) = Some busy_world"
    "busy_view busy_world = (8, True, 7)"
    by (auto simp: busy_world_def)
qed

theorem every_call_can_finish_witness:
  "\<exists>m w' r. ((world_step id sample_config) ^^ m) busy_world w' \<and> w_req w' 2 = ReqDone r \<and> w_tick w' \<in> {TickWait, TickStopped}"
proof -
  have "w_req busy_world 2 \<noteq> ReqIdle" using busy_reads(2) by (simp add: busy_view_def)
  with every_call_can_finish [OF run_schedule_run [OF busy_reads(1)]] show ?thesis
    unfolding between_calls_def by blast
qed

end
