(* ===== verification/Json.thy ===== *)
theory Json
  imports Dispatch_Error
begin

text \<open>
  What \<open>cmd/jobsched/server.go\<close> uses of the JSON package of the standard library: the text an encoder
  writes for a value, and the value a decoder reads at the front of a body.  A string is its bytes;
  bytes that are not UTF-8 become the replacement character, on the way out and on the way in.
\<close>

section \<open>Values\<close>

text \<open>A number is its text, as the decoder keeps it until the type of the target is known.\<close>

datatype json =
  JNull
| JBool bool
| JNum string
| JStr string
| JArr "json list"
| JObj "(string \<times> json) list"

section \<open>UTF-8\<close>

abbreviation byte :: "char \<Rightarrow> nat" where
  "byte c \<equiv> of_char c"

abbreviation quote :: char where "quote \<equiv> CHR 0x22"
abbreviation backslash :: char where "backslash \<equiv> CHR 0x5C"

definition cont :: "char \<Rightarrow> bool" where
  "cont c \<longleftrightarrow> 128 \<le> byte c \<and> byte c \<le> 191"

definition second_ok :: "char \<Rightarrow> char \<Rightarrow> bool" where
  "second_ok a b \<longleftrightarrow> (if byte a = 224 then 160 else if byte a = 240 then 144 else 128) \<le> byte b
     \<and> byte b \<le> (if byte a = 237 then 159 else if byte a = 244 then 143 else 191)"

text \<open>How many bytes the first rune takes, as \<open>utf8.DecodeRune\<close> counts; 0 if they are not a rune.\<close>

fun rune_len :: "string \<Rightarrow> nat" where
  "rune_len [] = 0"
| "rune_len (a # s) =
     (if byte a < 128 then 1
      else if 194 \<le> byte a \<and> byte a \<le> 223
      then (case s of b # t \<Rightarrow> if cont b then 2 else 0 | _ \<Rightarrow> 0)
      else if 224 \<le> byte a \<and> byte a \<le> 239
      then (case s of b # c # t \<Rightarrow> if second_ok a b \<and> cont c then 3 else 0 | _ \<Rightarrow> 0)
      else if 240 \<le> byte a \<and> byte a \<le> 244
      then (case s of b # c # d # t \<Rightarrow> if second_ok a b \<and> cont c \<and> cont d then 4 else 0 | _ \<Rightarrow> 0)
      else 0)"

definition replacement :: string where
  "replacement = [CHR 0xEF, CHR 0xBF, CHR 0xBD]"

function to_valid :: "string \<Rightarrow> string" where
  "to_valid [] = []"
| "to_valid (c # s) =
     (case rune_len (c # s) of
        0 \<Rightarrow> replacement @ to_valid s
      | Suc n \<Rightarrow> (c # take n s) @ to_valid (drop n s))"
  by pat_completeness auto
termination by (relation "measure length") auto

declare to_valid.simps(2) [simp del]

text \<open>The bytes of a rune, as \<open>utf8.AppendRune\<close> writes them.\<close>

definition encode_rune :: "nat \<Rightarrow> string" where
  "encode_rune u =
     (if u < 128 then [char_of u]
      else if u < 2048 then [char_of (192 + u div 64), char_of (128 + u mod 64)]
      else if u < 65536 then [char_of (224 + u div 4096), char_of (128 + u div 64 mod 64), char_of (128 + u mod 64)]
      else [char_of (240 + u div 262144), char_of (128 + u div 4096 mod 64), char_of (128 + u div 64 mod 64),
            char_of (128 + u mod 64)])"

section \<open>Encoding\<close>

definition hex_digit :: "nat \<Rightarrow> char" where
  "hex_digit d = char_of (if d < 10 then 48 + d else 87 + d)"

text \<open>Besides what JSON asks for, the encoder escapes what HTML and JavaScript would read in a string.\<close>

definition esc_ascii :: "char \<Rightarrow> string" where
  "esc_ascii c =
     (if c = quote \<or> c = backslash then [backslash, c]
      else if byte c = 8 then [backslash, CHR ''b'']
      else if byte c = 12 then [backslash, CHR ''f'']
      else if byte c = 10 then [backslash, CHR ''n'']
      else if byte c = 13 then [backslash, CHR ''r'']
      else if byte c = 9 then [backslash, CHR ''t'']
      else if byte c < 32 \<or> c \<in> {CHR ''<'', CHR ''>'', CHR ''&''}
      then backslash # ''u00'' @ [hex_digit (byte c div 16), hex_digit (byte c mod 16)]
      else [c])"

definition esc_rune :: "string \<Rightarrow> string" where
  "esc_rune r =
     (if length r = 1 then esc_ascii (hd r)
      else if r = [CHR 0xE2, CHR 0x80, CHR 0xA8] then backslash # ''u2028''
      else if r = [CHR 0xE2, CHR 0x80, CHR 0xA9] then backslash # ''u2029''
      else r)"

function esc :: "string \<Rightarrow> string" where
  "esc [] = []"
| "esc (c # s) =
     (case rune_len (c # s) of
        0 \<Rightarrow> (backslash # ''ufffd'') @ esc s
      | Suc n \<Rightarrow> esc_rune (c # take n s) @ esc (drop n s))"
  by pat_completeness auto
termination by (relation "measure length") auto

declare esc.simps(2) [simp del]

definition json_string :: "string \<Rightarrow> string" where
  "json_string s = quote # esc s @ [quote]"

text \<open>Decimal text of an integer, as \<open>strconv.AppendInt\<close> writes it.\<close>

fun nat_text :: "nat \<Rightarrow> string" where
  "nat_text n = (if n < 10 then [digit_byte (int n)] else nat_text (n div 10) @ [digit_byte (int (n mod 10))])"

declare nat_text.simps [simp del]

definition int_text :: "int \<Rightarrow> string" where
  "int_text n = (if n < 0 then CHR ''-'' # nat_text (nat (- n)) else nat_text (nat n))"

fun commas :: "string list \<Rightarrow> string" where
  "commas [] = []"
| "commas [x] = x"
| "commas (x # y # xs) = x @ CHR '','' # commas (y # xs)"

fun json_text :: "json \<Rightarrow> string" where
  "json_text JNull = ''null''"
| "json_text (JBool b) = (if b then ''true'' else ''false'')"
| "json_text (JNum t) = t"
| "json_text (JStr s) = json_string s"
| "json_text (JArr vs) = CHR ''['' # commas (map json_text vs) @ '']''"
| "json_text (JObj kvs) = CHR ''{'' # commas (map (\<lambda>(k, v). json_string k @ CHR '':'' # json_text v) kvs) @ ''}''"

text \<open>A map is written with its keys in order, and \<open>Encode\<close> ends the text with a newline.\<close>

definition json_map :: "(string \<times> json) list \<Rightarrow> json" where
  "json_map kvs = JObj (sort_key fst kvs)"

definition Encode :: "json \<Rightarrow> string" where
  "Encode v = json_text v @ [CHR 0x0A]"

section \<open>Decoding\<close>

definition is_space :: "char \<Rightarrow> bool" where
  "is_space c \<longleftrightarrow> byte c \<in> {9, 10, 13, 32}"

definition skip_space :: "string \<Rightarrow> string" where
  "skip_space s = dropWhile is_space s"

definition hex_value :: "char \<Rightarrow> nat option" where
  "hex_value c =
     (if 48 \<le> byte c \<and> byte c \<le> 57 then Some (byte c - 48)
      else if 97 \<le> byte c \<and> byte c \<le> 102 then Some (byte c - 87)
      else if 65 \<le> byte c \<and> byte c \<le> 70 then Some (byte c - 55)
      else None)"

fun hex4 :: "string \<Rightarrow> nat option" where
  "hex4 (a # b # c # d # s) =
     (case (hex_value a, hex_value b, hex_value c, hex_value d) of
        (Some x, Some y, Some z, Some w) \<Rightarrow> Some (4096 * x + 256 * y + 16 * z + w)
      | _ \<Rightarrow> None)"
| "hex4 _ = None"

definition simple_escape :: "char \<Rightarrow> char option" where
  "simple_escape e =
     (if e = quote \<or> e = backslash \<or> e = CHR ''/'' then Some e
      else if e = CHR ''b'' then Some (CHR 0x08)
      else if e = CHR ''f'' then Some (CHR 0x0C)
      else if e = CHR ''n'' then Some (CHR 0x0A)
      else if e = CHR ''r'' then Some (CHR 0x0D)
      else if e = CHR ''t'' then Some (CHR 0x09)
      else None)"

text \<open>
  The escape that follows a backslash: the bytes it stands for and its length.  Two escapes that are a
  surrogate pair stand for one rune; a surrogate that is not in a pair becomes the replacement
  character.
\<close>

definition low_half :: "string \<Rightarrow> nat option" where
  "low_half s =
     (case s of
        b # u # t \<Rightarrow> if b = backslash \<and> u = CHR ''u'' then hex4 t else None
      | _ \<Rightarrow> None)"

definition escape :: "string \<Rightarrow> (string \<times> nat) option" where
  "escape s =
     (case s of
        [] \<Rightarrow> None
      | e # t \<Rightarrow>
          (case simple_escape e of
             Some x \<Rightarrow> Some ([x], 1)
           | None \<Rightarrow>
               if e \<noteq> CHR ''u'' then None
               else (case hex4 t of
                       None \<Rightarrow> None
                     | Some u \<Rightarrow>
                         if 55296 \<le> u \<and> u < 57344 then
                           (case low_half (drop 4 t) of
                              None \<Rightarrow> Some (replacement, 5)
                            | Some l \<Rightarrow>
                                if u < 56320 \<and> 56320 \<le> l \<and> l < 57344
                                then Some (encode_rune ((u - 55296) * 1024 + (l - 56320) + 65536), 11)
                                else Some (replacement, 5))
                         else Some (encode_rune u, 5))))"

definition push :: "string \<Rightarrow> (string \<times> string) option \<Rightarrow> (string \<times> string) option" where
  "push r p = map_option (\<lambda>(x, t). (r @ x, t)) p"

text \<open>A string from behind its opening quote: its bytes and what follows its closing quote.\<close>

function parse_str :: "string \<Rightarrow> (string \<times> string) option" where
  "parse_str [] = None"
| "parse_str (c # s) =
     (if c = quote then Some ([], s)
      else if c = backslash then
        (case escape s of None \<Rightarrow> None | Some (r, n) \<Rightarrow> push r (parse_str (drop n s)))
      else if byte c < 32 then None
      else (case rune_len (c # s) of
              0 \<Rightarrow> push replacement (parse_str s)
            | Suc n \<Rightarrow> push (c # take n s) (parse_str (drop n s))))"
  by pat_completeness auto
termination by (relation "measure length") auto

declare parse_str.simps(2) [simp del]

text \<open>The parts of a number: an integer without leading zeros, a fraction, an exponent.\<close>

definition parse_int_part :: "string \<Rightarrow> (string \<times> string) option" where
  "parse_int_part s =
     (case s of
        [] \<Rightarrow> None
      | c # t \<Rightarrow>
          if c = CHR ''0'' then Some ([c], t)
          else if is_digit c then Some (takeWhile is_digit s, dropWhile is_digit s)
          else None)"

definition parse_digits :: "string \<Rightarrow> string \<Rightarrow> (string \<times> string) option" where
  "parse_digits pre s =
     (if takeWhile is_digit s = [] then None else Some (pre @ takeWhile is_digit s, dropWhile is_digit s))"

definition parse_frac :: "string \<Rightarrow> (string \<times> string) option" where
  "parse_frac s =
     (case s of c # t \<Rightarrow> if c = CHR ''.'' then parse_digits [c] t else Some ([], s) | [] \<Rightarrow> Some ([], s))"

definition parse_exp :: "string \<Rightarrow> (string \<times> string) option" where
  "parse_exp s =
     (case s of
        c # t \<Rightarrow>
          if c = CHR ''e'' \<or> c = CHR ''E'' then
            (case t of
               d # u \<Rightarrow> if d = CHR ''+'' \<or> d = CHR ''-'' then parse_digits [c, d] u else parse_digits [c] t
             | [] \<Rightarrow> None)
          else Some ([], s)
      | [] \<Rightarrow> Some ([], s))"

definition parse_num :: "string \<Rightarrow> (string \<times> string) option" where
  "parse_num s =
     (let (sign, s) = (if s \<noteq> [] \<and> hd s = CHR ''-'' then ([CHR ''-''], tl s) else ([], s))
      in case parse_int_part s of
           None \<Rightarrow> None
         | Some (i, s) \<Rightarrow>
             (case parse_frac s of
                None \<Rightarrow> None
              | Some (f, s) \<Rightarrow>
                  (case parse_exp s of
                     None \<Rightarrow> None
                   | Some (e, s) \<Rightarrow> Some (sign @ i @ f @ e, s))))"

definition parse_literal :: "string \<Rightarrow> (json \<times> string) option" where
  "parse_literal s =
     (if take 4 s = ''null'' then Some (JNull, drop 4 s)
      else if take 4 s = ''true'' then Some (JBool True, drop 4 s)
      else if take 5 s = ''false'' then Some (JBool False, drop 5 s)
      else map_option (\<lambda>(t, r). (JNum t, r)) (parse_num s))"

text \<open>
  A value at the front of a text, and what follows it.  The first argument is how deep arrays and
  objects may still nest; the package allows ten thousand.  The comparisons of lengths are always
  true (\<open>parse_consumes\<close>) and are there for the termination of the recursion only.
\<close>

function parse_value :: "nat \<Rightarrow> string \<Rightarrow> (json \<times> string) option"
  and parse_elems :: "nat \<Rightarrow> string \<Rightarrow> (json list \<times> string) option"
  and parse_members :: "nat \<Rightarrow> string \<Rightarrow> ((string \<times> json) list \<times> string) option" where
  "parse_value d s =
     (case skip_space s of
        [] \<Rightarrow> None
      | c # t \<Rightarrow>
          if c = quote then map_option (\<lambda>(x, r). (JStr x, r)) (parse_str t)
          else if c = CHR ''['' then
            (if d = 0 then None
             else if skip_space t \<noteq> [] \<and> hd (skip_space t) = CHR '']'' then Some (JArr [], tl (skip_space t))
             else map_option (\<lambda>(vs, r). (JArr vs, r)) (parse_elems (d - 1) t))
          else if c = CHR ''{'' then
            (if d = 0 then None
             else if skip_space t \<noteq> [] \<and> hd (skip_space t) = CHR ''}'' then Some (JObj [], tl (skip_space t))
             else map_option (\<lambda>(kvs, r). (JObj kvs, r)) (parse_members (d - 1) t))
          else parse_literal (c # t))"
| "parse_elems d s =
     (case parse_value d s of
        None \<Rightarrow> None
      | Some (v, r) \<Rightarrow>
          (case skip_space r of
             [] \<Rightarrow> None
           | c # t \<Rightarrow>
               if c = CHR '']'' then Some ([v], t)
               else if c = CHR '','' \<and> length t < length s
               then map_option (\<lambda>(vs, q). (v # vs, q)) (parse_elems d t)
               else None))"
| "parse_members d s =
     (case skip_space s of
        [] \<Rightarrow> None
      | c # t \<Rightarrow>
          if c \<noteq> quote then None
          else (case parse_str t of
                  None \<Rightarrow> None
                | Some (k, r) \<Rightarrow>
                    (case skip_space r of
                       [] \<Rightarrow> None
                     | c # t \<Rightarrow>
                         if c \<noteq> CHR '':'' then None
                         else (case parse_value d t of
                                 None \<Rightarrow> None
                               | Some (v, r) \<Rightarrow>
                                   (case skip_space r of
                                      [] \<Rightarrow> None
                                    | c # t \<Rightarrow>
                                        if c = CHR ''}'' then Some ([(k, v)], t)
                                        else if c = CHR '','' \<and> length t < length s
                                        then map_option (\<lambda>(kvs, q). ((k, v) # kvs, q)) (parse_members d t)
                                        else None)))))"
  by pat_completeness auto
termination
  by (relation "measures
      [\<lambda>x. case x of Inl (d, s) \<Rightarrow> d | Inr (Inl (d, s)) \<Rightarrow> d | Inr (Inr (d, s)) \<Rightarrow> d,
       \<lambda>x. case x of Inl (d, s) \<Rightarrow> 0 | Inr (Inl (d, s)) \<Rightarrow> 1 | Inr (Inr (d, s)) \<Rightarrow> 1,
       \<lambda>x. case x of Inl (d, s) \<Rightarrow> 0 | Inr (Inl (d, s)) \<Rightarrow> length s | Inr (Inr (d, s)) \<Rightarrow> length s]") auto

declare parse_value.simps [simp del] parse_elems.simps [simp del] parse_members.simps [simp del]

end
