(* ===== verification/Json_Laws.thy ===== *)
theory Json_Laws
  imports Json
begin

text \<open>
  The laws of \<open>Json\<close>: the decoder reads back what the encoder writes, from the front of any text, up
  to the repair of bytes that are not UTF-8; and every parser consumes what it reads.
\<close>

section \<open>Strings\<close>

lemma rune_len_front:
  "rune_len (c # s) = Suc n \<Longrightarrow> n \<le> length s \<and> rune_len (c # take n s @ t) = Suc n"
  by (auto split: list.splits if_splits)

lemma rune_len_ascii: "rune_len (c # s) = Suc 0 \<longleftrightarrow> byte c < 128"
  by (auto split: list.splits)

lemma hex_value_digit: "d < 16 \<Longrightarrow> hex_value (hex_digit d) = Some d"
  by (auto simp: hex_value_def hex_digit_def)

lemma parse_escape:
  "escape s = Some (r, n) \<Longrightarrow> parse_str (backslash # s) = push r (parse_str (drop n s))"
  by (simp add: parse_str.simps(2))

lemma escape_u:
  "hex4 t = Some u \<Longrightarrow> \<not> (55296 \<le> u \<and> u < 57344) \<Longrightarrow> escape (CHR ''u'' # t) = Some (encode_rune u, 5)"
  by (auto simp: escape_def simple_escape_def)

lemma char_bytes:
  "char_of (8 :: nat) = CHR 0x08" "char_of (12 :: nat) = CHR 0x0C" "char_of (10 :: nat) = CHR 0x0A"
  "char_of (13 :: nat) = CHR 0x0D" "char_of (9 :: nat) = CHR 0x09" "char_of (226 :: nat) = CHR 0xE2"
  "char_of (128 :: nat) = CHR 0x80" "char_of (168 :: nat) = CHR 0xA8" "char_of (169 :: nat) = CHR 0xA9"
  "char_of (239 :: nat) = CHR 0xEF" "char_of (191 :: nat) = CHR 0xBF" "char_of (189 :: nat) = CHR 0xBD"
  "char_of (48 :: nat) = CHR 0x30"
  by code_simp+

lemma esc_ascii_cases:
  "(\<exists>e. esc_ascii c = [backslash, e] \<and> simple_escape e = Some c)
   \<or> esc_ascii c = backslash # ''u00'' @ [hex_digit (byte c div 16), hex_digit (byte c mod 16)]
   \<or> esc_ascii c = [c] \<and> c \<noteq> quote \<and> c \<noteq> backslash \<and> 32 \<le> byte c"
proof (cases "c \<in> {quote, backslash, CHR 0x08, CHR 0x0C, CHR 0x0A, CHR 0x0D, CHR 0x09}")
  case True
  then show ?thesis by (auto simp: esc_ascii_def simple_escape_def)
next
  case False
  moreover have "char_of (byte c) = c" by simp
  ultimately have "byte c \<notin> {8, 12, 10, 13, 9}" using char_bytes by (metis insert_iff singletonD)
  with False show ?thesis by (simp add: esc_ascii_def)
qed

lemma parse_ascii:
  assumes "byte c < 128"
  shows "parse_str (esc_ascii c @ t) = push [c] (parse_str t)"
proof -
  have simple: "escape (e # t) = Some ([c], 1)" if "simple_escape e = Some c" for e
    using that by (simp add: escape_def)
  consider (special) e where "esc_ascii c = [backslash, e]" "simple_escape e = Some c"
    | (hex) "esc_ascii c = backslash # ''u00'' @ [hex_digit (byte c div 16), hex_digit (byte c mod 16)]"
    | (plain) "esc_ascii c = [c]" "c \<noteq> quote" "c \<noteq> backslash" "32 \<le> byte c"
    using esc_ascii_cases [of c] by blast
  then show ?thesis
  proof cases
    case special
    then show ?thesis using parse_escape [OF simple] by simp
  next
    case hex
    have "hex4 (CHR ''0'' # CHR ''0'' # hex_digit (byte c div 16) # hex_digit (byte c mod 16) # t) = Some (byte c)"
    proof -
      have "byte c div 16 < 16" "hex_value (CHR ''0'') = Some 0" using assms by (auto simp: hex_value_def)
      then show ?thesis by (simp add: hex_value_digit)
    qed
    from parse_escape [OF escape_u [OF this]] show ?thesis using assms hex by (simp add: encode_rune_def)
  next
    case plain
    have "rune_len (c # t) = Suc 0" using assms by (simp add: rune_len_ascii)
    with plain show ?thesis by (simp add: parse_str.simps(2))
  qed
qed

lemma parse_u:
  "hex4 t = Some u \<Longrightarrow> \<not> (55296 \<le> u \<and> u < 57344) \<Longrightarrow>
   parse_str (backslash # CHR ''u'' # t) = push (encode_rune u) (parse_str (drop 4 t))"
  using parse_escape [OF escape_u] by simp

lemma parse_separator:
  "parse_str ((backslash # ''u2028'') @ t) = push [CHR 0xE2, CHR 0x80, CHR 0xA8] (parse_str t)"
  "parse_str ((backslash # ''u2029'') @ t) = push [CHR 0xE2, CHR 0x80, CHR 0xA9] (parse_str t)"
  "parse_str ((backslash # ''ufffd'') @ t) = push replacement (parse_str t)"
  using parse_u [of "''2028'' @ t" 8232] parse_u [of "''2029'' @ t" 8233] parse_u [of "''fffd'' @ t" 65533]
  by (simp_all add: hex_value_def encode_rune_def char_bytes replacement_def)

lemma esc_rune_long:
  "length r \<noteq> 1 \<Longrightarrow> esc_rune r =
     (if r = [CHR 0xE2, CHR 0x80, CHR 0xA8] then backslash # ''u2028''
      else if r = [CHR 0xE2, CHR 0x80, CHR 0xA9] then backslash # ''u2029'' else r)"
  by (simp add: esc_rune_def)

lemma parse_rune:
  assumes "rune_len (c # s) = Suc n"
  shows "parse_str (esc_rune (c # take n s) @ t) = push (c # take n s) (parse_str t)"
proof (cases "n = 0")
  case True
  have "byte c < 128" using assms unfolding True rune_len_ascii .
  with True show ?thesis using parse_ascii by (simp add: esc_rune_def)
next
  case False
  note front = rune_len_front [OF assms]
  have high: "128 \<le> byte c" using assms False rune_len_ascii [of c s] by (metis Suc_inject linorder_not_less)
  have len: "length (c # take n s) \<noteq> 1" using False front [of "[]"] by simp
  consider (line) "c # take n s = [CHR 0xE2, CHR 0x80, CHR 0xA8]" "esc_rune (c # take n s) = backslash # ''u2028''"
    | (par) "c # take n s = [CHR 0xE2, CHR 0x80, CHR 0xA9]" "esc_rune (c # take n s) = backslash # ''u2029''"
    | (plain) "esc_rune (c # take n s) = c # take n s"
    using esc_rune_long [OF len] by metis
  then show ?thesis
  proof cases
    case line
    then show ?thesis using parse_separator(1) [of t] by simp
  next
    case par
    then show ?thesis using parse_separator(2) [of t] by simp
  next
    case plain
    have "c \<noteq> quote" "c \<noteq> backslash" "\<not> byte c < 32" using high by auto
    moreover have "rune_len (c # take n s @ t) = Suc n" "length (take n s) = n" using front by auto
    ultimately show ?thesis by (simp add: plain parse_str.simps(2) del: rune_len.simps)
  qed
qed

lemma parse_esc: "parse_str (esc s @ quote # rest) = Some (to_valid s, rest)"
proof (induction s rule: esc.induct)
  case 1
  then show ?case by (simp add: parse_str.simps(2))
next
  case (2 c s)
  show ?case
  proof (cases "rune_len (c # s)")
    case 0
    then have "parse_str (esc (c # s) @ quote # rest) = push replacement (parse_str (esc s @ quote # rest))"
      using parse_separator(3) [of "esc s @ quote # rest"] by (simp add: esc.simps(2) del: rune_len.simps)
    with 0 show ?thesis by (simp add: "2.IH"(1) push_def to_valid.simps(2) del: rune_len.simps)
  next
    case (Suc n)
    then have "parse_str (esc (c # s) @ quote # rest) = push (c # take n s) (parse_str (esc (drop n s) @ quote # rest))"
      using parse_rune [OF Suc] by (simp add: esc.simps(2) del: rune_len.simps)
    with Suc show ?thesis by (simp add: "2.IH"(2) push_def to_valid.simps(2) del: rune_len.simps)
  qed
qed

text \<open>Repairing a string once is enough.\<close>

lemma to_valid_idem [simp]: "to_valid (to_valid s) = to_valid s"
proof (induction s rule: to_valid.induct)
  case (2 c s)
  show ?case
  proof (cases "rune_len (c # s)")
    case 0
    have "rune_len (CHR 0xEF # [CHR 0xBF, CHR 0xBD] @ t) = Suc 2" for t by (simp add: cont_def second_ok_def)
    then have "to_valid (replacement @ t) = replacement @ to_valid t" for t
      by (simp add: replacement_def to_valid.simps(2) [of "CHR 0xEF"] del: rune_len.simps)
    with 0 "2.IH"(1) show ?thesis by (simp add: to_valid.simps(2) [of c] del: rune_len.simps)
  next
    case (Suc n)
    note front = rune_len_front [OF Suc]
    then have "to_valid ((c # take n s) @ t) = (c # take n s) @ to_valid t" for t
      using front [of t] by (simp add: to_valid.simps(2) [of c] del: rune_len.simps)
    with Suc "2.IH"(2) show ?thesis by (simp add: to_valid.simps(2) [of c s] del: rune_len.simps)
  qed
qed simp

section \<open>Numbers\<close>

text \<open>The text of an integer: perhaps a sign, then digits without a leading zero.\<close>

definition int_token :: "string \<Rightarrow> bool" where
  "int_token t \<longleftrightarrow>
     (let ds = (if t \<noteq> [] \<and> hd t = CHR ''-'' then tl t else t)
      in ds \<noteq> [] \<and> list_all is_digit ds \<and> (hd ds = CHR ''0'' \<longrightarrow> length ds = 1))"

definition num_end :: "string \<Rightarrow> bool" where
  "num_end s \<longleftrightarrow> s = [] \<or> \<not> is_digit (hd s) \<and> hd s \<notin> {CHR ''.'', CHR ''e'', CHR ''E''}"

definition token_int :: "string \<Rightarrow> int" where
  "token_int t = (if t \<noteq> [] \<and> hd t = CHR ''-'' then - parse_decimal (tl t) else parse_decimal t)"

lemma digit_byte_digit: "0 \<le> d \<Longrightarrow> d \<le> 9 \<Longrightarrow> is_digit (digit_byte d)"
  by (simp add: is_digit_def of_digit)

lemma parse_decimal_snoc: "parse_decimal (s @ [c]) = 10 * parse_decimal s + (int (byte c) - 48)"
  by (simp add: parse_decimal_def)

lemma nat_text_digits:
  "nat_text n \<noteq> [] \<and> list_all is_digit (nat_text n) \<and> parse_decimal (nat_text n) = int n
   \<and> (0 < n \<longrightarrow> hd (nat_text n) \<noteq> CHR ''0'') \<and> (n = 0 \<longrightarrow> nat_text n = ''0'')"
proof (induction n rule: nat_text.induct)
  case (1 n)
  show ?case
  proof (cases "n < 10")
    case True
    have "byte (digit_byte (int n)) = 48 + n" using True by (simp add: of_digit)
    moreover have "digit_byte 0 = CHR ''0''" by (simp add: digit_byte_def char_bytes)
    ultimately show ?thesis
      using True by (auto simp: nat_text.simps [of n] nat_text.simps [of 0] digit_byte_digit parse_decimal_def)
  next
    case False
    have "parse_decimal (nat_text (n div 10) @ [digit_byte (int (n mod 10))]) = int n"
      using 1 False by (simp add: parse_decimal_snoc of_digit) presburger
    then show ?thesis using 1 False by (simp add: nat_text.simps [of n] digit_byte_digit)
  qed
qed

lemma digit_not_sign: "is_digit c \<Longrightarrow> c \<noteq> CHR ''-''"
  by (auto simp: is_digit_def)

lemma int_text_token: "int_token (int_text n) \<and> token_int (int_text n) = n"
proof -
  have "hd (nat_text m) \<noteq> CHR ''-''" for m
    using nat_text_digits [of m] digit_not_sign by (cases "nat_text m") auto
  then show ?thesis
    using nat_text_digits [of "nat n"] nat_text_digits [of "nat (- n)"]
    by (cases "n = 0") (auto simp: int_token_def int_text_def token_int_def)
qed

lemma digits_front:
  assumes "list_all is_digit ds" and "num_end rest"
  shows "takeWhile is_digit (ds @ rest) = ds" "dropWhile is_digit (ds @ rest) = rest"
proof -
  have "takeWhile is_digit rest = []" "dropWhile is_digit rest = rest"
    using assms(2) by (cases rest; simp add: num_end_def)+
  then show "takeWhile is_digit (ds @ rest) = ds" "dropWhile is_digit (ds @ rest) = rest"
    using assms(1) by (simp_all add: list_all_iff takeWhile_append2 dropWhile_append2)
qed

lemma parse_int_part_digits:
  assumes "ds \<noteq> []" and "list_all is_digit ds" and "hd ds = CHR ''0'' \<longrightarrow> length ds = 1" and "num_end rest"
  shows "parse_int_part (ds @ rest) = Some (ds, rest)"
proof -
  obtain c t where ds: "ds = c # t" using assms(1) by (cases ds) auto
  show ?thesis using assms(2,3) digits_front [OF assms(2,4)] by (auto simp: parse_int_part_def ds)
qed

lemma parse_num_token:
  assumes "int_token t" and "num_end rest"
  shows "parse_num (t @ rest) = Some (t, rest)"
proof -
  have tail: "parse_frac rest = Some ([], rest)" "parse_exp rest = Some ([], rest)"
    using assms(2) by (cases rest; simp add: parse_frac_def parse_exp_def num_end_def)+
  show ?thesis
  proof (cases "t \<noteq> [] \<and> hd t = CHR ''-''")
    case True
    then obtain ds where t: "t = CHR ''-'' # ds" by (cases t) auto
    then have "parse_int_part (ds @ rest) = Some (ds, rest)"
      using assms parse_int_part_digits [of ds rest] by (simp add: int_token_def Let_def)
    then show ?thesis using tail by (simp add: parse_num_def t)
  next
    case False
    then have "t \<noteq> []" "hd (t @ rest) \<noteq> CHR ''-''" "parse_int_part (t @ rest) = Some (t, rest)"
      using assms parse_int_part_digits [of t rest] by (auto simp: int_token_def Let_def split: if_splits)
    then show ?thesis using tail by (simp add: parse_num_def)
  qed
qed

lemma int_token_first:
  assumes "int_token t"
  obtains c u where "t = c # u" "is_digit c \<or> c = CHR ''-''"
  using assms by (cases t) (auto simp: int_token_def Let_def split: if_splits)

lemma digit_first:
  "is_digit c \<or> c = CHR ''-'' \<Longrightarrow> c \<notin> {CHR ''n'', CHR ''t'', CHR ''f'', quote, CHR ''['', CHR ''{'', CHR '']'', CHR ''}''} \<and> \<not> is_space c"
  by (auto simp: is_digit_def is_space_def)

lemma parse_literal_token:
  assumes "int_token t" and "num_end rest"
  shows "parse_literal (t @ rest) = Some (JNum t, rest)"
proof -
  obtain c u where t: "t = c # u" "is_digit c \<or> c = CHR ''-''" using int_token_first [OF assms(1)] .
  then have "c \<notin> {CHR ''n'', CHR ''t'', CHR ''f''}" using digit_first [of c] by auto
  then have "take 4 (t @ rest) \<noteq> ''null''" "take 4 (t @ rest) \<noteq> ''true''" "take 5 (t @ rest) \<noteq> ''false''"
    by (auto simp: t(1))
  then show ?thesis using parse_num_token [OF assms] by (simp add: parse_literal_def)
qed

section \<open>Values\<close>

text \<open>
  What the program writes: numbers are integers, and arrays and objects nest at most \<open>d\<close> deep.  What
  is read back has the bytes of its strings repaired.
\<close>

fun writable :: "nat \<Rightarrow> json \<Rightarrow> bool" where
  "writable d JNull = True"
| "writable d (JBool b) = True"
| "writable d (JNum t) = int_token t"
| "writable d (JStr s) = True"
| "writable d (JArr vs) = (0 < d \<and> list_all (writable (d - 1)) vs)"
| "writable d (JObj kvs) = (0 < d \<and> list_all (\<lambda>kv. writable (d - 1) (snd kv)) kvs)"

fun valid_json :: "json \<Rightarrow> json" where
  "valid_json JNull = JNull"
| "valid_json (JBool b) = JBool b"
| "valid_json (JNum t) = JNum t"
| "valid_json (JStr s) = JStr (to_valid s)"
| "valid_json (JArr vs) = JArr (map valid_json vs)"
| "valid_json (JObj kvs) = JObj (map (\<lambda>(k, v). (to_valid k, valid_json v)) kvs)"

definition member_text :: "string \<times> json \<Rightarrow> string" where
  "member_text kv = json_string (fst kv) @ CHR '':'' # json_text (snd kv)"

lemma json_text_obj:
  "json_text (JObj kvs) = CHR ''{'' # commas (map member_text kvs) @ ''}''"
proof -
  have "(\<lambda>(k, v). json_string k @ CHR '':'' # json_text v) = member_text"
    by (auto simp: member_text_def fun_eq_iff)
  then show ?thesis by simp
qed

lemma skip_space_stop: "\<not> is_space c \<Longrightarrow> skip_space (c # s) = c # s"
  by (simp add: skip_space_def)

lemma structural_not_space:
  "\<not> is_space quote" "\<not> is_space (CHR ''['')" "\<not> is_space (CHR '']'')" "\<not> is_space (CHR ''{'')"
  "\<not> is_space (CHR ''}'')" "\<not> is_space (CHR '','')" "\<not> is_space (CHR '':'')"
  by (simp_all add: is_space_def)

lemma num_end_structural: "c \<in> {CHR '']'', CHR ''}'', CHR '','', CHR 0x0A} \<Longrightarrow> num_end (c # s)"
  by (auto simp: num_end_def is_digit_def)

lemma num_end_Nil: "num_end []"
  by (simp add: num_end_def)

lemma json_text_first:
  assumes "writable d v"
  shows "\<exists>c t. json_text v = c # t \<and> \<not> is_space c \<and> c \<noteq> CHR '']''"
proof (cases v)
  case (JNum u)
  then have "int_token u" using assms by simp
  then obtain c t where u: "u = c # t" "is_digit c \<or> c = CHR ''-''"
    by (rule int_token_first)
  with digit_first [of c] JNum show ?thesis by auto
qed (auto simp: json_string_def is_space_def)

lemma parse_elems_commas:
  assumes "\<And>v rest. v \<in> set vs \<Longrightarrow> num_end rest \<Longrightarrow> parse_value d (json_text v @ rest) = Some (f v, rest)"
    and "vs \<noteq> []"
  shows "parse_elems d (commas (map json_text vs) @ CHR '']'' # rest) = Some (map f vs, rest)"
  using assms(2,1)
proof (induction vs rule: list_nonempty_induct)
  case (single v)
  then show ?case
    by (simp add: parse_elems.simps num_end_structural skip_space_stop structural_not_space)
next
  case (cons v vs)
  then obtain w ws where vs: "vs = w # ws" by (cases vs) auto
  have "parse_elems d (commas (map json_text vs) @ CHR '']'' # rest) = Some (map f vs, rest)"
    using cons by simp
  moreover have "parse_value d (json_text v @ CHR '','' # t) = Some (f v, CHR '','' # t)" for t
    using cons.prems [of v] by (simp add: num_end_structural)
  ultimately show ?case
    by (simp add: vs parse_elems.simps [of d "json_text v @ _"] skip_space_stop structural_not_space)
qed

lemma parse_key:
  "skip_space (json_string k @ t) = quote # esc k @ quote # t" "parse_str (esc k @ quote # t) = Some (to_valid k, t)"
  by (simp_all add: json_string_def skip_space_stop structural_not_space parse_esc)

lemma parse_members_commas:
  assumes "\<And>kv rest. kv \<in> set kvs \<Longrightarrow> num_end rest \<Longrightarrow>
      parse_value d (json_text (snd kv) @ rest) = Some (f (snd kv), rest)"
    and "kvs \<noteq> []"
  shows "parse_members d (commas (map member_text kvs) @ CHR ''}'' # rest)
    = Some (map (\<lambda>(k, v). (to_valid k, f v)) kvs, rest)"
  using assms(2,1)
proof (induction kvs rule: list_nonempty_induct)
  case (single kv)
  then show ?case
    by (simp add: parse_members.simps member_text_def parse_key num_end_structural skip_space_stop
        structural_not_space case_prod_beta)
next
  case (cons kv kvs)
  then obtain w ws where kvs: "kvs = w # ws" by (cases kvs) auto
  have "parse_members d (commas (map member_text kvs) @ CHR ''}'' # rest)
      = Some (map (\<lambda>(k, v). (to_valid k, f v)) kvs, rest)"
    using cons by simp
  moreover have "parse_value d (json_text (snd kv) @ CHR '','' # t) = Some (f (snd kv), CHR '','' # t)" for t
    using cons.prems [of kv] by (simp add: num_end_structural)
  ultimately show ?case
    by (cases kv, simp add: kvs member_text_def [of kv], subst parse_members.simps)
      (simp add: member_text_def [of "(_, _)"] parse_key skip_space_stop structural_not_space)
qed

lemma parse_json_text:
  "writable d v \<Longrightarrow> num_end rest \<Longrightarrow> parse_value d (json_text v @ rest) = Some (valid_json v, rest)"
proof (induction v arbitrary: d rest)
  case JNull
  then show ?case by (simp add: parse_value.simps skip_space_def is_space_def parse_literal_def)
next
  case (JBool b)
  then show ?case by (cases b) (simp_all add: parse_value.simps skip_space_def is_space_def parse_literal_def)
next
  case (JNum t)
  then have "int_token t" by simp
  then obtain c u where t: "t = c # u" "is_digit c \<or> c = CHR ''-''"
    by (rule int_token_first)
  show ?case
    using digit_first [OF t(2)] parse_literal_token [OF \<open>int_token t\<close> JNum.prems(2)]
    by (simp add: parse_value.simps t(1) skip_space_stop)
next
  case (JStr s)
  then show ?case by (simp add: parse_value.simps parse_key)
next
  case (JArr vs)
  then have d: "0 < d" "\<And>v. v \<in> set vs \<Longrightarrow> writable (d - 1) v" by (simp_all add: list_all_iff)
  show ?case
  proof (cases vs)
    case Nil
    then show ?thesis using d by (simp add: parse_value.simps skip_space_stop structural_not_space)
  next
    case (Cons v ws)
    obtain c t where c: "json_text v = c # t" "\<not> is_space c" "c \<noteq> CHR '']''"
      using json_text_first [OF d(2) [of v]] Cons by auto
    then obtain u where u: "commas (map json_text vs) = c # u" using Cons by (cases ws) auto
    have "parse_elems (d - 1) (commas (map json_text vs) @ CHR '']'' # rest) = Some (map valid_json vs, rest)"
      using JArr.IH d Cons by (intro parse_elems_commas) auto
    then show ?thesis
      using d(1) c by (simp add: parse_value.simps skip_space_stop structural_not_space u)
  qed
next
  case (JObj kvs)
  then have d: "0 < d" "\<And>kv. kv \<in> set kvs \<Longrightarrow> writable (d - 1) (snd kv)" by (simp_all add: list_all_iff)
  show ?case
  proof (cases kvs)
    case Nil
    then show ?thesis using d by (simp add: parse_value.simps skip_space_stop structural_not_space)
  next
    case (Cons kv ws)
    then obtain u where u: "commas (map member_text kvs) = quote # u"
      by (cases ws) (auto simp: member_text_def json_string_def)
    have ih: "parse_value (d - 1) (json_text (snd kv) @ rest) = Some (valid_json (snd kv), rest)"
      if "kv \<in> set kvs" "num_end rest" for kv rest
      using JObj.IH [of kv "snd kv" "d - 1" rest] d(2) [OF that(1)] that by (cases kv) auto
    have "parse_members (d - 1) (commas (map member_text kvs) @ CHR ''}'' # rest)
        = Some (map (\<lambda>(k, v). (to_valid k, valid_json v)) kvs, rest)"
      using ih Cons by (intro parse_members_commas) auto
    then show ?thesis
      using d(1) by (simp add: parse_value.simps skip_space_stop structural_not_space u json_text_obj del: json_text.simps(6))
  qed
qed

section \<open>Consumption\<close>

text \<open>
  Every parser returns a shorter text, so the comparisons of lengths in \<open>parse_elems\<close> and
  \<open>parse_members\<close> never decide anything.
\<close>

lemma skip_space_length: "length (skip_space s) \<le> length s"
  by (simp add: skip_space_def length_dropWhile_le)

lemma push_Some: "push y p = Some (x, r) \<Longrightarrow> \<exists>z. p = Some (z, r)"
  by (auto simp: push_def)

lemma parse_str_step:
  assumes "parse_str (c # s) = Some (x, r)"
  shows "r = s \<or> (\<exists>n z. parse_str (drop n s) = Some (z, r))"
proof -
  have "r = s \<or> (\<exists>y n. push y (parse_str (drop n s)) = Some (x, r))"
    using assms unfolding parse_str.simps(2)
    by (simp del: rune_len.simps split: if_splits option.splits nat.splits prod.splits)
      (metis drop0 | blast)+
  then show ?thesis using push_Some by metis
qed

lemma parse_str_length: "parse_str s = Some (x, r) \<Longrightarrow> length r < length s"
proof (induction s arbitrary: x rule: length_induct)
  case (1 s)
  show ?case
  proof (cases s)
    case (Cons c t)
    with "1.prems" parse_str_step consider "r = t" | n z where "parse_str (drop n t) = Some (z, r)" by blast
    then show ?thesis
    proof cases
      case 2
      have "length (drop n t) < length s" by (simp add: Cons)
      with "1.IH" 2 show ?thesis by (meson order_less_trans)
    qed (simp add: Cons)
  qed (use "1.prems" in simp)
qed

lemma parse_digits_length: "parse_digits p s = Some (t, r) \<Longrightarrow> length r \<le> length s"
  by (auto simp: parse_digits_def length_dropWhile_le split: if_splits)

lemma parse_parts_length:
  "parse_int_part s = Some (t, r) \<Longrightarrow> length r < length s"
  "parse_frac s = Some (t, r) \<Longrightarrow> length r \<le> length s"
  "parse_exp s = Some (t, r) \<Longrightarrow> length r \<le> length s"
  by (auto simp: parse_int_part_def parse_frac_def parse_exp_def length_dropWhile_le less_Suc_eq_le
      dest!: parse_digits_length split: list.splits if_splits)

lemma parse_num_length: "parse_num s = Some (t, r) \<Longrightarrow> length r < length s"
  by (cases s) (auto simp: parse_num_def dest!: parse_parts_length split: option.splits if_splits)

lemma parse_literal_length: "parse_literal s = Some (v, r) \<Longrightarrow> length r < length s"
  by (cases s) (auto simp: parse_literal_def dest: parse_num_length split: if_splits)

lemma skip_space_Cons: "skip_space s = c # t \<Longrightarrow> length t < length s"
  using skip_space_length [of s] by simp

lemma parse_consumes:
  "parse_value d s = Some (v, r) \<Longrightarrow> length r < length s"
  "parse_elems d s = Some (vs, r) \<Longrightarrow> length r < length s"
  "parse_members d s = Some (kvs, r) \<Longrightarrow> length r < length s"
proof (induction d s and d s and d s arbitrary: v r and vs r and kvs r
    rule: parse_value_parse_elems_parse_members.induct)
  case (1 d s)
  obtain c t where c: "skip_space s = c # t" using "1.prems" by (cases "skip_space s") (simp_all add: parse_value.simps)
  note len = skip_space_Cons [OF c]
  consider "c = quote" | "c = CHR ''[''" | "c = CHR ''{''" | "c \<notin> {quote, CHR ''['', CHR ''{''}" by blast
  then show ?case
  proof cases
    case 1
    then show ?thesis using "1.prems" c len by (auto simp: parse_value.simps dest!: parse_str_length)
  next
    case 2
    then show ?thesis using "1.prems" "1.IH"(1) [OF c] c len skip_space_length [of t]
      by (fastforce simp: parse_value.simps split: if_splits)
  next
    case 3
    then show ?thesis using "1.prems" "1.IH"(2) [OF c] c len skip_space_length [of t]
      by (fastforce simp: parse_value.simps split: if_splits)
  next
    case 4
    then show ?thesis using "1.prems" c len parse_literal_length [of "c # t" v r] skip_space_length [of s]
      by (simp add: parse_value.simps)
  qed
next
  case (2 d s)
  obtain v q where v: "parse_value d s = Some (v, q)" using "2.prems" by (auto simp: parse_elems.simps split: option.splits)
  obtain c t where c: "skip_space q = c # t"
    using "2.prems" v by (cases "skip_space q") (simp_all add: parse_elems.simps)
  have len: "length t < length s" using "2.IH"(1) [OF v] skip_space_Cons [OF c] by simp
  show ?case
  proof (cases "c = CHR '']''")
    case True
    then show ?thesis using "2.prems" v c len by (simp add: parse_elems.simps)
  next
    case False
    then obtain ws where "parse_elems d t = Some (ws, r)" "c = CHR '',''"
      using "2.prems" v c by (auto simp: parse_elems.simps [of d s] split: if_splits)
    then show ?thesis using "2.IH"(2) [OF v refl c False] len by fastforce
  qed
next
  case (3 d s)
  obtain a t where a: "skip_space s = a # t" "a = quote"
    using "3.prems" by (cases "skip_space s") (auto simp: parse_members.simps split: if_splits)
  obtain k q where k: "parse_str t = Some (k, q)"
    using "3.prems" a by (auto simp: parse_members.simps split: option.splits)
  obtain b u where b: "skip_space q = b # u" "b = CHR '':''"
    using "3.prems" a k by (cases "skip_space q") (auto simp: parse_members.simps split: if_splits)
  obtain v w where v: "parse_value d u = Some (v, w)"
    using "3.prems" a k b by (auto simp: parse_members.simps split: option.splits)
  obtain c z where c: "skip_space w = c # z"
    using "3.prems" a k b v by (cases "skip_space w") (simp_all add: parse_members.simps)
  have "length w < length u" using "3.IH"(1) a k b v by simp
  then have len: "length z < length s"
    using skip_space_Cons [OF a(1)] parse_str_length [OF k] skip_space_Cons [OF b(1)] skip_space_Cons [OF c] by simp
  show ?case
  proof (cases "c = CHR ''}''")
    case True
    then show ?thesis using "3.prems" a k b v c len by (simp add: parse_members.simps)
  next
    case False
    then obtain ws where "parse_members d z = Some (ws, r)" "c = CHR '',''"
      using "3.prems" a k b v c by (auto simp: parse_members.simps [of d s] split: if_splits)
    then show ?thesis using "3.IH"(2) a k b v c False len by fastforce
  qed
qed

end
