(* ===== verification/Page.thy ===== *)
theory Page
  imports Json
begin

text \<open>
  The console page \<open>web/console.html\<close> that \<open>web.go\<close> embeds: every byte of it, section by section.
\<close>

text \<open>Text outside ASCII is in the file in UTF-8.\<close>

definition runes :: "nat list \<Rightarrow> string" where
  "runes us = concat (map encode_rune us)"

definition page_lines :: "string list \<Rightarrow> string" where
  "page_lines ls = concat (map (\<lambda>l. l @ [CHR 0x0A]) ls)"

text \<open>The head up to the title.\<close>

definition page_head :: string where
  \<open>page_head = page_lines [
     ''<!DOCTYPE html>'',
     ''<html lang="zh-CN">'',
     ''<head>'',
     ''<meta charset="utf-8">'',
     ''<meta name="viewport" content="width=device-width, initial-scale=1">'',
     ''<title>JobScheduler Console</title>'']\<close>

text \<open>The style sheet.\<close>

definition page_style :: string where
  \<open>page_style = page_lines [
     ''<style>'',
     ''  :root { color-scheme: light dark; }'',
     ''  body { font-family: system-ui, -apple-system, "Segoe UI", sans-serif; margin: 0; background: #f6f8fa; color: #1f2328; }'',
     ''  .wrap { max-width: 960px; margin: 0 auto; padding: 24px 16px 64px; }'',
     ''  h1 { font-size: 22px; }'',
     ''  .card { background: #fff; border: 1px solid #d8dee4; border-radius: 8px; padding: 16px; margin-bottom: 16px; }'',
     ''  .row { display: flex; gap: 8px; flex-wrap: wrap; align-items: center; }'',
     ''  input[type=text], input[type=number] { flex: 1; min-width: 120px; padding: 8px; border: 1px solid #d8dee4; border-radius: 6px; }'',
     ''  button { padding: 8px 14px; border: 1px solid #d8dee4; border-radius: 6px; background: #f6f8fa; cursor: pointer; }'',
     ''  button.primary { background: #0969da; border-color: #0969da; color: #fff; }'',
     ''  pre { background: #0d1117; color: #e6edf3; padding: 12px; border-radius: 6px; overflow: auto; max-height: 420px; }'',
     ''  table { width: 100%; border-collapse: collapse; font-size: 13px; }'',
     ''  th, td { text-align: left; padding: 6px 8px; border-bottom: 1px solid #d8dee4; }'',
     ''</style>'',
     ''</head>'',
     ''<body>'']\<close>

text \<open>The heading and the card that publishes a task.\<close>

definition page_publish :: string where
  \<open>page_publish = page_lines [
     ''<div class="wrap">'',
     ''  <h1>JobScheduler Console</h1>'',
     [],
     ''  <div class="card">'',
     ''    <h2>'' @ runes [0x53D1, 0x5E03, 0x4EFB, 0x52A1] @ ''</h2>'',
     ''    <div class="row">'',
     ''      <input id="group" type="text" placeholder="'' @ runes [0x4EFB, 0x52A1, 0x7EC4, 0xFF0C, 0x5982] @ '' batch/etl">'',
     ''      <input id="payload" type="text" placeholder="'' @ runes [0x4EFB, 0x52A1, 0x5185, 0x5BB9] @ ''">'',
     ''      <input id="due" type="number" value="0" placeholder="'' @ runes [0x5EF6, 0x540E, 0x6BEB, 0x79D2] @ ''">'',
     ''      <input id="deps" type="text" placeholder="'' @ runes [0x4F9D, 0x8D56, 0x4EFB, 0x52A1] @ '' ID'' @ runes [0xFF0C, 0x9017, 0x53F7, 0x5206, 0x9694] @ ''">'',
     ''      <button id="publishBtn" class="primary">'' @ runes [0x53D1, 0x5E03] @ ''</button>'',
     ''    </div>'',
     ''    <p id="pubResult" style="min-height:1em;color:#57606a;font-size:13px;"></p>'',
     ''  </div>'']\<close>

text \<open>The card that registers an executor.\<close>

definition page_register :: string where
  \<open>page_register = page_lines [
     [],
     ''  <div class="card">'',
     ''    <h2>'' @ runes [0x6CE8, 0x518C, 0x6267, 0x884C, 0x5668] @ ''</h2>'',
     ''    <div class="row">'',
     ''      <input id="execId" type="text" placeholder="'' @ runes [0x6267, 0x884C, 0x5668] @ '' ID">'',
     ''      <button id="execBtn">'' @ runes [0x6CE8, 0x518C] @ ''</button>'',
     ''      <button id="statusBtn">'' @ runes [0x5237, 0x65B0, 0x72B6, 0x6001] @ ''</button>'',
     ''    </div>'',
     ''    <p id="execResult" style="min-height:1em;color:#57606a;font-size:13px;"></p>'',
     ''  </div>'']\<close>

text \<open>The card that shows the status.\<close>

definition page_status :: string where
  \<open>page_status = page_lines [
     [],
     ''  <div class="card">'',
     ''    <h2>'' @ runes [0x4EFB, 0x52A1, 0x4E0E, 0x6267, 0x884C, 0x5668, 0x72B6, 0x6001] @ ''</h2>'',
     ''    <pre id="status">'' @ runes [0xFF08, 0x70B9, 0x51FB, 0x5237, 0x65B0, 0x72B6, 0x6001, 0xFF09] @ ''</pre>'',
     ''  </div>'',
     ''</div>'']\<close>

text \<open>The script: the call of a POST endpoint.\<close>

definition page_script_post :: string where
  \<open>page_script_post = page_lines [
     [],
     ''<script>'',
     ''(() => {'',
     ''  "use strict";'',
     ''  const $ = (id) => document.getElementById(id);'',
     [],
     ''  async function post(url, body) {'',
     ''    const res = await fetch(url, {'',
     ''      method: "POST",'',
     ''      headers: { "Content-Type": "application/json" },'',
     ''      body: JSON.stringify(body)'',
     ''    });'',
     ''    return res.json();'',
     ''  }'']\<close>

text \<open>The script: the call of the status endpoint.\<close>

definition page_script_status :: string where
  \<open>page_script_status = page_lines [
     [],
     ''  async function refreshStatus() {'',
     ''    try {'',
     ''      const res = await fetch("/api/status");'',
     ''      $("status").textContent = JSON.stringify(await res.json(), null, 2);'',
     ''    } catch (err) {'',
     ''      $("status").textContent = "'' @ runes [0x72B6, 0x6001, 0x83B7, 0x53D6, 0x5931, 0x8D25] @ '': " + err.message;'',
     ''    }'',
     ''  }'']\<close>

text \<open>The script: the button that publishes.\<close>

definition page_script_publish :: string where
  \<open>page_script_publish = page_lines [
     [],
     ''  $("publishBtn").addEventListener("click", async () => {'',
     ''    const group = $("group").value.trim();'',
     ''    if (!group) { $("pubResult").textContent = "'' @ runes [0x8BF7, 0x586B, 0x5199, 0x4EFB, 0x52A1, 0x7EC4] @ ''"; return; }'',
     ''    const deps = $("deps").value.split(",").map(s => s.trim()).filter(Boolean);'',
     ''    try {'',
     ''      const data = await post("/api/publish", {'',
     ''        group: group,'',
     ''        payload: $("payload").value,'',
     ''        due_after_ms: parseInt($("due").value || "0", 10),'',
     ''        depends_on: deps'',
     ''      });'',
     ''      $("pubResult").textContent = "'' @ runes [0x5DF2, 0x63A5, 0x53D7, 0xFF0C, 0x5E8F, 0x5217, 0x53F7] @ '' " + data.sequence + "'' @ runes [0xFF0C, 0x4EFB, 0x52A1] @ '' " + data.task_id;'',
     ''      refreshStatus();'',
     ''    } catch (err) {'',
     ''      $("pubResult").textContent = "'' @ runes [0x53D1, 0x5E03, 0x5931, 0x8D25] @ '': " + err.message;'',
     ''    }'',
     ''  });'']\<close>

text \<open>The script: the button that registers.\<close>

definition page_script_register :: string where
  \<open>page_script_register = page_lines [
     [],
     ''  $("execBtn").addEventListener("click", async () => {'',
     ''    const id = $("execId").value.trim();'',
     ''    if (!id) { $("execResult").textContent = "'' @ runes [0x8BF7, 0x586B, 0x5199, 0x6267, 0x884C, 0x5668] @ '' ID"; return; }'',
     ''    try {'',
     ''      const data = await post("/executors", { id: id });'',
     ''      $("execResult").textContent = "'' @ runes [0x6267, 0x884C, 0x5668] @ '' " + data.executor + " '' @ runes [0x5DF2, 0x6CE8, 0x518C, 0xFF0C, 0x69FD, 0x4F4D] @ '' " + data.slot;'',
     ''      refreshStatus();'',
     ''    } catch (err) {'',
     ''      $("execResult").textContent = "'' @ runes [0x6CE8, 0x518C, 0x5931, 0x8D25] @ '': " + err.message;'',
     ''    }'',
     ''  });'',
     []]\<close>

text \<open>The end of the script and of the page.\<close>

definition page_end :: string where
  \<open>page_end = page_lines [
     ''  $("statusBtn").addEventListener("click", refreshStatus);'',
     ''  refreshStatus();'',
     ''})();'',
     ''</script>'',
     ''</body>'',
     ''</html>'']\<close>

text \<open>The embedded page.\<close>

definition ConsoleHTML :: string where
  "ConsoleHTML =
     page_head @ page_style @ page_publish @ page_register @
     page_status @ page_script_post @ page_script_status @
     page_script_publish @ page_script_register @ page_end"

end
