(* ===== verification/Wire.thy ===== *)
theory Wire
  imports Json_Laws Requests Page
begin

text \<open>
  The bytes of the HTTP interface of \<open>cmd/jobsched/server.go\<close>: what the handlers' decoders make of a
  request body, what the handlers write, and the server as a function from the bytes of a request to
  the bytes of its reply.  The transport (headers of the connection, routing of hosts, the clean-up
  of paths) stays with the standard library.
\<close>

section \<open>Decoding requests\<close>

text \<open>
  A member sets the field whose name has the same folded form: letters in upper case, and the two
  runes outside ASCII that fold to a letter.  Other runes stay as they are and match no name.
\<close>

function fold_key :: "string \<Rightarrow> string" where
  "fold_key [] = []"
| "fold_key (c # s) =
     (if 97 \<le> byte c \<and> byte c \<le> 122 then char_of (byte c - 32) # fold_key s
      else if c = CHR 0xC5 \<and> take 1 s = [CHR 0xBF] then CHR ''S'' # fold_key (drop 1 s)
      else if c = CHR 0xE2 \<and> take 2 s = [CHR 0x84, CHR 0xAA] then CHR ''K'' # fold_key (drop 2 s)
      else c # fold_key s)"
  by pat_completeness auto
termination by (relation "measure length") auto

declare fold_key.simps(2) [simp del]

text \<open>
  The decoder stores a value into what the field holds: \<open>null\<close> leaves a string or an integer as it is,
  and \<open>None\<close> is a type error.
\<close>

definition decode_text :: "string \<Rightarrow> json \<Rightarrow> string option" where
  "decode_text old v = (case v of JNull \<Rightarrow> Some old | JStr s \<Rightarrow> Some s | _ \<Rightarrow> None)"

definition decode_int64 :: "int64 \<Rightarrow> json \<Rightarrow> int64 option" where
  "decode_int64 old v =
     (case v of
        JNull \<Rightarrow> Some old
      | JNum t \<Rightarrow> if int_token t \<and> min_int64 \<le> token_int t \<and> token_int t \<le> max_int64
                  then Some (token_int t) else None
      | _ \<Rightarrow> None)"

text \<open>
  A slice is its elements and the cells behind them that its array still has.  An array is decoded
  into the cells from the first on, so a \<open>null\<close> in it leaves what an earlier array put there; \<open>null\<close>
  and the empty array replace the slice.
\<close>

record cells =
  cl_elems :: "string list"
  cl_spare :: "string list"

definition no_cells :: cells where
  "no_cells = \<lparr>cl_elems = [], cl_spare = []\<rparr>"

fun decode_elems :: "string list \<Rightarrow> json list \<Rightarrow> string list option" where
  "decode_elems cs [] = Some []"
| "decode_elems cs (v # vs) =
     (case decode_text (case cs of [] \<Rightarrow> [] | c # _ \<Rightarrow> c) v of
        None \<Rightarrow> None
      | Some s \<Rightarrow> map_option ((#) s) (decode_elems (tl cs) vs))"

definition decode_texts :: "cells \<Rightarrow> json \<Rightarrow> cells option" where
  "decode_texts old v =
     (case v of
        JNull \<Rightarrow> Some no_cells
      | JArr vs \<Rightarrow>
          if vs = [] then Some no_cells
          else map_option (\<lambda>ss. \<lparr>cl_elems = ss, cl_spare = drop (length vs) (cl_elems old @ cl_spare old)\<rparr>)
                 (decode_elems (cl_elems old @ cl_spare old) vs)
      | _ \<Rightarrow> None)"

record publish_body =
  pb_Group :: string
  pb_Payload :: string
  pb_DueAfter :: int64
  pb_DependsOn :: cells

definition no_publish :: publish_body where
  "no_publish = \<lparr>pb_Group = [], pb_Payload = [], pb_DueAfter = 0, pb_DependsOn = no_cells\<rparr>"

definition publish_field :: "string \<times> json \<Rightarrow> publish_body \<Rightarrow> publish_body option" where
  "publish_field kv b =
     (let k = fold_key (fst kv); v = snd kv
      in if k = ''GROUP'' then map_option (\<lambda>x. b\<lparr>pb_Group := x\<rparr>) (decode_text (pb_Group b) v)
         else if k = ''PAYLOAD'' then map_option (\<lambda>x. b\<lparr>pb_Payload := x\<rparr>) (decode_text (pb_Payload b) v)
         else if k = ''DUE_AFTER_MS'' then map_option (\<lambda>x. b\<lparr>pb_DueAfter := x\<rparr>) (decode_int64 (pb_DueAfter b) v)
         else if k = ''DEPENDS_ON'' then map_option (\<lambda>x. b\<lparr>pb_DependsOn := x\<rparr>) (decode_texts (pb_DependsOn b) v)
         else Some b)"

definition executor_field :: "string \<times> json \<Rightarrow> string \<Rightarrow> string option" where
  "executor_field kv b = (if fold_key (fst kv) = ''ID'' then decode_text b (snd kv) else Some b)"

text \<open>
  A type error is reported when the value has been read to its end, so which member it is in makes
  no difference.
\<close>

fun decode_members :: "('m \<Rightarrow> 'b \<Rightarrow> 'b option) \<Rightarrow> 'm list \<Rightarrow> 'b \<Rightarrow> 'b option" where
  "decode_members field [] b = Some b"
| "decode_members field (kv # kvs) b =
     (case field kv b of None \<Rightarrow> None | Some b \<Rightarrow> decode_members field kvs b)"

text \<open>
  \<open>Decode\<close> reads the first value of the body and nothing behind it.  \<open>null\<close> leaves the target as it
  is, and any other value that is not an object is a type error.
\<close>

definition Decode :: "(string \<times> json \<Rightarrow> 'b \<Rightarrow> 'b option) \<Rightarrow> 'b \<Rightarrow> string \<Rightarrow> 'b option" where
  "Decode field zero body =
     (case parse_value 10000 body of
        Some (JObj kvs, _) \<Rightarrow> decode_members field kvs zero
      | Some (JNull, _) \<Rightarrow> Some zero
      | _ \<Rightarrow> None)"

text \<open>The bytes of a string, as the conversion to \<open>[]byte\<close> gives them.\<close>

definition str_bytes :: "string \<Rightarrow> 8 word list" where
  "str_bytes s = map (\<lambda>c. of_nat (byte c)) s"

definition decode_publish :: "string \<Rightarrow> publish_request option" where
  "decode_publish body =
     map_option (\<lambda>b. \<lparr>pr_Group = pb_Group b, pr_Payload = str_bytes (pb_Payload b),
         pr_DueAfter = pb_DueAfter b, pr_DependsOn = cl_elems (pb_DependsOn b)\<rparr>)
       (Decode publish_field no_publish body)"

definition decode_executor :: "string \<Rightarrow> string option" where
  "decode_executor body = Decode executor_field [] body"

section \<open>Writing replies\<close>

record reply =
  rp_Status :: int
  rp_ContentType :: "string option"
  rp_Body :: string

abbreviation json_type :: string where "json_type \<equiv> ''application/json; charset=utf-8''"
abbreviation text_type :: string where "text_type \<equiv> ''text/plain; charset=utf-8''"
abbreviation html_type :: string where "html_type \<equiv> ''text/html; charset=utf-8''"

definition json_int :: "int \<Rightarrow> json" where
  "json_int n = JNum (int_text n)"

definition task_view_json :: "task_view \<Rightarrow> json" where
  "task_view_json v =
     JObj [(''id'', JStr (tv_ID v)), (''group'', JStr (tv_Group v)),
       (''state'', json_int (task_state_iota (tv_State v))), (''state_text'', JStr (tv_StateText v)),
       (''due_at'', JStr (tv_DueAt v))]"

definition snapshot_json :: "metrics_snapshot \<Rightarrow> json" where
  "snapshot_json s =
     JObj [(''published'', json_int (ms_Published s)), (''dispatched'', json_int (ms_Dispatched s)),
       (''failed'', json_int (ms_Failed s)), (''evicted'', json_int (ms_Evicted s)),
       (''succeeded'', json_int (ms_Succeeded s))]"

definition backlog_json :: "backlog \<Rightarrow> json" where
  "backlog_json b =
     JObj [(''Pending'', json_int (int (bl_Pending b))), (''Committed'', json_int (bl_Committed b)),
       (''NextSeq'', json_int (bl_NextSeq b)), (''Retained'', json_int (int (bl_Retained b))),
       (''Dispatched'', json_int (int (bl_Dispatched b))), (''Retryable'', json_int (int (bl_Retryable b))),
       (''HighestPending'', json_int (bl_HighestPending b))]"

definition status_json :: "status_page \<Rightarrow> json" where
  "status_json p =
     json_map [(''tasks'', JArr (map task_view_json (sp_tasks p))),
       (''executors'', JArr (map JStr (sp_executors p))), (''lease_count'', json_int (int (sp_lease_count p))),
       (''metrics'', snapshot_json (sp_metrics p)), (''backlog'', backlog_json (sp_backlog p)),
       (''cache_hits'', json_int (uint (sp_cache_hits p))), (''cache_misses'', json_int (uint (sp_cache_misses p))),
       (''progress'', json_int (sp_progress p))]"

text \<open>The value a handler encodes, if it answers in JSON.\<close>

fun response_json :: "response \<Rightarrow> json option" where
  "response_json (RespAccepted seq tid) =
     Some (json_map [(''sequence'', json_int seq), (''task_id'', JStr tid), (''status'', JStr ''accepted'')])"
| "response_json (RespRegistered e slot) =
     Some (json_map [(''executor'', JStr e), (''slot'', json_int slot), (''status'', JStr ''registered'')])"
| "response_json (RespStatus page) = Some (status_json page)"
| "response_json (RespHealth st now) = Some (json_map [(''status'', JStr st), (''time'', JStr now)])"
| "response_json _ = None"

definition http_Error :: "string \<Rightarrow> int \<Rightarrow> reply" where
  "http_Error msg code = \<lparr>rp_Status = code, rp_ContentType = Some text_type, rp_Body = msg @ [CHR 0x0A]\<rparr>"

definition write_json :: "json \<Rightarrow> reply" where
  "write_json v = \<lparr>rp_Status = 200, rp_ContentType = Some json_type, rp_Body = Encode v\<rparr>"

definition write_reply :: "response \<Rightarrow> reply" where
  "write_reply resp =
     (case response_json resp of
        Some v \<Rightarrow> write_json v
      | None \<Rightarrow>
          (case resp of
             RespMethodNotAllowed \<Rightarrow> \<lparr>rp_Status = 405, rp_ContentType = None, rp_Body = []\<rparr>
           | RespBadRequest msg \<Rightarrow> http_Error msg 400
           | RespPage html \<Rightarrow> \<lparr>rp_Status = 200, rp_ContentType = Some html_type, rp_Body = html\<rparr>
           | _ \<Rightarrow> http_Error ''404 page not found'' 404))"

text \<open>The server on the bytes of a request.\<close>

definition Server_Serve ::
  "request_env \<Rightarrow> string \<Rightarrow> string \<Rightarrow> string \<Rightarrow> system \<Rightarrow> reply \<times> system" where
  "Server_Serve env method_name path body y =
     (let rq = \<lparr>hr_Method = method_name, hr_Path = path, hr_Publish = decode_publish body,
                hr_Executor = decode_executor body\<rparr>;
          (resp, y) = Server_Handler env rq y
      in (write_reply resp, y))"

section \<open>The reader of the replies\<close>

text \<open>
  What the page's script makes of a reply: \<open>res.json()\<close> reads one value with nothing but white space
  behind it, whatever the status of the reply.
\<close>

definition res_json :: "reply \<Rightarrow> json option" where
  "res_json r =
     (case parse_value 10000 (rp_Body r) of
        Some (v, rest) \<Rightarrow> if skip_space rest = [] then Some v else None
      | None \<Rightarrow> None)"

end
