(* ===== verification/Wire_Laws.thy ===== *)
theory Wire_Laws
  imports Wire
begin

text \<open>
  What \<open>Wire\<close> promises: which bodies the handlers refuse, that a publish request and its reply
  survive the way over the wire, what the console page can read of a reply, and that the startup
  probe accepts the program's own server.
\<close>

section \<open>Objects decoded member by member\<close>

text \<open>
  A target type, as the decoder sees it: whether a member can be stored depends on the member alone,
  never on what was stored before.
\<close>

locale decoded_object =
  fixes field :: "string \<times> json \<Rightarrow> 'b \<Rightarrow> 'b option"
    and typed :: "string \<times> json \<Rightarrow> bool"
  assumes field_typed: "field kv b = None \<longleftrightarrow> \<not> typed kv"
begin

lemma members_typed: "decode_members field kvs b = None \<longleftrightarrow> \<not> list_all typed kvs"
proof (induction kvs arbitrary: b)
  case (Cons kv kvs)
  then show ?case using field_typed [of kv b] by (auto split: option.splits)
qed simp

lemma Decode_typed:
  "Decode field zero body = None \<longleftrightarrow>
     \<not> (case parse_value 10000 body of
          Some (JObj kvs, _) \<Rightarrow> list_all typed kvs
        | Some (JNull, _) \<Rightarrow> True
        | _ \<Rightarrow> False)"
  by (auto simp: Decode_def members_typed split: option.splits json.splits)

end

definition text_value :: "json \<Rightarrow> bool" where
  "text_value v = (case v of JNull \<Rightarrow> True | JStr s \<Rightarrow> True | _ \<Rightarrow> False)"

definition int64_value :: "json \<Rightarrow> bool" where
  "int64_value v =
     (case v of
        JNull \<Rightarrow> True
      | JNum t \<Rightarrow> int_token t \<and> min_int64 \<le> token_int t \<and> token_int t \<le> max_int64
      | _ \<Rightarrow> False)"

definition texts_value :: "json \<Rightarrow> bool" where
  "texts_value v = (case v of JNull \<Rightarrow> True | JArr vs \<Rightarrow> list_all text_value vs | _ \<Rightarrow> False)"

definition publish_typed :: "string \<times> json \<Rightarrow> bool" where
  "publish_typed kv =
     ((fold_key (fst kv) \<in> {''GROUP'', ''PAYLOAD''} \<longrightarrow> text_value (snd kv))
      \<and> (fold_key (fst kv) = ''DUE_AFTER_MS'' \<longrightarrow> int64_value (snd kv))
      \<and> (fold_key (fst kv) = ''DEPENDS_ON'' \<longrightarrow> texts_value (snd kv)))"

definition executor_typed :: "string \<times> json \<Rightarrow> bool" where
  "executor_typed kv = (fold_key (fst kv) = ''ID'' \<longrightarrow> text_value (snd kv))"

definition acceptable :: "(string \<times> json \<Rightarrow> bool) \<Rightarrow> string \<Rightarrow> bool" where
  "acceptable typed body =
     (case parse_value 10000 body of
        Some (JObj kvs, _) \<Rightarrow> list_all typed kvs
      | Some (JNull, _) \<Rightarrow> True
      | _ \<Rightarrow> False)"

lemma decode_text_typed: "decode_text old v = None \<longleftrightarrow> \<not> text_value v"
  by (simp add: decode_text_def text_value_def split: json.splits)

lemma decode_int64_typed: "decode_int64 old v = None \<longleftrightarrow> \<not> int64_value v"
  by (simp add: decode_int64_def int64_value_def split: json.splits)

lemma decode_elems_typed: "decode_elems cs vs = None \<longleftrightarrow> \<not> list_all text_value vs"
proof (induction vs arbitrary: cs)
  case (Cons v vs)
  then show ?case
    using decode_text_typed [of "case cs of [] \<Rightarrow> [] | c # _ \<Rightarrow> c" v] by (auto split: option.splits)
qed simp

lemma decode_texts_typed: "decode_texts old v = None \<longleftrightarrow> \<not> texts_value v"
  by (auto simp: decode_texts_def texts_value_def decode_elems_typed split: json.splits)

interpretation publish_object: decoded_object publish_field publish_typed
  by unfold_locales
    (auto simp: publish_field_def publish_typed_def Let_def decode_text_typed decode_int64_typed decode_texts_typed)

interpretation executor_object: decoded_object executor_field executor_typed
  by unfold_locales (auto simp: executor_field_def executor_typed_def decode_text_typed)

lemma decode_publish_None: "decode_publish body = None \<longleftrightarrow> \<not> acceptable publish_typed body"
  by (simp add: decode_publish_def publish_object.Decode_typed acceptable_def)

lemma decode_executor_None: "decode_executor body = None \<longleftrightarrow> \<not> acceptable executor_typed body"
  by (simp add: decode_executor_def executor_object.Decode_typed acceptable_def)

section \<open>Refused bodies\<close>

lemma error_text_first:
  "error_text e = Some s \<Longrightarrow> \<exists>c t. s = c # t \<and> c \<in> {CHR ''t'', CHR ''c'', CHR ''w'', CHR ''e'', CHR ''u'', CHR ''d'', CHR ''r''}"
  by (cases e) (auto simp: str_append_opt_def split: option.splits)

lemma write_error: "write_reply (RespBadRequest s) = http_Error s 400"
  by (simp add: write_reply_def)

lemma http_Error_inj: "http_Error s c = http_Error t d \<longleftrightarrow> s = t \<and> c = d"
  by (auto simp: http_Error_def)

lemma write_bad_request:
  "write_reply resp = http_Error ''bad request'' 400 \<longleftrightarrow> resp = RespBadRequest ''bad request''"
  by (cases resp) (auto simp: write_reply_def http_Error_def write_json_def)

lemma error_not_bad_request: "error_response e \<noteq> RespBadRequest ''bad request''"
  using error_text_first [of e] by (auto simp: error_response_def split: option.splits)

lemma handlePublish_bad_request:
  "fst (handlePublish i k now created ''POST'' body y) = RespBadRequest ''bad request'' \<longleftrightarrow> body = None"
  by (auto simp: handlePublish_def Let_def error_not_bad_request split: option.splits prod.splits sum.splits)

lemma handleExecutor_bad_request:
  "fst (handleExecutor now ''POST'' body y) = RespBadRequest ''bad request'' \<longleftrightarrow> body = None"
  by (auto simp: handleExecutor_def Let_def split: option.splits prod.splits)

text \<open>
  C17: Which bodies the two POST handlers refuse as a bad request: exactly those that do not begin with
  \<open>null\<close> or an object each of whose members fits the field it names (strings, an integer in the range
  of 64 bits, an array of strings; \<open>null\<close> fits all; unknown members are ignored).  Such a request
  changes nothing.
\<close>

theorem bad_request_iff:
  "(fst (Server_Serve env ''POST'' ''/api/publish'' body y) = http_Error ''bad request'' 400
      \<longleftrightarrow> \<not> acceptable publish_typed body)
   \<and> (fst (Server_Serve env ''POST'' ''/executors'' body y) = http_Error ''bad request'' 400
      \<longleftrightarrow> \<not> acceptable executor_typed body)
   \<and> (acceptable publish_typed body \<or> snd (Server_Serve env ''POST'' ''/api/publish'' body y) = y)
   \<and> (acceptable executor_typed body \<or> snd (Server_Serve env ''POST'' ''/executors'' body y) = y)"
proof -
  have "acceptable publish_typed body \<or> snd (Server_Serve env ''POST'' ''/api/publish'' body y) = y"
    using decode_publish_None [of body]
    by (auto simp: Server_Serve_def Server_Handler_def handlePublish_def Let_def)
  moreover have "acceptable executor_typed body \<or> snd (Server_Serve env ''POST'' ''/executors'' body y) = y"
    using decode_executor_None [of body]
    by (auto simp: Server_Serve_def Server_Handler_def handleExecutor_def Let_def)
  ultimately show ?thesis
    using handlePublish_bad_request handleExecutor_bad_request decode_publish_None decode_executor_None
    by (simp add: Server_Serve_def Server_Handler_def Let_def case_prod_beta write_bad_request)
qed

section \<open>The way over the wire\<close>

lemma Encode_parse:
  "writable 10000 v \<Longrightarrow> parse_value 10000 (Encode v @ rest) = Some (valid_json v, CHR 0x0A # rest)"
  using parse_json_text [of 10000 v "CHR 0x0A # rest"] by (simp add: Encode_def num_end_structural)

lemma to_valid_ascii: "list_all (\<lambda>c. byte c < 128) s \<Longrightarrow> to_valid s = s"
proof (induction s)
  case (Cons c s)
  then have "rune_len (c # s) = Suc 0" by (simp only: rune_len_ascii list.pred_inject(2))
  with Cons show ?case by (simp add: to_valid.simps(2) del: rune_len.simps)
qed simp

lemma int_token_json_int [simp]: "writable d (json_int n)" "valid_json (json_int n) = json_int n"
  by (simp_all add: json_int_def int_text_token)

text \<open>The body of a publish request, as a client of the interface writes it.\<close>

definition publish_json :: "string \<Rightarrow> string \<Rightarrow> int \<Rightarrow> string list \<Rightarrow> json" where
  "publish_json g payload due ds =
     JObj [(''group'', JStr g), (''payload'', JStr payload), (''due_after_ms'', json_int due),
       (''depends_on'', JArr (map JStr ds))]"

lemma decode_elems_texts: "decode_elems cs (map JStr ss) = Some ss"
  by (induction ss arbitrary: cs) (simp_all add: decode_text_def)

lemma decode_texts_JStr: "\<exists>cs. decode_texts no_cells (JArr (map JStr ss)) = Some cs \<and> cl_elems cs = ss"
  by (cases ss) (simp_all add: decode_texts_def no_cells_def decode_elems_texts decode_text_def)

lemma fold_keys:
  "fold_key ''group'' = ''GROUP''" "fold_key ''payload'' = ''PAYLOAD''"
  "fold_key ''due_after_ms'' = ''DUE_AFTER_MS''" "fold_key ''depends_on'' = ''DEPENDS_ON''"
  by code_simp+

lemma decode_publish_json:
  assumes "min_int64 \<le> due" and "due \<le> max_int64"
  shows "decode_publish (Encode (publish_json g payload due ds) @ rest) =
    Some \<lparr>pr_Group = to_valid g, pr_Payload = str_bytes (to_valid payload), pr_DueAfter = due,
      pr_DependsOn = map to_valid ds\<rparr>"
proof -
  have "writable 10000 (publish_json g payload due ds)"
    by (simp add: publish_json_def list_all_iff)
  then have parse: "parse_value 10000 (Encode (publish_json g payload due ds) @ rest) =
      Some (JObj [(''group'', JStr (to_valid g)), (''payload'', JStr (to_valid payload)),
        (''due_after_ms'', json_int due), (''depends_on'', JArr (map JStr (map to_valid ds)))], CHR 0x0A # rest)"
    by (simp add: Encode_parse publish_json_def to_valid_ascii comp_def)
  obtain cs where cs: "decode_texts no_cells (JArr (map JStr (map to_valid ds))) = Some cs" "cl_elems cs = map to_valid ds"
    using decode_texts_JStr by blast
  have "decode_int64 0 (json_int due) = Some due"
    using assms int_text_token [of due] by (simp add: decode_int64_def json_int_def)
  then show ?thesis
    using cs by (simp add: decode_publish_def Decode_def parse publish_field_def fold_keys no_publish_def decode_text_def
        del: map_map)
qed

lemma response_json_writable: "response_json resp = Some v \<Longrightarrow> writable 10000 v"
  by (cases resp) (auto simp: json_map_def status_json_def task_view_json_def snapshot_json_def backlog_json_def
      list_all_iff)

lemma res_json_reply:
  "response_json resp = Some v \<Longrightarrow> res_json (write_reply resp) = Some (valid_json v)"
  using Encode_parse [OF response_json_writable, of resp v "[]"]
  by (simp add: res_json_def write_reply_def write_json_def skip_space_def is_space_def)

lemma accepted_json:
  "res_json (write_reply (RespAccepted seq tid)) =
     Some (JObj [(''sequence'', json_int seq), (''status'', JStr ''accepted''), (''task_id'', JStr (to_valid tid))])"
  by (simp add: res_json_reply json_map_def to_valid_ascii)

lemma registered_json:
  "res_json (write_reply (RespRegistered e slot)) =
     Some (JObj [(''executor'', JStr (to_valid e)), (''slot'', json_int slot), (''status'', JStr ''registered'')])"
  by (simp add: res_json_reply json_map_def to_valid_ascii)

text \<open>
  C16: What becomes of a publish request from its bytes to the bytes of its reply.  In every reachable
  state with room in the store and in the queue, a POST to \<open>/api/publish\<close> whose body begins with the
  encoding of a request (a group that is not blank, a payload, a delay in the range of 64 bits, some
  dependencies) is accepted: the reply is read back as the next sequence and the id of the task, and
  the task, with exactly the fields of the request (strings that are not UTF-8 repaired, the due time
  computed modulo \<open>2 ^ 64\<close>), is retained in the store, registered, and queued unless it waits for a
  dependency.
\<close>

theorem publish_over_wire:
  assumes "\<forall>ev \<in> set evs. event_ok ev" and "int (length evs) < max_int64"
    and "y = foldl (sys_step fl cfg) (main_state fl cfg) evs"
    and "min_int64 \<le> due" and "due \<le> max_int64" and "\<not> trims_to_empty (to_valid g)"
    and "Store_Len (sys_store y) < r_cap (s_ring (sys_store y))"
    and "Queue_Len (sys_queue y) < q_limit (sys_queue y)"
    and "Server_Serve env ''POST'' ''/api/publish'' (Encode (publish_json g payload due ds) @ rest) y = (r, z)"
    and "t = \<lparr>task_ID = re_task_uuid env, task_Sequence = s_seq (sys_store y) + 1, task_Group = to_valid g,
      task_Payload = str_bytes (to_valid payload), task_DedupeKey = re_key_uuid env,
      task_DueAt = re_now env + wrap64 (due * millisecond), task_State = TaskPending,
      task_CreatedAt = re_created env\<rparr>"
  shows "rp_Status r = 200
    \<and> res_json r = Some (JObj [(''sequence'', json_int (task_Sequence t)), (''status'', JStr ''accepted''),
        (''task_id'', JStr (to_valid (task_ID t)))])
    \<and> store_items (sys_store z) = store_items (sys_store y) @ [t]
    \<and> Registry_Get (sys_reg z) (task_ID t) = Some t
    \<and> sys_deps z = add_deps (sys_deps y) (task_ID t) (map to_valid ds)
    \<and> (if Graph_Ready (sys_deps z) (task_ID t)
        then queue_contents (sys_queue z) = add_mset t (queue_contents (sys_queue y))
        else sys_queue z = sys_queue y)"
proof -
  have inv: "sys_inv y" "s_seq (sys_store y) < max_int64"
    using events_inv [OF assms(1) less_imp_le [OF assms(2)], of fl cfg] assms(2,3) by simp_all
  let ?y = "y\<lparr>sys_deps := add_deps (sys_deps y) (re_task_uuid env) (map to_valid ds)\<rparr>"
  let ?u = "NewTask (re_task_uuid env) (re_key_uuid env) (re_created env) (to_valid g) (str_bytes (to_valid payload))
      (re_now env + wrap64 (due * millisecond))"
  have st: "store_inv (sys_store ?y)" "s_seq (sys_store ?y) < max_int64" using inv by (simp_all add: sys_inv_def)
  have u: "published_task ?y ?u = t" "task_ID ?u = re_task_uuid env"
    using assms(10) by (simp_all add: published_task_def NewTask_def)
  have res: "fst (Broker_Publish ?y ?u) = Inr (task_Sequence t)"
    using assms(7,8) by (simp add: Publish_cases [OF st] Let_def u)
  then obtain w where w: "Broker_Publish ?y ?u = (Inr (task_Sequence t), w)" by (metis prod.collapse)
  have out: "r = write_reply (RespAccepted (task_Sequence t) (task_ID t)) \<and> z = w"
    using assms(6,9,10) w u(2)
    by (simp add: Server_Serve_def Server_Handler_def handlePublish_def decode_publish_json [OF assms(4,5)] Let_def)
  have "store_items (sys_store w) = store_items (sys_store y) @ [t]"
    using Publish_store(3) [OF st, of ?u] w assms(7) u(1) by simp
  moreover have "Registry_Get (sys_reg w) (task_ID t) = Some t"
    using w assms(7,8) by (auto simp: Publish_cases [OF st] Let_def u split: if_splits)
  moreover have "sys_deps w = add_deps (sys_deps y) (task_ID t) (map to_valid ds)"
    using Publish_frames(1) [of ?y ?u] w assms(10) by simp
  moreover have "if Graph_Ready (sys_deps w) (task_ID t)
        then queue_contents (sys_queue w) = add_mset t (queue_contents (sys_queue y)) else sys_queue w = sys_queue y"
    using w assms(7,8,10) Enqueue_ok(2) [of "sys_queue y" t]
    by (auto simp: Publish_cases [OF st] Let_def u Queue_Len_def split: if_splits)
  moreover have "rp_Status r = 200" using out by (simp add: write_reply_def write_json_def)
  ultimately show ?thesis using out accepted_json by simp
qed

theorem publish_over_wire_witness:
  "\<exists>r z. Server_Serve sample_request_env ''POST'' ''/api/publish'' (Encode (publish_json ''g'' ''p'' 7 [''d'']))
      (main_state id (Load ''x'')) = (r, z)
    \<and> rp_Status r = 200 \<and> sys_deps z = add_deps Graph_New ''t'' [''d'']
    \<and> Registry_Get (sys_reg z) ''t'' =
        Some \<lparr>task_ID = ''t'', task_Sequence = 1, task_Group = ''g'', task_Payload = [112], task_DedupeKey = ''k'',
          task_DueAt = 7000005, task_State = TaskPending, task_CreatedAt = 5\<rparr>"
proof -
  define y where "y = foldl (sys_step id (Load ''x'')) (main_state id (Load ''x'')) []"
  obtain r z where h: "Server_Serve sample_request_env ''POST'' ''/api/publish''
      (Encode (publish_json ''g'' ''p'' 7 [''d'']) @ []) y = (r, z)"
    by fastforce
  have ok: "\<forall>ev \<in> set []. event_ok ev" "int (length ([] :: sys_event list)) < max_int64"
    "min_int64 \<le> 7" "7 \<le> max_int64" "\<not> trims_to_empty (to_valid ''g'')"
    by (simp_all add: min_int64_def max_int64_def to_valid_ascii trims_to_empty_def)
  have room: "Store_Len (sys_store y) < r_cap (s_ring (sys_store y))" "Queue_Len (sys_queue y) < q_limit (sys_queue y)"
    "s_seq (sys_store y) = 0" "sys_deps y = Graph_New"
    by (simp_all add: y_def main_state_def Load_def NewStore_def Store_Len_def NewRing_def
        store_items_def ring_items_def Queue_New_def Queue_Len_def)
  have env: "re_task_uuid sample_request_env = ''t''" "re_key_uuid sample_request_env = ''k''"
    "re_now sample_request_env = 5" "re_created sample_request_env = 5"
    by (simp_all add: sample_request_env_def)
  from publish_over_wire [OF ok(1,2) y_def ok(3,4,5) room(1,2) h refl]
  have "rp_Status r = 200 \<and> sys_deps z = add_deps Graph_New ''t'' [''d'']
    \<and> Registry_Get (sys_reg z) ''t'' =
        Some \<lparr>task_ID = ''t'', task_Sequence = 1, task_Group = ''g'', task_Payload = [112], task_DedupeKey = ''k'',
          task_DueAt = 7000005, task_State = TaskPending, task_CreatedAt = 5\<rparr>"
    by (simp add: room(3,4) env to_valid_ascii str_bytes_def min_int64_def max_int64_def)
  then show ?thesis using h by (auto simp: y_def)
qed

text \<open>The same for a registration: the executor gets a runner and the slot its reply names.\<close>

lemma to_valid_Nil: "to_valid s = [] \<longleftrightarrow> s = []"
  by (cases s) (simp_all add: to_valid.simps(2) replacement_def split: nat.splits del: rune_len.simps)

lemma decode_executor_json: "decode_executor (Encode (JObj [(''id'', JStr e)]) @ rest) = Some (to_valid e)"
proof -
  have "fold_key ''id'' = ''ID''" by code_simp
  moreover have "parse_value 10000 (Encode (JObj [(''id'', JStr e)]) @ rest) =
      Some (JObj [(''id'', JStr (to_valid e))], CHR 0x0A # rest)"
    by (simp add: Encode_parse to_valid_ascii)
  ultimately show ?thesis by (simp add: decode_executor_def Decode_def executor_field_def decode_text_def)
qed

theorem register_over_wire:
  assumes "e \<noteq> []"
    and "Server_Serve env ''POST'' ''/executors'' (Encode (JObj [(''id'', JStr e)]) @ rest) y = (r, z)"
  shows "\<exists>slot. rp_Status r = 200
    \<and> res_json r = Some (JObj [(''executor'', JStr (to_valid e)), (''slot'', json_int slot),
        (''status'', JStr ''registered'')])
    \<and> lm_slotOf (sys_leases z) (to_valid e) = Some slot \<and> Manager_Get (sys_execs z) (to_valid e) \<noteq> None"
proof -
  obtain resp w where h: "handleExecutor (re_now env) ''POST'' (Some (to_valid e)) y = (resp, w)" by fastforce
  have out: "r = write_reply resp" "z = w"
    using assms(2) h by (simp_all add: Server_Serve_def Server_Handler_def decode_executor_json Let_def)
  from handleExecutor_ok [OF h] assms(1) obtain slot where
    "resp = RespRegistered (to_valid e) slot" "lm_slotOf (sys_leases w) (to_valid e) = Some slot"
    "Manager_Get (sys_execs w) (to_valid e) \<noteq> None" "response_code resp = 200"
    by (auto simp: to_valid_Nil)
  then show ?thesis using out registered_json by (auto simp: write_reply_def write_json_def)
qed

section \<open>What the console can read\<close>

text \<open>Texts that no JSON value begins with: a letter that starts no literal, or \<open>ta\<close>.\<close>

definition plain_text :: "string \<Rightarrow> bool" where
  "plain_text s \<longleftrightarrow> s = [] \<or> hd s \<in> {CHR ''b'', CHR ''c'', CHR ''d'', CHR ''e'', CHR ''g'', CHR ''r'', CHR ''u'', CHR ''w''}
     \<or> take 2 s = ''ta''"

lemma parse_nothing:
  assumes "\<not> is_digit c" and "c \<notin> {quote, CHR ''['', CHR ''{'', CHR ''-'', CHR ''n'', CHR ''f''}"
    and "c = CHR ''t'' \<longrightarrow> take 1 s \<noteq> ''r''" and "\<not> is_space c"
  shows "parse_value d (c # s) = None"
proof -
  have "take 4 (c # s) \<noteq> ''true''" using assms(3) by (cases s) auto
  moreover have "take 4 (c # s) \<noteq> ''null''" "take 5 (c # s) \<noteq> ''false''" using assms(2) by auto
  moreover have "parse_num (c # s) = None"
  proof -
    have "is_digit (CHR ''0'')" by (simp add: is_digit_def)
    then have "c \<noteq> CHR ''0''" "c \<noteq> CHR ''-''" using assms(1,2) by blast+
    then show ?thesis using assms(1) by (simp add: parse_num_def parse_int_part_def)
  qed
  ultimately show ?thesis
    using assms(2,4) by (simp add: parse_value.simps skip_space_stop parse_literal_def)
qed

lemma plain_text_unread: "plain_text s \<Longrightarrow> res_json (http_Error s code) = None"
proof -
  assume s: "plain_text s"
  show ?thesis
  proof (cases s)
    case Nil
    then show ?thesis
      by (simp add: res_json_def http_Error_def parse_value.simps skip_space_def is_space_def)
  next
    case (Cons c t)
    have "parse_value 10000 (c # t @ [CHR 0x0A]) = None"
      using s Cons by (intro parse_nothing) (auto simp: plain_text_def is_digit_def is_space_def)
    with Cons show ?thesis by (simp add: res_json_def http_Error_def)
  qed
qed

lemma error_text_plain: "error_response e = RespBadRequest s \<Longrightarrow> plain_text s"
  by (cases e) (auto simp: error_response_def plain_text_def str_append_opt_def split: option.splits)

lemma handler_texts: "fst (Server_Handler env rq y) = RespBadRequest s \<Longrightarrow> plain_text s"
  by (auto simp: Server_Handler_def handlePublish_def handleExecutor_def handleHealth_def handleStatus_def
      handleConsole_def Let_def error_text_plain split: if_splits option.splits prod.splits sum.splits)
    (auto simp: plain_text_def)

lemma handler_page: "fst (Server_Handler env rq y) = RespPage h \<Longrightarrow> h = re_page env"
  by (auto simp: Server_Handler_def handlePublish_def handleExecutor_def handleHealth_def handleStatus_def
      handleConsole_def error_response_def Let_def split: if_splits option.splits prod.splits sum.splits)

lemma page_start: "\<exists>t. ConsoleHTML = CHR ''<'' # t"
  by (simp add: ConsoleHTML_def page_head_def page_lines_def)

lemma page_unread: "parse_value d ConsoleHTML = None"
proof -
  obtain t where page: "ConsoleHTML = CHR ''<'' # t" using page_start by blast
  show ?thesis unfolding page by (rule parse_nothing) (simp_all add: is_digit_def is_space_def)
qed

lemma not_found_unread: "res_json (http_Error ''404 page not found'' 404) = None"
  by code_simp

lemma page_reply_unread: "res_json (write_reply (RespPage ConsoleHTML)) = None"
  by (simp add: write_reply_def res_json_def page_unread)

lemma no_body_unread: "res_json (write_reply RespMethodNotAllowed) = None"
  by (simp add: write_reply_def res_json_def parse_value.simps skip_space_def)

lemma res_json_unread:
  assumes "response_json resp = None" and "fst (Server_Handler env rq y) = resp" and "re_page env = ConsoleHTML"
  shows "res_json (write_reply resp) = None"
proof (cases resp)
  case (RespBadRequest s)
  then show ?thesis using handler_texts assms(2) by (simp add: write_error plain_text_unread)
next
  case (RespPage h)
  then show ?thesis using handler_page [of env rq y h] assms(2,3) page_reply_unread by simp
next
  case RespNotFound
  then show ?thesis by (simp add: write_reply_def not_found_unread)
qed (use assms(1) no_body_unread in simp_all)

lemma json_code: "(\<And>h. resp \<noteq> RespPage h) \<Longrightarrow> response_json resp \<noteq> None \<longleftrightarrow> response_code resp = 200"
  by (cases resp) auto

lemma api_no_page:
  "fst (handlePublish i k now created m b y) \<noteq> RespPage h" "fst (handleExecutor now m e y) \<noteq> RespPage h"
  by (simp_all add: handlePublish_def handleExecutor_def error_response_def Let_def case_prod_beta
      split: option.splits sum.splits)

lemma write_reply_type:
  "rp_ContentType (write_reply resp) = Some json_type \<longleftrightarrow> response_json resp \<noteq> None"
  "rp_Status (write_reply resp) = response_code resp"
  by (cases resp; simp add: write_reply_def write_json_def http_Error_def)+

text \<open>
  C18: What the console page can read of a reply.  Its script takes every reply for JSON; that succeeds
  exactly for the replies that are sent as JSON, which are the encoding of the handler's value and
  are read back as it (strings repaired).  The two POST endpoints send JSON exactly if they accept:
  the text of a refusal, which says why, is never readable to the script.
\<close>

theorem console_reads_replies:
  assumes "Server_Serve env m p body y = (r, z)" and "re_page env = ConsoleHTML"
  shows "(res_json r \<noteq> None \<longleftrightarrow> rp_ContentType r = Some json_type)
    \<and> (rp_ContentType r = Some json_type \<longrightarrow>
        (\<exists>v. response_json (fst (Server_Handler env
               \<lparr>hr_Method = m, hr_Path = p, hr_Publish = decode_publish body, hr_Executor = decode_executor body\<rparr> y))
             = Some v \<and> rp_Body r = Encode v \<and> res_json r = Some (valid_json v)))
    \<and> (p \<in> {''/api/publish'', ''/executors''} \<longrightarrow> (res_json r \<noteq> None \<longleftrightarrow> rp_Status r = 200))"
proof -
  let ?rq = "\<lparr>hr_Method = m, hr_Path = p, hr_Publish = decode_publish body, hr_Executor = decode_executor body\<rparr>"
  define resp where "resp = fst (Server_Handler env ?rq y)"
  have r: "r = write_reply resp" using assms(1) by (simp add: Server_Serve_def Let_def case_prod_beta resp_def)
  have read: "res_json r = map_option valid_json (response_json resp)"
    using res_json_reply [of resp] res_json_unread [OF _ resp_def [symmetric] assms(2)] r
    by (cases "response_json resp") simp_all
  have "response_json resp \<noteq> None \<longleftrightarrow> response_code resp = 200" if "p \<in> {''/api/publish'', ''/executors''}"
  proof (rule json_code)
    consider "p = ''/api/publish''" | "p = ''/executors''" using \<open>p \<in> _\<close> by blast
    then show "resp \<noteq> RespPage h" for h
      by cases (simp_all add: resp_def Server_Handler_def api_no_page)
  qed
  moreover have "rp_Body r = Encode v" if "response_json resp = Some v" for v
    using that r by (simp add: write_reply_def write_json_def)
  ultimately show ?thesis
    unfolding resp_def [symmetric] using read write_reply_type [of resp] r by (intro conjI impI) force+
qed

definition sample_page_env :: request_env where
  "sample_page_env = sample_request_env\<lparr>re_page := ConsoleHTML\<rparr>"

theorem console_reads_replies_witness:
  "res_json (fst (Server_Serve sample_page_env ''POST'' ''/executors'' ''null'' (main_state id (Load ''x'')))) = None"
proof -
  obtain r z where h: "Server_Serve sample_page_env ''POST'' ''/executors'' ''null'' (main_state id (Load ''x'')) = (r, z)"
    by fastforce
  have "re_page sample_page_env = ConsoleHTML" by (simp add: sample_page_env_def)
  note reads = console_reads_replies [OF h this]
  have "decode_executor ''null'' = Some []" by code_simp
  then have "rp_Status r = 400"
    using h by (auto simp: Server_Serve_def Server_Handler_def handleExecutor_def write_error http_Error_def)
  with reads h show ?thesis by simp
qed

section \<open>The startup probe against the program's own server\<close>

text \<open>What a GET of a path receives; the client renders the status line.\<close>

definition served :: "(int \<Rightarrow> string) \<Rightarrow> request_env \<Rightarrow> system \<Rightarrow> string \<Rightarrow> http_result" where
  "served status env y path =
     (let r = fst (Server_Serve env ''GET'' path [] y)
      in HTTPResponse (rp_Status r) (status (rp_Status r)) (rp_Body r))"

lemma str_prefix_append: "str_prefix p s \<Longrightarrow> str_prefix p (s @ t)"
  by (induction p s rule: str_prefix.induct) auto

lemma str_contains_append: "str_contains s p \<Longrightarrow> str_contains (s @ t) p"
proof (induction s)
  case Nil
  then have "str_prefix p t" using str_prefix_append [of p "[]" t] by simp
  then show ?case by (cases t) simp_all
next
  case (Cons c s)
  then show ?case using str_prefix_append [of p "c # s" t] by auto
qed

lemma page_marker: "str_contains (take 8192 ConsoleHTML) ''JobScheduler Console''"
proof -
  obtain rest where split: "ConsoleHTML = page_head @ rest" by (auto simp: ConsoleHTML_def)
  have "length page_head \<le> 8192" "str_contains page_head ''JobScheduler Console''" by code_simp+
  then show ?thesis using str_contains_append by (simp add: split)
qed

text \<open>
  C35: The startup probe accepts the program's own server, in whatever states the server answers its two
  requests: with an address whose requests reach the handlers, one attempt is enough.
\<close>

theorem probe_accepts_own_server:
  assumes "get (trim_right_slash base @ ''/healthz'') = served status env y ''/healthz''"
    and "get (trim_right_slash base @ ''/'') = served status env' y' ''/''"
    and "re_page env' = ConsoleHTML"
  shows "Probe get base = None"
proof -
  have "take 512 (Encode v) \<noteq> []" for v by (simp add: Encode_def)
  then show ?thesis
    using assms page_marker
    by (simp add: Probe_def served_def Server_Serve_def Server_Handler_def handleHealth_def handleConsole_def
        write_reply_def write_json_def)
qed

theorem probe_accepts_own_server_witness:
  "Probe (\<lambda>url. served (\<lambda>c. ''200 OK'') sample_page_env (main_state id (Load ''x'')) (drop 10 url)) ''http://x:1/'' = None"
proof (rule probe_accepts_own_server)
  have base: "trim_right_slash ''http://x:1/'' = ''http://x:1''" by code_simp
  show "served (\<lambda>c. ''200 OK'') sample_page_env (main_state id (Load ''x'')) (drop 10 (trim_right_slash ''http://x:1/'' @ ''/healthz''))
      = served (\<lambda>c. ''200 OK'') sample_page_env (main_state id (Load ''x'')) ''/healthz''"
    by (simp only: base) simp
  show "served (\<lambda>c. ''200 OK'') sample_page_env (main_state id (Load ''x'')) (drop 10 (trim_right_slash ''http://x:1/'' @ ''/''))
      = served (\<lambda>c. ''200 OK'') sample_page_env (main_state id (Load ''x'')) ''/''"
    by (simp only: base) simp
  show "re_page sample_page_env = ConsoleHTML" by (simp add: sample_page_env_def)
qed

end
