(* ===== verification/Spec2Isabelle.thy ===== *)
theory Spec2Isabelle
  imports Retry Runner_Calls Batch Lifecycle Races Event_Schedules No_Deadlock Wire_Laws
begin

text \<open>
  Verification development for the distributed job scheduler \<open>jobsched\<close>: an HTTP server that accepts
  tasks and executors, hands the tasks that are due to the executors that hold a lease, and executes
  them on one runner per executor.

  \<^bold>\<open>The program.\<close>  A publish request (\<open>cmd/jobsched/server.go\<close>) builds a task, records its dependencies
  (\<open>internal/deps\<close>) and goes through the pipeline of \<open>internal/publish\<close>: the task gets a sequence and
  is retained (\<open>internal/store\<close>), is registered (\<open>internal/registry\<close>), and enters the waiting queue
  (\<open>internal/queue\<close>) if it waits for nothing.  A goroutine of \<open>cmd/jobsched/main.go\<close> calls \<open>Tick\<close> of
  \<open>internal/dispatch\<close> for every window of \<open>internal/clock\<close>: it drains the queue, hands the tasks of the
  window to the first executor of the lease table (\<open>internal/lease\<close>) through the rate limiter
  (\<open>internal/flow\<close>), and requeues the rest.  A hand-off enqueues an instance in the executor's runner
  (\<open>internal/exec\<close>), whose worker calls the handler.  The heartbeat (\<open>internal/heartbeat\<close>) renews
  leases and evicts the ones that lapsed.  The dispatcher also has a batch dispatch over cached group
  views and a catch-up that replays missed tasks, which the program itself does not call, and
  \<open>internal/retry\<close> plans retries, which nothing calls.

  \<^bold>\<open>The theories.\<close>
  \<^item> \<open>Prelude\<close>: 64-bit integers, Go maps as association lists with the order of a visit as an argument,
    and the interface \<open>state_machine\<close> of invariants over a bounded number of steps.
  \<^item> \<open>Model\<close> (\<open>internal/model\<close>), \<open>Clock\<close> (\<open>internal/clock\<close>): tasks, instances, leases, the error values
    of all packages, and windows, which partition time.
  \<^item> \<open>Heap\<close>, \<open>Queue\<close> (\<open>internal/queue\<close>): the array heap of the standard library with its sift loops, as
    an interface over any order; the bounded queue, as the interface \<open>prio_queue\<close> of a multiset.
  \<^item> \<open>Ring\<close>, \<open>Store\<close> (\<open>internal/store\<close>): the circular buffer refines a bounded log (\<open>bounded_log\<close>);
    sequences, the commit cursor, hand-off marks, execution records, and the backlog.
  \<^item> \<open>Registry\<close> (\<open>internal/registry\<close>), \<open>Deps\<close> (\<open>internal/deps\<close>, refined to a relation), \<open>Lease\<close>
    (\<open>internal/lease\<close>, with the interface \<open>lease_table\<close> the heartbeat uses), \<open>Flow\<close> (\<open>internal/flow\<close>),
    \<open>Retry\<close> (\<open>internal/retry\<close>), \<open>Metric\<close> (\<open>internal/metric\<close>).
  \<^item> \<open>Runner\<close>, \<open>Runner_Progress\<close>, \<open>Runner_Calls\<close>, \<open>Executors\<close> (\<open>internal/exec\<close>): the critical sections of a runner as
    functions, and its goroutines as the step relation \<open>runner_step\<close> with an explicit mutex, any
    number of callers, timers and the worker; the invariant of all reachable states; safety and
    progress of shutdown and of the worker; whole calls as runs of that relation, which is what the
    other theories use of it; the manager of the runners.
  \<^item> \<open>Broker\<close> (\<open>internal/publish\<close>): the record \<open>system\<close> of the state the parts share, and \<open>Publish\<close>.
  \<^item> \<open>Dispatch_Error\<close>, \<open>Dispatch\<close>, \<open>Group_Views\<close>, \<open>Batch\<close>, \<open>Catch_Up\<close> (\<open>internal/dispatch\<close>): error texts;
    hand-offs and ticks; the cache of group views over the interface \<open>versioned_view\<close>; the batch
    dispatch; the catch-up over the interface \<open>task_source\<close>.
  \<^item> \<open>Heartbeat\<close> (\<open>internal/heartbeat\<close>): evictions, sweeps and the loop.
  \<^item> \<open>Server\<close>, \<open>Requests\<close> (\<open>cmd/jobsched\<close>): configuration, wiring, the handlers as functions from a
    decoded request to a response, their routing, and the startup probe.
  \<^item> \<open>Json\<close>, \<open>Json_Laws\<close>, \<open>Page\<close>, \<open>Wire\<close>, \<open>Wire_Laws\<close> (\<open>cmd/jobsched/server.go\<close>, \<open>web/console.html\<close>): what the
    handlers use of the JSON package, as an encoder and a parser of bytes, with the proof that the
    parser reads back what the encoder writes; how a body is decoded into the fields of a request
    (over the interface \<open>decoded_object\<close>), the bytes of every reply, the server from bytes to bytes,
    and what the script of the page makes of a reply.
  \<^item> \<open>Objects\<close>: the objects \<open>main\<close> allocates, the constructors that store pointers to them, and the methods
    written once more so that each follows its own pointers (suffix \<open>_at\<close>): every one implements its
    operation on the shared record, so the program behaves as the state machine of \<open>System\<close>.
  \<^item> \<open>Lifecycle\<close>: the flag, the listener, the probe at the start and the \<open>select\<close> at the end of \<open>main\<close>.
  \<^item> \<open>System\<close>, \<open>Liveness\<close> and this theory: the running program as a state machine of events (requests,
    ticks, sweeps, turns of workers), the invariant that ties the parts together, what is executed
    in the end, and what never is.
  \<^item> \<open>Goroutines\<close>: the same program with its goroutines interleaved, as the step relation \<open>world_step\<close>: any
    number of requests, the ticking goroutine, the heartbeat and the worker of every runner, where a
    step is one critical section of one component and a runner is a \<open>runner_sys\<close> of \<open>Runner\<close> behind a
    pointer.  \<open>Once\<close> follows a task from the goroutine that publishes it to the worker that executes
    it; \<open>Schedules\<close> has the steps as functions and the schedules that can be evaluated; \<open>Interleaved\<close>
    shows what stays consistent under every interleaving and \<open>Races\<close> what does not; \<open>No_Deadlock\<close> shows
    that every call can be finished and all that was handed off executed, by a measure of the work left; \<open>Atomic_Runs\<close> and
    \<open>Event_Schedules\<close> show that the runs of events of \<open>System\<close> are schedules of the goroutines.

  Every definition that translates code has the name of the function, prefixed by its type or package
  where that is needed.  A mutex that covers a whole method is left out: the method is one function.
  There are two views of the running program.  In \<open>Runner\<close> and \<open>Goroutines\<close> the critical sections,
  channel operations and returns of all goroutines interleave; the catch-up and the batch dispatch,
  which the program does not call, and \<open>/status\<close>, which only reads, are not goroutines there.  In \<open>System\<close>
  whole calls follow each other, which is the view of the properties about what one call does;
  \<open>events_are_schedules\<close> ties the two together.

  \<^bold>\<open>What the program gets from outside\<close> is an argument of the definition that uses it: uuids (of
  which \<open>pub_start\<close> of \<open>Goroutines\<close> takes one that was not drawn before, as the uuid package documents),
  instants of the clock, the order in which a map is visited (any order of its keys, \<open>range_order\<close>),
  what other goroutines do while a call waits (\<open>wait\<close>), the rounding of floating point (\<open>fl\<close>, which the
  bounds only assume to be monotone, exact on integers up to \<open>2 ^ 53\<close> and of bounded relative error,
  \<open>float_rounding\<close>), the bytes of a request's body, the text of an instant, the HTTP client of the probe.

  \<^bold>\<open>Bounds.\<close>  Sequences, instants and durations are integers; the 64-bit wrap-around is written out
  (\<open>wrap64\<close>) where code can reach it, and theorems about runs bound the number of calls by the largest
  64-bit integer, since each call assigns at most one sequence and at most one slot.  Registry versions, metric counters
  and cache statistics are 64-bit words.  There is no fuel: loops are recursive functions with a
  measure, except the loop of \<open>Since\<close>, whose counter can wrap so that it does not end: it is an option,
  and \<open>since_returns_committed\<close> shows that it returns.  The parser of JSON recurses on the depth of
  nesting, which the package limits to ten thousand, and on the length of the text, which every parser
  shortens (\<open>parse_consumes\<close>).

  \<^bold>\<open>Not modelled.\<close>  The vendored uuid package; what the script of the embedded page does in a browser, but
  for how it reads a reply; the HTTP transport (headers other than the content type, the clean-up of
  paths) and what its listener does; the text the flag package prints; the delivery of signals and
  the log lines inside loops (no state of the program depends on them); the setter of the dispatcher's test hook (the hook is an argument);
  the system clock; infinities and NaN of floating point; the monotonic reading of instants; a runner
  with an unbuffered channel (the configuration buffers 64); panics, of which the modelled code has
  none on the modelled inputs; and data races: every shared field is guarded by its mutex, except the listener
  of the server, which \<open>Shutdown\<close> reads while the goroutine that serves may set it.
\<close>

section \<open>Properties that span the components\<close>

text \<open>
  C1: the components stay consistent with each other when whole calls follow each other.  In every
  state the configured program reaches through any sequence of events (requests, ticks, sweeps, worker
  turns), each of which ends before the next begins, at most as many as the largest 64-bit integer:
  the queue is within its limit and holds only tasks with an assigned sequence, the
  published progress and the committed cursor never pass the last sequence, no two executors hold
  the same slot, every executor that holds a slot has a runner, and every runner in the manager is
  open, not replaying, and within its capacity.  (What stays true when the goroutines interleave inside
  these calls is \<open>consistent_under_interleaving\<close>; that an executor with a slot has a runner does not,
  \<open>registration_loses_runner\<close>.)
\<close>

theorem program_invariant:
  assumes "\<forall>ev \<in> set evs. event_ok ev" and "int (length evs) \<le> max_int64"
    and "y = foldl (sys_step fl cfg) (main_state fl cfg) evs"
  shows "Queue_Len (sys_queue y) \<le> q_limit (sys_queue y)
    \<and> (\<forall>t \<in> set (q_items (sys_queue y)). 0 < task_Sequence t \<and> task_Sequence t \<le> s_seq (sys_store y))
    \<and> Broker_Progress y \<le> s_seq (sys_store y) \<and> Store_Cursor (sys_store y) \<le> s_seq (sys_store y)
    \<and> (\<forall>e e' s. lm_slotOf (sys_leases y) e = Some s \<longrightarrow> lm_slotOf (sys_leases y) e' = Some s \<longrightarrow> e = e')
    \<and> (\<forall>e s. lm_slotOf (sys_leases y) e = Some s \<longrightarrow> Manager_Get (sys_execs y) e \<noteq> None)
    \<and> (\<forall>e r. Manager_Get (sys_execs y) e = Some r \<longrightarrow>
          \<not> IsClosed r \<and> \<not> InReplay r \<and> QueueDepth r \<le> rn_cap r)"
proof -
  have inv: "sys_inv y" using events_inv [OF assms(1,2), of fl cfg] assms(3) by simp
  then have slots: "e = e'" if "lm_slotOf (sys_leases y) e = Some s" "lm_slotOf (sys_leases y) e' = Some s" for e e' s
    using slots_of_inv [OF _ that] by (simp add: sys_inv_def)
  moreover have "Queue_Len (sys_queue y) \<le> q_limit (sys_queue y)"
    using inv queue_inv_limit by (simp add: sys_inv_def Queue_Len_def)
  moreover have "\<forall>t \<in> set (q_items (sys_queue y)). 0 < task_Sequence t \<and> task_Sequence t \<le> s_seq (sys_store y)"
    using inv by (simp add: sys_inv_def queued_ok_def queue_contents_def)
  moreover have "Broker_Progress y \<le> s_seq (sys_store y)" "Store_Cursor (sys_store y) \<le> s_seq (sys_store y)"
    using inv by (simp_all add: sys_inv_def store_inv_def Broker_Progress_def Cursor_Position_def Store_Cursor_def)
  moreover have "\<forall>e s. lm_slotOf (sys_leases y) e = Some s \<longrightarrow> Manager_Get (sys_execs y) e \<noteq> None"
    using inv by (auto simp: sys_inv_def leased_run_def)
  moreover have "\<forall>e r. Manager_Get (sys_execs y) e = Some r \<longrightarrow>
          \<not> IsClosed r \<and> \<not> InReplay r \<and> QueueDepth r \<le> rn_cap r"
    using inv by (auto simp: sys_inv_def execs_ok_def runner_ok_def IsClosed_def InReplay_def QueueDepth_def)
  ultimately show ?thesis by blast
qed

theorem program_invariant_witness:
  "let y = foldl (sys_step id sample_config) (main_state id sample_config)
       [EvPublishReq ''a'' ''k'' 5 5 ''POST'' (Some (sample_request [])),
        EvExecutorReq 5 ''POST'' (Some ''w''), sample_tick]
   in lm_slotOf (sys_leases y) ''w'' = Some 0 \<and> Manager_Get (sys_execs y) ''w'' \<noteq> None \<and> Broker_Progress y \<le> 1"
  (is "let y = foldl _ _ ?evs in _")
proof -
  define y where "y = foldl (sys_step id sample_config) (main_state id sample_config) ?evs"
  have ok: "\<forall>ev \<in> set ?evs. event_ok ev" "int (length ?evs) \<le> max_int64"
    using sample_tick_ok by (simp_all add: max_int64_def)
  note inv = program_invariant [OF ok y_def]
  have y: "lm_slotOf (sys_leases y) ''w'' = Some 0" "s_seq (sys_store y) = 1"
    unfolding y_def by code_simp+
  have "Manager_Get (sys_execs y) ''w'' \<noteq> None" using inv y(1) by blast
  moreover have "Broker_Progress y \<le> 1" using inv unfolding y(2) by blast
  ultimately show ?thesis using y(1) by (simp add: y_def Let_def)
qed

text \<open>
  C29: a task published with a dependency is accepted and never runs.  No part of the program
  satisfies a dependency: whatever happened before under other ids, and whatever events follow, a
  task whose accepted publish request named a dependency is still waiting for it, is in no queue and
  in no runner, and has no execution record.
\<close>

theorem dependent_task_never_runs:
  assumes "\<forall>ev \<in> set (before @ [req_ev] @ after). event_ok ev" and "int (length before) < max_int64"
    and "\<forall>ev \<in> set before. \<not> publishes tid ev"
    and "req_ev = EvPublishReq tid key now created m (Some req)"
    and "y0 = foldl (sys_step fl cfg) (main_state fl cfg) before"
    and "fst (handlePublish tid key now created m (Some req) y0) = RespAccepted seq tid"
    and "d \<in> set (pr_DependsOn req)" and "d \<noteq> []"
    and "y = foldl (sys_step fl cfg) (main_state fl cfg) (before @ [req_ev] @ after)"
  shows "\<not> Graph_Ready (sys_deps y) tid \<and> d \<in> set (Graph_Deps (sys_deps y) tid)
    \<and> (\<forall>t \<in> set (q_items (sys_queue y)). task_ID t \<noteq> tid)
    \<and> (\<forall>e r. Manager_Get (sys_execs y) e = Some r \<longrightarrow> (\<forall>i \<in> set (rn_in r). inst_TaskID i \<noteq> tid))
    \<and> Store_TaskRecord (sys_store y) tid = None"
proof -
  have before: "\<forall>ev \<in> set before. event_ok ev \<and> \<not> publishes tid ev" using assms(1,3) by simp
  have inv: "sys_inv y0" using events_inv [of before fl cfg] assms(1,2,5) by simp
  have absent0: "absent tid y0" using absent_events [OF absent_main before] assms(5) by simp
  let ?y1 = "sys_step fl cfg y0 req_ev"
  have g1: "sys_deps ?y1 = add_deps (sys_deps y0) tid (pr_DependsOn req)"
    using accepted_request(1) [OF assms(6)] by (simp add: assms(4))
  have g0: "graph_inv (sys_deps y0)" using inv by (simp add: sys_inv_def)
  then have g: "graph_inv (sys_deps ?y1)" "waits (sys_deps ?y1) tid d"
    using assms(7,8) by (simp_all add: g1 add_deps_inv add_deps_waits)
  then have "\<not> Graph_Ready (sys_deps ?y1) tid" by (auto simp: Ready_iff)
  then have "absent tid ?y1" using assms(1) by (intro absent_event [OF absent0]) simp_all
  then have y: "absent tid y \<and> waits (sys_deps y) tid d"
    using stranded_events [OF _ g] assms(1) by (simp add: assms(5,9))
  have "graph_inv (sys_deps (foldl (sys_step fl cfg) z evs))" if "graph_inv (sys_deps z)" for z evs
    using that
  proof (induction evs arbitrary: z)
    case (Cons ev evs)
    then show ?case using event_deps [of fl cfg z ev] by (auto simp: add_deps_inv)
  qed simp
  then have "graph_inv (sys_deps y)" using g(1) by (simp add: assms(5,9))
  then show ?thesis
    using y by (auto simp: Ready_iff Deps_eq waits_finite absent_def queue_contents_def execs_avoid_def runner_avoids_def)
qed

theorem dependent_task_never_runs_witness:
  "Store_TaskRecord (sys_store (foldl (sys_step id sample_config) (main_state id sample_config)
      ([EvExecutorReq 5 ''POST'' (Some ''w'')]
       @ [EvPublishReq ''t'' ''k'' 5 5 ''POST'' (Some (sample_request [''d'']))] @ [sample_tick, EvWorker ''w'']))) ''t''
   = None"
proof -
  let ?before = "[EvExecutorReq 5 ''POST'' (Some ''w'')]"
    and ?req = "EvPublishReq ''t'' ''k'' 5 5 ''POST'' (Some (sample_request [''d'']))"
    and ?after = "[sample_tick, EvWorker ''w'']"
  let ?y0 = "foldl (sys_step id sample_config) (main_state id sample_config) ?before"
  have ok: "\<forall>ev \<in> set (?before @ [?req] @ ?after). event_ok ev" "int (length ?before) < max_int64"
    "\<forall>ev \<in> set ?before. \<not> publishes ''t'' ev"
    using sample_tick_ok by (simp_all add: max_int64_def)
  have acc: "fst (handlePublish ''t'' ''k'' 5 5 ''POST'' (Some (sample_request [''d''])) ?y0) = RespAccepted 1 ''t''"
    by code_simp
  have d: "''d'' \<in> set (pr_DependsOn (sample_request [''d'']))" "''d'' \<noteq> []"
    by (simp_all add: sample_request_def)
  from dependent_task_never_runs [OF ok refl refl acc d refl] show ?thesis by blast
qed

text \<open>
  Registering while an eviction is under way leaves a slot without a runner.  The evictor evicts
  the lease, then shuts the runner down and removes it; the executor handler adds a runner, then
  acquires a slot.  When the handler runs between the two steps of the evictor, it is given the old
  runner and a new slot, and the runner is removed after it: the executor is registered and holds a
  slot, and every hand-off to it is refused for want of a runner, until it is evicted once more.
\<close>

theorem evict_register_race:
  assumes "Lease_Lease (sys_leases y) e = Some l" and "Manager_Get (sys_execs y) e = Some r" and "e \<noteq> []"
    and "Lease_Evict (sys_leases y) e = (True, m)"
    and "handleExecutor now ''POST'' (Some e) (y\<lparr>sys_leases := m\<rparr>) = (resp, y1)"
    and "z = y1\<lparr>sys_execs := Manager_Remove (Manager_Put (sys_execs y1) e (Shutdown drain r)) e\<rparr>"
  shows "\<exists>slot. resp = RespRegistered e slot \<and> lm_slotOf (sys_leases z) e = Some slot
    \<and> Manager_Get (sys_execs z) e = None \<and> Manager_Get (sys_execs y1) e = Some r
    \<and> (\<forall>w i. Manager_Dispatch w (sys_execs z) e i = (Some ErrNoExecutor, sys_execs z))"
proof -
  have "lm_slotOf m e = None"
    using Evict_reads(2) [of "sys_leases y" e e] assms(1,4) by simp
  then have "resp = RespRegistered e (lm_next m) \<and> lm_slotOf (sys_leases y1) e = Some (lm_next m)
      \<and> sys_execs y1 = sys_execs y"
    using assms(2,3,5) by (auto simp: handleExecutor_def Lease_Acquire_def Manager_Add_def Manager_Get_def Let_def)
  then show ?thesis using assms(2) by (simp add: assms(6) Manager_Dispatch_def)
qed

theorem evict_register_race_witness:
  "\<exists>(z :: system) slot. lm_slotOf (sys_leases z) ''v'' = Some slot \<and> Manager_Get (sys_execs z) ''v'' = None
    \<and> (\<forall>w i. fst (Manager_Dispatch w (sys_execs z) ''v'' i) = Some ErrNoExecutor)"
proof -
  obtain l where l: "Lease_Lease (sys_leases sample_pair) ''v'' = Some l" using sample_pair_leases(1) by blast
  obtain r where r: "Manager_Get (sys_execs sample_pair) ''v'' = Some r"
    by (cases "Manager_Get (NewManager 2) ''v''") (simp_all add: sample_pair_def sample_system_def)
  obtain m where m: "Lease_Evict (sys_leases sample_pair) ''v'' = (True, m)"
    using l Evict_reads(5) [of "sys_leases sample_pair" "''v''"] by (cases "Lease_Evict (sys_leases sample_pair) ''v''") simp
  obtain resp y1 where h: "handleExecutor 20 ''POST'' (Some ''v'') (sample_pair\<lparr>sys_leases := m\<rparr>) = (resp, y1)"
    by fastforce
  let ?z = "y1\<lparr>sys_execs := Manager_Remove (Manager_Put (sys_execs y1) ''v'' (Shutdown id r)) ''v''\<rparr>"
  have "''v'' \<noteq> []" by simp
  from evict_register_race [OF l r this m h refl, of id]
  have "\<exists>slot. lm_slotOf (sys_leases ?z) ''v'' = Some slot \<and> Manager_Get (sys_execs ?z) ''v'' = None
      \<and> (\<forall>w i. fst (Manager_Dispatch w (sys_execs ?z) ''v'' i) = Some ErrNoExecutor)"
    by (metis fst_conv)
  then show ?thesis by blast
qed

end
